(* ===== verification/Prelude.thy ===== *)
theory Prelude
  imports Main "HOL-Library.Word" "HOL-Library.Monad_Syntax"
begin

unbundle bit_operations_syntax

text \<open>
  Shared vocabulary of the development: pointers and heaps, the reading and writing of a field
  through a pointer, checked array access, the C integer types, and the lemma collections the
  component theories extend.

  Every operation of the C++ program that may have undefined behaviour, fail an \<open>assert\<close>,
  abort, or loop forever returns an option in the model. \<open>None\<close> stands for exactly these cases
  and never for an ordinary result: a null pointer is the ordinary value \<open>NULL\<close>.  A theorem of
  the shape \<open>\<exists>y. f x = Some y\<close> therefore says that the C++ function returns and touches no memory
  it does not own.
\<close>

section \<open>Pointers and heaps\<close>

type_synonym ptr = nat

abbreviation (input) NULL :: ptr where "NULL \<equiv> 0"

type_synonym u8 = "8 word"
type_synonym u32 = "32 word"
type_synonym u64 = "64 word"
type_synonym byte = u8

text \<open>
  One heap per struct type (the component-as-array view of memory): a heap maps the address of an
  object to its fields, and an address that is not allocated to \<open>None\<close>.  An object that embeds
  others (\<open>ZNode\<close> embeds an \<open>AVLNode\<close> and an \<open>HNode\<close>) uses one address for all of them, so
  \<open>my_container_of\<close> is the identity on addresses.
\<close>

definition deref :: "(ptr \<rightharpoonup> 'a) \<Rightarrow> ptr \<Rightarrow> 'a option" where
  "deref h p = (if p = NULL then None else h p)"

definition modify :: "(ptr \<rightharpoonup> 'a) \<Rightarrow> ptr \<Rightarrow> ('a \<Rightarrow> 'a) \<Rightarrow> (ptr \<rightharpoonup> 'a) option" where
  "modify h p f = (if p = NULL then None else map_option (\<lambda>v. h(p \<mapsto> f v)) (h p))"

definition nth_opt :: "'a list \<Rightarrow> nat \<Rightarrow> 'a option" where
  "nth_opt xs i = (if i < length xs then Some (xs ! i) else None)"

definition put_opt :: "'a list \<Rightarrow> nat \<Rightarrow> 'a \<Rightarrow> 'a list option" where
  "put_opt xs i x = (if i < length xs then Some (xs[i := x]) else None)"

definition slice_opt :: "'a list \<Rightarrow> nat \<Rightarrow> nat \<Rightarrow> 'a list option" where
  "slice_opt xs i n = (if i + n \<le> length xs then Some (take n (drop i xs)) else None)"

named_theorems heap_simps \<open>reading and writing through pointers\<close>

lemma deref_NULL [simp]: "deref h NULL = None"
  by (simp add: deref_def)

lemma deref_Some [heap_simps]: "deref h p = Some v \<longleftrightarrow> p \<noteq> NULL \<and> h p = Some v"
  by (simp add: deref_def)

lemma deref_nonnull [simp]: "p \<noteq> NULL \<Longrightarrow> deref h p = h p"
  by (simp add: deref_def)

lemma modify_NULL [simp]: "modify h NULL f = None"
  by (simp add: modify_def)

lemma modify_Some [simp]: "p \<noteq> NULL \<Longrightarrow> h p = Some v \<Longrightarrow> modify h p f = Some (h(p \<mapsto> f v))"
  by (simp add: modify_def)

lemma modify_eq_Some [heap_simps]:
  "modify h p f = Some h' \<longleftrightarrow> p \<noteq> NULL \<and> (\<exists>v. h p = Some v \<and> h' = h(p \<mapsto> f v))"
  by (auto simp: modify_def)

lemma nth_opt_Some [simp]: "i < length xs \<Longrightarrow> nth_opt xs i = Some (xs ! i)"
  by (simp add: nth_opt_def)

lemma nth_opt_eq_Some [heap_simps]: "nth_opt xs i = Some x \<longleftrightarrow> i < length xs \<and> x = xs ! i"
  by (auto simp: nth_opt_def)

lemma put_opt_Some [simp]: "i < length xs \<Longrightarrow> put_opt xs i x = Some (xs[i := x])"
  by (simp add: put_opt_def)

lemma slice_opt_Some [simp]: "i + n \<le> length xs \<Longrightarrow> slice_opt xs i n = Some (take n (drop i xs))"
  by (simp add: slice_opt_def)

text \<open>Two heaps that differ only at addresses of \<open>S\<close>.\<close>

definition same_outside :: "'a set \<Rightarrow> ('a \<rightharpoonup> 'b) \<Rightarrow> ('a \<rightharpoonup> 'b) \<Rightarrow> bool" where
  "same_outside S h h' \<longleftrightarrow> (\<forall>x. x \<notin> S \<longrightarrow> h' x = h x)"

lemma same_outside_refl [simp]: "same_outside S h h"
  by (simp add: same_outside_def)

lemma same_outside_trans:
  "same_outside S h h' \<Longrightarrow> same_outside T h' h'' \<Longrightarrow> S \<subseteq> U \<Longrightarrow> T \<subseteq> U \<Longrightarrow> same_outside U h h''"
  unfolding same_outside_def by (metis subsetD)

lemma bind_cong_weak: "m = m' \<Longrightarrow> Option.bind m f = Option.bind m' f"
  by simp

section \<open>Machine words\<close>

lemma unat_less_pow2 [simp]: "unat (x :: 'a::len word) < 2 ^ LENGTH('a)"
  by (rule unsigned_less)

lemma unat_add_small:
  "unat x + unat y < 2 ^ LENGTH('a) \<Longrightarrow> unat (x + y :: 'a::len word) = unat x + unat y"
  by (simp add: unat_word_ariths)

lemma unat_Suc_small:
  "Suc (unat x) < 2 ^ LENGTH('a) \<Longrightarrow> unat (1 + x :: 'a::len word) = Suc (unat x)"
  by (cases "LENGTH('a)") (auto simp: unat_word_ariths)

lemma unat_pow2: "k < LENGTH('a) \<Longrightarrow> unat (2 ^ k :: 'a::len word) = 2 ^ k"
proof -
  assume "k < LENGTH('a)"
  then have "unat (word_of_nat (2 ^ k) :: 'a word) = 2 ^ k"
    by (simp only: unsigned_of_nat take_bit_nat_eq_self_iff) (simp add: take_bit_nat_eq_self_iff)
  then show ?thesis by simp
qed

lemma pow2_pred_and: "(2 ^ k - 1) AND (2 :: 'a::len word) ^ k = 0"
proof -
  have "mask k AND (2 :: 'a word) ^ k = 0"
    by (rule bit_word_eqI) (simp add: bit_and_iff bit_mask_iff bit_exp_iff)
  then show ?thesis by (simp add: mask_eq_exp_minus_1)
qed

lemma unat_and_le: "unat (x AND m :: 'a::len word) \<le> unat m"
  by (rule word_and_le1 [THEN word_le_nat_alt [THEN iffD1]])

lemma sint_eq_unat:
  fixes x :: "'a::len word"
  assumes "unat x < 2 ^ (LENGTH('a) - 1)"
  shows "sint x = int (unat x)"
proof -
  from assms have "int (unat x) < int (2 ^ (LENGTH('a) - 1))" by (rule of_nat_less_iff [THEN iffD2])
  then have "uint x < 2 ^ (LENGTH('a) - 1)" by simp
  moreover have "- (2 ^ (LENGTH('a) - 1)) \<le> uint x"
    by (rule order_trans [of _ 0]) simp_all
  ultimately show ?thesis
    by (simp add: sint_uint signed_take_bit_int_eq_self)
qed

end
