(* ===== verification/AVL_Spec.thy ===== *)
theory AVL_Spec
  imports Prelude "HOL-Library.Tree"
begin

text \<open>
  The abstract counterpart of \<open>src/src/avl.cpp\<close>: trees whose nodes are labelled with the addresses
  of \<open>AVLNode\<close>s, the two rotations and the rebalancing step as tree functions, and the walk to the
  root as a recursion over a context (the path from a node to the root, innermost frame first).
  The theory shows that the walk restores the AVL balance after any change of height by one and
  never reorders the nodes; \<open>AVL_Refine\<close> shows that the pointer code computes these functions.
\<close>

section \<open>Balance\<close>

fun avl :: "'a tree \<Rightarrow> bool" where
  "avl Leaf = True"
| "avl (Node l a r) =
     (height l \<le> Suc (height r) \<and> height r \<le> Suc (height l) \<and> avl l \<and> avl r)"

fun rotl :: "'a tree \<Rightarrow> 'a tree" where
  "rotl (Node A a (Node B b C)) = Node (Node A a B) b C"
| "rotl t = t"

fun rotr :: "'a tree \<Rightarrow> 'a tree" where
  "rotr (Node (Node A a B) b C) = Node A a (Node B b C)"
| "rotr t = t"

fun fix_left :: "'a tree \<Rightarrow> 'a tree" where
  "fix_left (Node (Node A a B) b C) =
     (if height A < height B then rotr (Node (rotl (Node A a B)) b C)
      else rotr (Node (Node A a B) b C))"
| "fix_left t = t"

fun fix_right :: "'a tree \<Rightarrow> 'a tree" where
  "fix_right (Node A a (Node B b C)) =
     (if height C < height B then rotl (Node A a (rotr (Node B b C)))
      else rotl (Node A a (Node B b C)))"
| "fix_right t = t"

fun balance :: "'a tree \<Rightarrow> 'a tree" where
  "balance Leaf = Leaf"
| "balance (Node l a r) =
     (if height l > height r + 1 then fix_left (Node l a r)
      else if height r > height l + 1 then fix_right (Node l a r)
      else Node l a r)"

section \<open>Contexts\<close>

datatype 'a frame = InLeft 'a "'a tree" | InRight "'a tree" 'a

type_synonym 'a path = "'a frame list"

fun fill :: "'a frame \<Rightarrow> 'a tree \<Rightarrow> 'a tree" where
  "fill (InLeft a r) t = Node t a r"
| "fill (InRight l a) t = Node l a t"

fun plug :: "'a path \<Rightarrow> 'a tree \<Rightarrow> 'a tree" where
  "plug [] t = t"
| "plug (f # c) t = plug c (fill f t)"

fun frame_label :: "'a frame \<Rightarrow> 'a" where
  "frame_label (InLeft a r) = a"
| "frame_label (InRight l a) = a"

fun before :: "'a path \<Rightarrow> 'a list" where
  "before [] = []"
| "before (InLeft a r # c) = before c"
| "before (InRight l a # c) = before c @ inorder l @ [a]"

fun after :: "'a path \<Rightarrow> 'a list" where
  "after [] = []"
| "after (InLeft a r # c) = a # inorder r @ after c"
| "after (InRight l a # c) = after c"

fun frame_set :: "'a frame \<Rightarrow> 'a set" where
  "frame_set (InLeft a r) = insert a (set_tree r)"
| "frame_set (InRight l a) = insert a (set_tree l)"

definition path_set :: "'a path \<Rightarrow> 'a set" where
  "path_set c = \<Union> (frame_set ` set c)"

lemma path_set_simps [simp]:
  "path_set [] = {}"
  "path_set (f # c) = frame_set f \<union> path_set c"
  "path_set (c @ d) = path_set c \<union> path_set d"
  by (auto simp: path_set_def)

lemma set_before_after: "set (before c) \<union> set (after c) = path_set c"
  by (induction c rule: before.induct) auto

lemma inorder_plug: "inorder (plug c t) = before c @ inorder t @ after c"
  by (induction c arbitrary: t rule: before.induct) auto

lemma set_tree_plug: "set_tree (plug c t) = path_set c \<union> set_tree t"
  by (simp add: inorder_plug flip: set_inorder) (use set_before_after in fastforce)

lemma plug_append [simp]: "plug (c @ d) t = plug d (plug c t)"
  by (induction c arbitrary: t) auto

lemma before_append [simp]: "before (c @ d) = before d @ before c"
  by (induction c rule: before.induct) auto

lemma after_append [simp]: "after (c @ d) = after c @ after d"
  by (induction c rule: before.induct) auto

lemma size_plug: "size (plug c t) = length (before c) + size t + length (after c)"
  using arg_cong [OF inorder_plug, of length c t] by simp

lemma tree_split: "a \<in> set_tree t \<Longrightarrow> \<exists>c l r. t = plug c (Node l a r)"
proof (induction t)
  case Leaf
  then show ?case by simp
next
  case (Node l x r)
  then consider "a = x" | "a \<in> set_tree l" | "a \<in> set_tree r" by auto
  then show ?case
  proof cases
    case 1
    then show ?thesis by (metis plug.simps(1))
  next
    case 2
    then obtain c l' r' where "l = plug c (Node l' a r')" using Node.IH(1) by blast
    then have "Node l x r = plug (c @ [InLeft x r]) (Node l' a r')" by simp
    then show ?thesis by blast
  next
    case 3
    then obtain c l' r' where "r = plug c (Node l' a r')" using Node.IH(2) by blast
    then have "Node l x r = plug (c @ [InRight l x]) (Node l' a r')" by simp
    then show ?thesis by blast
  qed
qed

section \<open>Walking to the root\<close>

fun fixup :: "'a path \<Rightarrow> 'a tree \<Rightarrow> 'a tree" where
  "fixup [] t = balance t"
| "fixup (f # c) t = fixup c (fill f (balance t))"

fun fixup_parent :: "'a path \<Rightarrow> 'a tree \<Rightarrow> 'a tree" where
  "fixup_parent [] t = t"
| "fixup_parent (f # c) t = fixup c (fill f t)"

lemma fixup_eq_parent: "fixup c t = fixup_parent c (balance t)"
  by (cases c) simp_all

lemma inorder_rotl [simp]: "inorder (rotl t) = inorder t"
  by (induction t rule: rotl.induct) auto

lemma inorder_rotr [simp]: "inorder (rotr t) = inorder t"
  by (induction t rule: rotr.induct) auto

lemma inorder_balance [simp]: "inorder (balance t) = inorder t"
proof (cases t)
  case (Node l a r)
  then show ?thesis by (cases l; cases r) (simp_all del: rotl.simps rotr.simps)
qed simp

lemma inorder_fixup: "inorder (fixup c t) = before c @ inorder t @ after c"
proof (induction c arbitrary: t)
  case (Cons f c)
  then show ?case by (cases f) simp_all
qed simp

lemma inorder_fixup_parent: "inorder (fixup_parent c t) = before c @ inorder t @ after c"
proof (cases c)
  case (Cons f c')
  then show ?thesis by (cases f) (simp_all add: inorder_fixup)
qed simp

lemma set_balance [simp]: "set_tree (balance t) = set_tree t"
  by (simp flip: set_inorder)

lemma set_fixup: "set_tree (fixup c t) = path_set c \<union> set_tree t"
  by (simp add: inorder_fixup flip: set_inorder) (use set_before_after in fastforce)

lemma size_balance [simp]: "size (balance t) = size t"
  by (simp flip: length_inorder)

text \<open>
  One step of the walk: if replacing a subtree changed its height by at most one, then after
  rebalancing the parent the parent's height has changed by at most one, and it is balanced.
\<close>

lemma fix_left_avl:
  assumes "avl l" "avl r" "height l = height r + 2"
  shows "avl (fix_left (Node l a r)) \<and>
    height (fix_left (Node l a r)) \<in> {height r + 2, height r + 3}"
proof (cases l)
  case (Node A x B)
  then show ?thesis
  proof (cases "height A < height B")
    case True
    then obtain B1 y B2 where "B = Node B1 y B2" by (cases B) auto
    with assms Node True show ?thesis by (auto simp: max_def split: if_splits)
  next
    case False
    with assms Node show ?thesis by (auto simp: max_def split: if_splits)
  qed
qed (use assms in simp)

lemma fix_right_avl:
  assumes "avl l" "avl r" "height r = height l + 2"
  shows "avl (fix_right (Node l a r)) \<and>
    height (fix_right (Node l a r)) \<in> {height l + 2, height l + 3}"
proof (cases r)
  case (Node B x C)
  then show ?thesis
  proof (cases "height C < height B")
    case True
    then obtain B1 y B2 where "B = Node B1 y B2" by (cases B) auto
    with assms Node True show ?thesis by (auto simp: max_def split: if_splits)
  next
    case False
    with assms Node show ?thesis by (auto simp: max_def split: if_splits)
  qed
qed (use assms in simp)

text \<open>Two heights that differ by at most one.\<close>

definition near :: "nat \<Rightarrow> nat \<Rightarrow> bool" where
  "near m n \<longleftrightarrow> m \<le> Suc n \<and> n \<le> Suc m"

lemma near_refl [simp]: "near n n"
  by (simp add: near_def)

lemma balance_avl:
  assumes "avl l" "avl r" "near (height l) l0" "near (height r) r0" "near l0 r0"
    and "height l = l0 \<or> height r = r0"
  shows "avl (balance (Node l a r)) \<and>
    near (height (balance (Node l a r))) (Suc (max l0 r0))"
proof -
  consider "height l = height r + 2" | "height r = height l + 2" | "near (height l) (height r)"
    using assms(3-6) unfolding near_def by linarith
  then show ?thesis
  proof cases
    case 1
    with fix_left_avl [OF assms(1,2) 1, of a] assms(3-6) show ?thesis
      by (auto simp: near_def max_def simp del: fix_left.simps)
  next
    case 2
    with fix_right_avl [OF assms(1,2) 2, of a] assms(3-6) show ?thesis
      by (auto simp: near_def max_def simp del: fix_right.simps)
  next
    case 3
    with assms show ?thesis by (auto simp: near_def max_def)
  qed
qed

lemma avl_plugD: "avl (plug c t) \<Longrightarrow> avl t"
proof (induction c arbitrary: t)
  case (Cons f c)
  then have "avl (fill f t)" by simp
  then show ?case by (cases f) simp_all
qed simp

lemma balance_fill:
  assumes "avl (fill f t0)" "avl t" "near (height t) (height t0)"
  shows "avl (balance (fill f t)) \<and> near (height (balance (fill f t))) (height (fill f t0))"
proof (cases f)
  case (InLeft a r)
  with assms balance_avl [of t r "height t0" "height r" a] show ?thesis
    by (simp add: near_def)
next
  case (InRight l a)
  with assms balance_avl [of l t "height l" "height t0" a] show ?thesis
    by (simp add: near_def)
qed

lemma balance_id: "avl t \<Longrightarrow> balance t = t"
  by (cases t) auto

lemma fixup_parent_avl:
  assumes "avl (plug c t0)" "avl t" "near (height t) (height t0)"
  shows "avl (fixup_parent c t)"
  using assms
proof (induction c arbitrary: t t0)
  case (Cons f c)
  have "avl (fill f t0)" using Cons.prems(1) by (auto dest: avl_plugD)
  then have "avl (balance (fill f t))" "near (height (balance (fill f t))) (height (fill f t0))"
    using balance_fill Cons.prems(2,3) by blast+
  with Cons.IH [of "fill f t0" "balance (fill f t)"] Cons.prems(1) show ?case
    by (simp add: fixup_eq_parent)
qed simp

text \<open>
  An AVL tree is exponentially larger than its height, so the 32-bit \<open>depth\<close> field never
  overflows before the node counter does.
\<close>

lemma avl_size_height: "avl t \<Longrightarrow> 2 ^ (height t div 2) \<le> size1 t"
proof (induction t)
  case (Node l a r)
  let ?m = "min (height l) (height r)"
  have "2 ^ (?m div 2) \<le> size1 l" "2 ^ (?m div 2) \<le> size1 r"
    using Node by (auto intro: order_trans [rotated] power_increasing div_le_mono)
  then have "2 ^ (Suc (?m div 2)) \<le> size1 l + size1 r" by simp
  moreover have "height (Node l a r) div 2 \<le> Suc (?m div 2)"
    using Node.prems by (simp add: max_def min_def; arith)
  then have "(2::nat) ^ (height (Node l a r) div 2) \<le> 2 ^ Suc (?m div 2)"
    by (rule power_increasing) simp
  ultimately show ?case by simp
qed simp

section \<open>Removing a node\<close>

text \<open>
  \<open>leftmost_path t c\<close> walks to the left end of \<open>t\<close> and returns the victim, its right subtree and
  its path.  \<open>remove c l a r\<close> removes the node \<open>a\<close> with subtrees \<open>l\<close>, \<open>r\<close> at path \<open>c\<close> as \<open>avl_del\<close>
  does: with no right subtree the left one takes its place; otherwise the victim, the successor in
  the right subtree, is removed and its address then takes the place of \<open>a\<close>.
\<close>

fun leftmost_path :: "'a path \<Rightarrow> 'a tree \<Rightarrow> 'a \<Rightarrow> 'a tree \<Rightarrow> 'a path \<times> 'a \<times> 'a tree" where
  "leftmost_path c Leaf a r = (c, a, r)"
| "leftmost_path c (Node l b m) a r = leftmost_path (InLeft a r # c) l b m"

lemma leftmost_path_plug:
  "leftmost_path c l a r = (d, v, s) \<Longrightarrow>
    plug d (Node Leaf v s) = plug c (Node l a r) \<and> size s \<le> size r + size l \<and>
    (\<exists>e. d = e @ c \<and> before e = [])"
  by (induction c l a r rule: leftmost_path.induct) force+

function remove :: "'a path \<Rightarrow> 'a tree \<Rightarrow> 'a \<Rightarrow> 'a tree \<Rightarrow> 'a tree" where
  "remove c l a Leaf = fixup_parent c l"
| "remove c l a (Node rl b rr) =
     (case leftmost_path (InRight l a # c) rl b rr of
        (d, v, s) \<Rightarrow> map_tree (\<lambda>x. if x = a then v else x) (remove d Leaf v s))"
  by pat_completeness auto
termination
  by (relation "measure (\<lambda>(c, l, a, r). size r)")
    (auto dest!: sym [THEN leftmost_path_plug] simp: less_Suc_eq_le)

text \<open>The victim is the first node after \<open>a\<close> in order.\<close>

lemma leftmost_path_inorder:
  assumes "leftmost_path (InRight l a # c) rl b rr = (d, v, s)"
  shows "before d = before c @ inorder l @ [a]"
    and "inorder (Node rl b rr) @ after c = v # inorder s @ after d"
proof -
  from leftmost_path_plug [OF assms] obtain e where
    p: "plug d (Node Leaf v s) = plug c (Node l a (Node rl b rr))"
    and e: "d = e @ InRight l a # c" "before e = []" by auto
  show "before d = before c @ inorder l @ [a]" using e by simp
  with arg_cong [OF p, of inorder]
  show "inorder (Node rl b rr) @ after c = v # inorder s @ after d" by (simp add: inorder_plug)
qed

lemma inorder_remove:
  assumes "distinct (inorder (plug c (Node l a r)))"
  shows "inorder (remove c l a r) = before c @ inorder l @ inorder r @ after c"
  using assms
proof (induction c l a r rule: remove.induct)
  case (1 c l a)
  show ?case by (simp add: inorder_fixup_parent)
next
  case (2 c l a rl b rr)
  obtain d v s where d: "leftmost_path (InRight l a # c) rl b rr = (d, v, s)"
    by (cases "leftmost_path (InRight l a # c) rl b rr") auto
  note v = leftmost_path_inorder [OF d]
  from leftmost_path_plug [OF d] 2(2) have "distinct (inorder (plug d (Node Leaf v s)))" by simp
  from 2(1) [OF d [symmetric] refl this]
  have "inorder (remove d Leaf v s) = before c @ inorder l @ a # inorder s @ after d"
    by (simp add: v(1))
  moreover have "inorder (plug c (Node l a (Node rl b rr))) =
      before c @ inorder l @ a # v # inorder s @ after d"
    using v(2) by (simp add: inorder_plug)
  then have "distinct (before c @ inorder l @ a # v # inorder s @ after d)"
    using 2(2) by (simp only:)
  ultimately have "inorder (remove c l a (Node rl b rr)) =
      before c @ inorder l @ v # inorder s @ after d"
    using d by (auto simp: inorder_map intro!: map_idI)
  then show ?case using v(2) by simp
qed

lemma avl_map_tree [simp]: "avl (map_tree f t) = avl t"
  by (induction t) auto

lemma avl_remove: "avl (plug c (Node l a r)) \<Longrightarrow> avl (remove c l a r)"
proof (induction c l a r rule: remove.induct)
  case (1 c l a)
  then have "avl (Node l a Leaf)" by (rule avl_plugD)
  with 1 show ?case by (auto intro: fixup_parent_avl simp: near_def)
next
  case (2 c l a rl b rr)
  obtain d v s where d: "leftmost_path (InRight l a # c) rl b rr = (d, v, s)"
    by (cases "leftmost_path (InRight l a # c) rl b rr") auto
  from leftmost_path_plug [OF d] 2(2) have "avl (plug d (Node Leaf v s))" by simp
  from 2(1) [OF d [symmetric] refl this] d show ?case by simp
qed

end
