(* ===== verification/AVL.thy ===== *)
theory AVL
  imports Prelude
begin

text \<open>
  The pointer code of \<open>src/include/avl.h\<close> and \<open>src/src/avl.cpp\<close>, statement by statement over an
  explicit heap of \<open>AVLNode\<close>s.  \<open>depth\<close> and \<open>cnt\<close> keep their 32-bit width.  A pointer to a child
  field (\<open>AVLNode **from\<close>) is a \<open>link\<close>.  Loops that follow pointers are partial functions: on a
  heap whose parent chain is cyclic they do not return.
\<close>

section \<open>Nodes\<close>

record avlnode =
  depth :: u32
  cnt :: u32
  left :: ptr
  right :: ptr
  parent :: ptr

type_synonym avl_heap = "ptr \<rightharpoonup> avlnode"

definition avl_init :: "avl_heap \<Rightarrow> ptr \<Rightarrow> avl_heap option" where
  "avl_init h node = modify h node
     (\<lambda>n. n\<lparr>depth := 1, cnt := 1, left := NULL, right := NULL, parent := NULL\<rparr>)"

definition avl_depth :: "avl_heap \<Rightarrow> ptr \<Rightarrow> u32 option" where
  "avl_depth h node = (if node \<noteq> NULL then map_option depth (deref h node) else Some 0)"

definition avl_cnt :: "avl_heap \<Rightarrow> ptr \<Rightarrow> u32 option" where
  "avl_cnt h node = (if node \<noteq> NULL then map_option cnt (deref h node) else Some 0)"

definition max_u32 :: "u32 \<Rightarrow> u32 \<Rightarrow> u32" where
  "max_u32 l r = (if l < r then r else l)"

definition avl_update :: "avl_heap \<Rightarrow> ptr \<Rightarrow> avl_heap option" where
  "avl_update h node = do {
     n \<leftarrow> deref h node;
     dl \<leftarrow> avl_depth h (left n);
     dr \<leftarrow> avl_depth h (right n);
     h \<leftarrow> modify h node (\<lambda>n. n\<lparr>depth := 1 + max_u32 dl dr\<rparr>);
     n \<leftarrow> deref h node;
     cl \<leftarrow> avl_cnt h (left n);
     cr \<leftarrow> avl_cnt h (right n);
     modify h node (\<lambda>n. n\<lparr>cnt := 1 + cl + cr\<rparr>)
   }"

section \<open>Rotations\<close>

text \<open>The guarded assignment \<open>if (p) p->parent = q;\<close> that rotations and deletion use.\<close>

definition set_parent :: "avl_heap \<Rightarrow> ptr \<Rightarrow> ptr \<Rightarrow> avl_heap option" where
  "set_parent h p q = (if p \<noteq> NULL then modify h p (\<lambda>v. v\<lparr>parent := q\<rparr>) else Some h)"

definition rot_left :: "avl_heap \<Rightarrow> ptr \<Rightarrow> (avl_heap \<times> ptr) option" where
  "rot_left h node = do {
     n \<leftarrow> deref h node;
     let new_node = right n;
     nn \<leftarrow> deref h new_node;
     h \<leftarrow> set_parent h (left nn) node;
     nn \<leftarrow> deref h new_node;
     h \<leftarrow> modify h node (\<lambda>v. v\<lparr>right := left nn\<rparr>);
     h \<leftarrow> modify h new_node (\<lambda>v. v\<lparr>left := node\<rparr>);
     n \<leftarrow> deref h node;
     h \<leftarrow> modify h new_node (\<lambda>v. v\<lparr>parent := parent n\<rparr>);
     h \<leftarrow> modify h node (\<lambda>v. v\<lparr>parent := new_node\<rparr>);
     h \<leftarrow> avl_update h node;
     h \<leftarrow> avl_update h new_node;
     Some (h, new_node)
   }"

definition rot_right :: "avl_heap \<Rightarrow> ptr \<Rightarrow> (avl_heap \<times> ptr) option" where
  "rot_right h node = do {
     n \<leftarrow> deref h node;
     let new_node = left n;
     nn \<leftarrow> deref h new_node;
     h \<leftarrow> set_parent h (right nn) node;
     nn \<leftarrow> deref h new_node;
     h \<leftarrow> modify h node (\<lambda>v. v\<lparr>left := right nn\<rparr>);
     h \<leftarrow> modify h new_node (\<lambda>v. v\<lparr>right := node\<rparr>);
     n \<leftarrow> deref h node;
     h \<leftarrow> modify h new_node (\<lambda>v. v\<lparr>parent := parent n\<rparr>);
     h \<leftarrow> modify h node (\<lambda>v. v\<lparr>parent := new_node\<rparr>);
     h \<leftarrow> avl_update h node;
     h \<leftarrow> avl_update h new_node;
     Some (h, new_node)
   }"

definition avl_fix_left :: "avl_heap \<Rightarrow> ptr \<Rightarrow> (avl_heap \<times> ptr) option" where
  "avl_fix_left h root = do {
     n \<leftarrow> deref h root;
     nl \<leftarrow> deref h (left n);
     dll \<leftarrow> avl_depth h (left nl);
     dlr \<leftarrow> avl_depth h (right nl);
     h \<leftarrow> (if dll < dlr then do {
              (h, b) \<leftarrow> rot_left h (left n);
              modify h root (\<lambda>v. v\<lparr>left := b\<rparr>) }
            else Some h);
     rot_right h root
   }"

definition avl_fix_right :: "avl_heap \<Rightarrow> ptr \<Rightarrow> (avl_heap \<times> ptr) option" where
  "avl_fix_right h root = do {
     n \<leftarrow> deref h root;
     nr \<leftarrow> deref h (right n);
     drr \<leftarrow> avl_depth h (right nr);
     drl \<leftarrow> avl_depth h (left nr);
     h \<leftarrow> (if drr < drl then do {
              (h, b) \<leftarrow> rot_right h (right n);
              modify h root (\<lambda>v. v\<lparr>right := b\<rparr>) }
            else Some h);
     rot_left h root
   }"

section \<open>Rebalancing up to the root\<close>

datatype link = Left_of ptr | Right_of ptr

fun set_link :: "avl_heap \<Rightarrow> link \<Rightarrow> ptr \<Rightarrow> avl_heap option" where
  "set_link h (Left_of p) x = modify h p (\<lambda>v. v\<lparr>left := x\<rparr>)"
| "set_link h (Right_of p) x = modify h p (\<lambda>v. v\<lparr>right := x\<rparr>)"

fun get_link :: "avl_heap \<Rightarrow> link \<Rightarrow> ptr option" where
  "get_link h (Left_of p) = map_option left (deref h p)"
| "get_link h (Right_of p) = map_option right (deref h p)"

definition parent_link :: "avl_heap \<Rightarrow> ptr \<Rightarrow> ptr \<Rightarrow> link option" where
  "parent_link h par node = do {
     pn \<leftarrow> deref h par;
     Some (if left pn = node then Left_of par else Right_of par)
   }"

text \<open>
  \<open>l\<close> and \<open>r\<close> are \<open>int32_t\<close> in the code; \<open>r + 1\<close> and \<open>l + 1\<close> are computed on integers here, which
  agrees with the code as long as no depth is \<open>INT32_MAX\<close>, where C++ leaves the sum undefined.
\<close>

definition avl_fix_node :: "avl_heap \<Rightarrow> ptr \<Rightarrow> int \<Rightarrow> int \<Rightarrow> (avl_heap \<times> ptr) option" where
  "avl_fix_node h node l r =
     (if l > r + 1 then avl_fix_left h node
      else if r > l + 1 then avl_fix_right h node
      else Some (h, node))"

partial_function (option) avl_fix :: "avl_heap \<Rightarrow> ptr \<Rightarrow> (avl_heap \<times> ptr) option" where
  "avl_fix h node = do {
     h \<leftarrow> avl_update h node;
     n \<leftarrow> deref h node;
     dl \<leftarrow> avl_depth h (left n);
     dr \<leftarrow> avl_depth h (right n);
     let l = sint dl;
     let r = sint dr;
     from \<leftarrow> (if parent n \<noteq> NULL then map_option Some (parent_link h (parent n) node) else Some None);
     (h, node) \<leftarrow> avl_fix_node h node l r;
     (case from of
        None \<Rightarrow> Some (h, node)
      | Some lk \<Rightarrow> do {
          h \<leftarrow> set_link h lk node;
          n \<leftarrow> deref h node;
          avl_fix h (parent n) })
   }"

declare avl_fix.simps [code]

section \<open>Deletion\<close>

partial_function (option) leftmost :: "avl_heap \<Rightarrow> ptr \<Rightarrow> ptr option" where
  "leftmost h victim = do {
     v \<leftarrow> deref h victim;
     if left v \<noteq> NULL then leftmost h (left v) else Some victim
   }"

declare leftmost.simps [code]

text \<open>
  The end of the \<open>else\<close> branch, after the victim was detached: \<open>*victim = *node\<close>, then the victim
  is linked to the node's children and parent.
\<close>

definition take_place :: "avl_heap \<Rightarrow> ptr \<Rightarrow> ptr \<Rightarrow> ptr \<Rightarrow> (avl_heap \<times> ptr) option" where
  "take_place h root node victim = do {
     n \<leftarrow> deref h node;
     h \<leftarrow> modify h victim (\<lambda>v. n);
     v \<leftarrow> deref h victim;
     h \<leftarrow> set_parent h (left v) victim;
     v \<leftarrow> deref h victim;
     h \<leftarrow> set_parent h (right v) victim;
     n \<leftarrow> deref h node;
     let par = parent n;
     if par \<noteq> NULL then do {
       lk \<leftarrow> parent_link h par node;
       h \<leftarrow> set_link h lk victim;
       Some (h, root) }
     else Some (h, victim)
   }"

partial_function (option) avl_del :: "avl_heap \<Rightarrow> ptr \<Rightarrow> (avl_heap \<times> ptr) option" where
  "avl_del h node = do {
     n \<leftarrow> deref h node;
     if right n = NULL then do {
       let par = parent n;
       h \<leftarrow> set_parent h (left n) par;
       n \<leftarrow> deref h node;
       if par \<noteq> NULL then do {
         lk \<leftarrow> parent_link h par node;
         h \<leftarrow> set_link h lk (left n);
         avl_fix h par }
       else Some (h, left n) }
     else do {
       victim \<leftarrow> leftmost h (right n);
       (h, root) \<leftarrow> avl_del h victim;
       take_place h root node victim }
   }"

declare avl_del.simps [code]

section \<open>Moving by an offset in rank\<close>

text \<open>
  \<open>pos\<close> and \<open>offset\<close> are \<open>int64_t\<close>.  The counters are \<open>uint32_t\<close>: \<open>avl_cnt(node->left) - 1\<close> and
  \<open>avl_cnt(node->left) + 1\<close> are computed in 32 bits and wrap before they are widened.
\<close>

definition widen :: "u32 \<Rightarrow> int" where
  "widen c = int (unat c)"

text \<open>
  One turn of the loop: \<open>Inl p\<close> when the function returns \<open>p\<close>, \<open>Inr (node, pos)\<close> when it goes on.
  \<open>pos\<close> and \<open>offset\<close> are integers here; a turn moves \<open>pos\<close> by less than \<open>2 ^ 32\<close>, so the 64 bits of the code
  do not overflow in the first \<open>2 ^ 30\<close> turns.
\<close>

definition avl_offset_step :: "avl_heap \<Rightarrow> ptr \<Rightarrow> int \<Rightarrow> int \<Rightarrow> (ptr + ptr \<times> int) option" where
  "avl_offset_step h node pos offset = (
     if offset = pos then Some (Inl node)
     else do {
       n \<leftarrow> deref h node;
       go_right \<leftarrow> (if pos < offset
          then map_option (\<lambda>c. pos + widen c \<ge> offset) (avl_cnt h (right n)) else Some False);
       if go_right then do {
         m \<leftarrow> deref h (right n);
         c \<leftarrow> avl_cnt h (left m);
         Some (Inr (right n, pos + widen (c - 1))) }
       else do {
         go_left \<leftarrow> (if pos > offset
            then map_option (\<lambda>c. pos - widen c \<le> offset) (avl_cnt h (left n)) else Some False);
         if go_left then do {
           m \<leftarrow> deref h (left n);
           c \<leftarrow> avl_cnt h (left m);
           Some (Inr (left n, pos - widen (c + 1))) }
         else if parent n = NULL then Some (Inl NULL)
         else do {
           pn \<leftarrow> deref h (parent n);
           if right pn = node then do {
             c \<leftarrow> avl_cnt h (left n);
             Some (Inr (parent n, pos - widen (c + 1))) }
           else do {
             c \<leftarrow> avl_cnt h (right n);
             Some (Inr (parent n, pos + widen (c + 1))) } } } })"

partial_function (option) avl_offset_loop :: "avl_heap \<Rightarrow> ptr \<Rightarrow> int \<Rightarrow> int \<Rightarrow> ptr option" where
  "avl_offset_loop h node pos offset = do {
     s \<leftarrow> avl_offset_step h node pos offset;
     case s of
       Inl p \<Rightarrow> Some p
     | Inr (node', pos') \<Rightarrow> avl_offset_loop h node' pos' offset }"

declare avl_offset_loop.simps [code]

definition avl_offset :: "avl_heap \<Rightarrow> ptr \<Rightarrow> int \<Rightarrow> ptr option" where
  "avl_offset h node offset = avl_offset_loop h node 0 offset"

end
