(* ===== verification/AVL_Refine.thy ===== *)
theory AVL_Refine
  imports AVL_Spec AVL
begin

text \<open>
  Refinement of the pointer code of \<open>AVL\<close> to the tree functions of \<open>AVL_Spec\<close>.  \<open>repr h par t\<close>
  says that the heap holds the tree \<open>t\<close> of addresses below the parent pointer \<open>par\<close>, with exact
  \<open>depth\<close> and \<open>cnt\<close> fields; \<open>ctx_repr h c p\<close> says that the path \<open>c\<close> from a subtree rooted at \<open>p\<close> to
  the root is linked correctly, whatever the \<open>depth\<close> and \<open>cnt\<close> fields along it (they are stale
  while \<open>avl_fix\<close> walks up).
\<close>

section \<open>Trees on the heap\<close>

fun root_ptr :: "ptr tree \<Rightarrow> ptr" where
  "root_ptr Leaf = NULL"
| "root_ptr (Node l a r) = a"

definition node_of :: "ptr \<Rightarrow> ptr tree \<Rightarrow> ptr tree \<Rightarrow> avlnode" where
  "node_of par l r =
     \<lparr>depth = of_nat (Suc (max (height l) (height r))), cnt = of_nat (Suc (size l + size r)),
      left = root_ptr l, right = root_ptr r, parent = par\<rparr>"

lemma node_of_sel [simp]:
  "left (node_of par l r) = root_ptr l" "right (node_of par l r) = root_ptr r"
  "parent (node_of par l r) = par"
  by (simp_all add: node_of_def)

fun repr :: "avl_heap \<Rightarrow> ptr \<Rightarrow> ptr tree \<Rightarrow> bool" where
  "repr h par Leaf = True"
| "repr h par (Node l a r) =
     (a \<noteq> NULL \<and> h a = Some (node_of par l r) \<and> repr h a l \<and> repr h a r)"

text \<open>The same, but the \<open>depth\<close> and \<open>cnt\<close> of the root are arbitrary.\<close>

fun loose :: "avl_heap \<Rightarrow> ptr \<Rightarrow> ptr tree \<Rightarrow> bool" where
  "loose h par Leaf = False"
| "loose h par (Node l a r) =
     (a \<noteq> NULL \<and>
      (\<exists>d c. h a = Some \<lparr>depth = d, cnt = c, left = root_ptr l, right = root_ptr r, parent = par\<rparr>) \<and>
      repr h a l \<and> repr h a r)"

fun path_parent :: "ptr path \<Rightarrow> ptr" where
  "path_parent [] = NULL"
| "path_parent (f # c) = frame_label f"

fun ctx_repr :: "avl_heap \<Rightarrow> ptr path \<Rightarrow> ptr \<Rightarrow> bool" where
  "ctx_repr h [] p = True"
| "ctx_repr h (InLeft a r # c) p =
     (a \<noteq> NULL \<and>
      (\<exists>d k. h a = Some \<lparr>depth = d, cnt = k, left = p, right = root_ptr r, parent = path_parent c\<rparr>) \<and>
      repr h a r \<and> ctx_repr h c a)"
| "ctx_repr h (InRight l a # c) p =
     (a \<noteq> NULL \<and>
      (\<exists>d k. h a = Some \<lparr>depth = d, cnt = k, left = root_ptr l, right = p, parent = path_parent c\<rparr>) \<and>
      repr h a l \<and> ctx_repr h c a)"

definition in_capacity :: "'a tree \<Rightarrow> bool" where
  "in_capacity t \<longleftrightarrow> size t < 2 ^ 31"

lemma root_ptr_in [simp]: "repr h par t \<Longrightarrow> root_ptr t \<noteq> NULL \<longleftrightarrow> t \<noteq> Leaf"
  by (cases t) auto

lemma root_ptr_eq_NULL [simp]: "repr h par t \<Longrightarrow> root_ptr t = NULL \<longleftrightarrow> t = Leaf"
  by (cases t) auto

lemma NULL_notin: "repr h par t \<Longrightarrow> NULL \<notin> set_tree t"
  by (induction t arbitrary: par) auto

lemma repr_cong: "(\<And>x. x \<in> set_tree t \<Longrightarrow> h' x = h x) \<Longrightarrow> repr h' par t = repr h par t"
  by (induction t arbitrary: par) auto

lemma repr_upd [simp]: "a \<notin> set_tree t \<Longrightarrow> repr (h(a := v)) par t = repr h par t"
  by (rule repr_cong) auto

lemma ctx_repr_cong:
  "(\<And>x. x \<in> path_set c \<Longrightarrow> h' x = h x) \<Longrightarrow> ctx_repr h' c p = ctx_repr h c p"
proof (induction c arbitrary: p)
  case (Cons f c)
  then show ?case by (cases f) (auto cong: repr_cong)
qed simp

lemma ctx_repr_upd [simp]: "a \<notin> path_set c \<Longrightarrow> ctx_repr (h(a := v)) c p = ctx_repr h c p"
  by (rule ctx_repr_cong) auto

lemma height_le_size: "height (t :: 'a tree) \<le> size t"
  by (induction t) auto

lemma of_nat_less_u32: "m < 2 ^ 32 \<Longrightarrow> n < 2 ^ 32 \<Longrightarrow> (of_nat m :: u32) < of_nat n \<longleftrightarrow> m < n"
  by (simp add: word_less_nat_alt unat_of_nat)

lemma max_u32_of_nat:
  "m < 2 ^ 32 \<Longrightarrow> n < 2 ^ 32 \<Longrightarrow> max_u32 (of_nat m) (of_nat n) = of_nat (max m n)"
  by (auto simp: max_u32_def of_nat_less_u32 max_def)

lemma avl_depth_repr [heap_simps]:
  "repr h par t \<Longrightarrow> avl_depth h (root_ptr t) = Some (of_nat (height t))"
  by (cases t) (auto simp: avl_depth_def node_of_def)

lemma avl_cnt_repr [heap_simps]:
  "repr h par t \<Longrightarrow> avl_cnt h (root_ptr t) = Some (of_nat (size t))"
  by (cases t) (auto simp: avl_cnt_def node_of_def)

lemma avl_update_repr:
  assumes "h a = Some \<lparr>depth = d, cnt = c, left = root_ptr l, right = root_ptr r, parent = par\<rparr>"
    and "a \<noteq> NULL" "repr h p l" "repr h q r" "a \<notin> set_tree l" "a \<notin> set_tree r"
    and "size l + size r < 2 ^ 31"
  shows "avl_update h a = Some (h(a \<mapsto> node_of par l r))"
proof -
  have "height l < 2 ^ 32" "height r < 2 ^ 32"
    using assms(7) height_le_size [of l] height_le_size [of r] by simp_all
  with assms show ?thesis
    by (simp add: avl_update_def avl_depth_repr avl_cnt_repr max_u32_of_nat node_of_def add.assoc)
qed

section \<open>Rotations\<close>

definition reparent :: "avl_heap \<Rightarrow> ptr tree \<Rightarrow> ptr \<Rightarrow> avl_heap" where
  "reparent h t q = (case t of Leaf \<Rightarrow> h | Node l x r \<Rightarrow> h(x \<mapsto> node_of q l r))"

lemma reparent_other [simp]: "x \<notin> set_tree t \<Longrightarrow> reparent h t q x = h x"
  by (cases t) (auto simp: reparent_def)

lemma repr_reparent: "repr h par t \<Longrightarrow> distinct (inorder t) \<Longrightarrow> repr (reparent h t q) q t"
  by (cases t) (auto simp: reparent_def)

lemma repr_reparent_other:
  "set_tree s \<inter> set_tree t = {} \<Longrightarrow> repr (reparent h t q) par s = repr h par s"
  by (rule repr_cong) (metis disjoint_iff reparent_other)

lemma set_parent_repr:
  "repr h par t \<Longrightarrow> set_parent h (root_ptr t) q = Some (reparent h t q)"
  by (cases t) (auto simp: reparent_def node_of_def set_parent_def)

lemma rot_left_repr:
  assumes a: "h a = Some \<lparr>depth = d, cnt = c, left = root_ptr A, right = b, parent = par\<rparr>"
    and b: "h b = Some \<lparr>depth = d', cnt = c', left = root_ptr B, right = root_ptr C, parent = par'\<rparr>"
    and r: "repr h a A" "repr h b B" "repr h b C" "a \<noteq> NULL" "b \<noteq> NULL"
    and dist: "distinct (inorder A @ a # inorder B @ b # inorder C)"
    and cap: "size A + size B + size C + 2 < 2 ^ 31"
  shows "rot_left h a =
    Some ((reparent h B a)(a \<mapsto> node_of b A B, b \<mapsto> node_of par (Node A a B) C), b)"
proof -
  let ?h = "reparent h B a"
  from dist have d: "a \<notin> set_tree A" "a \<notin> set_tree B" "a \<notin> set_tree C"
    "b \<notin> set_tree A" "b \<notin> set_tree B" "b \<notin> set_tree C" "a \<noteq> b" "b \<noteq> a"
    "set_tree A \<inter> set_tree B = {}" "set_tree C \<inter> set_tree B = {}" "distinct (inorder B)"
    by auto
  have rr: "repr ?h a A" "repr ?h a B" "repr ?h b C"
    using r d by (simp_all add: repr_reparent_other repr_reparent)
  let ?h1 = "?h(a \<mapsto> \<lparr>depth = d, cnt = c, left = root_ptr A, right = root_ptr B, parent = b\<rparr>,
    b \<mapsto> \<lparr>depth = d', cnt = c', left = a, right = root_ptr C, parent = par\<rparr>)"
  have "avl_update ?h1 a = Some (?h1(a \<mapsto> node_of b A B))"
    using r d rr cap by (intro avl_update_repr [of _ _ d c A B b a a]) simp_all
  moreover let ?h2 = "?h1(a \<mapsto> node_of b A B)"
  have "avl_update ?h2 b = Some (?h2(b \<mapsto> node_of par (Node A a B) C))"
    using r d rr cap by (intro avl_update_repr [of _ _ d' c' "Node A a B" C par b b]) simp_all
  moreover have "?h2(b \<mapsto> node_of par (Node A a B) C) =
      ?h(a \<mapsto> node_of b A B, b \<mapsto> node_of par (Node A a B) C)"
    by (rule ext) (use d in simp)
  moreover have "?h a = h a" "?h b = h b" using d by simp_all
  ultimately show ?thesis
    using a b r d by (simp add: rot_left_def set_parent_repr fun_upd_twist)
qed


lemma rot_right_repr:
  assumes b: "h b = Some \<lparr>depth = d, cnt = c, left = a, right = root_ptr C, parent = par\<rparr>"
    and a: "h a = Some \<lparr>depth = d', cnt = c', left = root_ptr A, right = root_ptr B, parent = par'\<rparr>"
    and r: "repr h a A" "repr h a B" "repr h b C" "a \<noteq> NULL" "b \<noteq> NULL"
    and dist: "distinct (inorder A @ a # inorder B @ b # inorder C)"
    and cap: "size A + size B + size C + 2 < 2 ^ 31"
  shows "rot_right h b =
    Some ((reparent h B b)(b \<mapsto> node_of a B C, a \<mapsto> node_of par A (Node B b C)), a)"
proof -
  let ?h = "reparent h B b"
  from dist have d: "a \<notin> set_tree A" "a \<notin> set_tree B" "a \<notin> set_tree C"
    "b \<notin> set_tree A" "b \<notin> set_tree B" "b \<notin> set_tree C" "a \<noteq> b" "b \<noteq> a"
    "set_tree A \<inter> set_tree B = {}" "set_tree C \<inter> set_tree B = {}" "distinct (inorder B)"
    by auto
  have rr: "repr ?h a A" "repr ?h b B" "repr ?h b C"
    using r d by (simp_all add: repr_reparent_other repr_reparent)
  let ?h1 = "?h(b \<mapsto> \<lparr>depth = d, cnt = c, left = root_ptr B, right = root_ptr C, parent = a\<rparr>,
    a \<mapsto> \<lparr>depth = d', cnt = c', left = root_ptr A, right = b, parent = par\<rparr>)"
  have "avl_update ?h1 b = Some (?h1(b \<mapsto> node_of a B C))"
    using r d rr cap by (intro avl_update_repr [of _ _ d c B C a b b]) simp_all
  moreover let ?h2 = "?h1(b \<mapsto> node_of a B C)"
  have "avl_update ?h2 a = Some (?h2(a \<mapsto> node_of par A (Node B b C)))"
    using r d rr cap by (intro avl_update_repr [of _ _ d' c' A "Node B b C" par a a]) simp_all
  moreover have "?h2(a \<mapsto> node_of par A (Node B b C)) =
      ?h(b \<mapsto> node_of a B C, a \<mapsto> node_of par A (Node B b C))"
    by (rule ext) (use d in simp)
  moreover have "?h a = h a" "?h b = h b" using d by simp_all
  ultimately show ?thesis
    using a b r d by (simp add: rot_right_def set_parent_repr fun_upd_twist)
qed


section \<open>Rebalancing one node\<close>

lemma repr_same_outside:
  "same_outside S h h' \<Longrightarrow> set_tree t \<inter> S = {} \<Longrightarrow> repr h' par t = repr h par t"
  by (rule repr_cong) (auto simp: same_outside_def)

lemma avl_fix_left_repr:
  assumes "loose h par (Node l a r)" "distinct (inorder (Node l a r))"
    and cap: "size l + size r + 1 < 2 ^ 31" and "height l > height r + 1"
  shows "\<exists>h'. avl_fix_left h a = Some (h', root_ptr (fix_left (Node l a r))) \<and>
    repr h' par (fix_left (Node l a r)) \<and> same_outside (set_tree (Node l a r)) h h'"
proof -
  from assms(4) obtain A x B where l: "l = Node A x B" by (cases l) auto
  have caps: "height A < 2 ^ 32" "height B < 2 ^ 32"
    using cap l height_le_size [of A] height_le_size [of B] by simp_all
  from assms l obtain d c where
    a: "h a = Some \<lparr>depth = d, cnt = c, left = x, right = root_ptr r, parent = par\<rparr>" "a \<noteq> NULL"
    and x: "h x = Some (node_of a A B)" "x \<noteq> NULL" "repr h x A" "repr h x B" "repr h a r"
    by auto
  have d: "distinct (inorder A @ x # inorder B @ a # inorder r)" using assms(2) l by simp
  show ?thesis
  proof (cases "height A < height B")
    case False
    have "rot_right h a = Some ((reparent h B a)(a \<mapsto> node_of x B r,
        x \<mapsto> node_of par A (Node B a r)), x)"
      using x a d cap l by (intro rot_right_repr [where d = d and c = c]) (auto simp: node_of_def)
    moreover have "set_tree A \<inter> set_tree B = {}" "set_tree r \<inter> set_tree B = {}" using d by auto
    ultimately show ?thesis
      using False x a d l caps
      by (auto simp: avl_fix_left_def node_of_def avl_depth_repr of_nat_less_u32 same_outside_def
          repr_reparent repr_reparent_other)
  next
    case True
    then obtain B1 y B2 where B: "B = Node B1 y B2" by (cases B) auto
    let ?h = "(reparent h B1 x)(x \<mapsto> node_of y A B1, y \<mapsto> node_of a (Node A x B1) B2)"
    let ?h' = "?h(a \<mapsto> \<lparr>depth = d, cnt = c, left = y, right = root_ptr r, parent = par\<rparr>)"
    have 1: "rot_left h x = Some (?h, y)"
      using x d cap l B by (intro rot_left_repr) (auto simp: node_of_def)
    have disj: "set_tree A \<inter> set_tree B1 = {}" "set_tree B2 \<inter> set_tree B1 = {}"
      "set_tree r \<inter> set_tree B1 = {}" "set_tree A \<inter> set_tree B2 = {}"
      "set_tree B1 \<inter> set_tree B2 = {}" "set_tree r \<inter> set_tree B2 = {}" using d B by auto
    have y: "repr ?h' x A" "repr ?h' x B1" "repr ?h' y B2" "repr ?h' a r"
      using x d B disj by (auto simp: repr_reparent repr_reparent_other)
    have 2: "rot_right ?h' a = Some ((reparent ?h' B2 a)(a \<mapsto> node_of y B2 r,
        y \<mapsto> node_of par (Node A x B1) (Node B2 a r)), y)"
      using x a d cap l B y by (intro rot_right_repr [where d = d and c = c]) (auto simp: node_of_def)
    have "avl_depth h (root_ptr A) = Some (of_nat (height A))"
      "avl_depth h (root_ptr B) = Some (of_nat (height B))"
      "(of_nat (height A) :: u32) < of_nat (height B)"
      using x True caps by (auto simp: avl_depth_repr of_nat_less_u32)
    moreover have "a \<noteq> x" "a \<noteq> y" "a \<notin> set_tree B1" using d B by auto
    ultimately have "avl_fix_left h a = Some ((reparent ?h' B2 a)(a \<mapsto> node_of y B2 r,
        y \<mapsto> node_of par (Node A x B1) (Node B2 a r)), y)"
      unfolding avl_fix_left_def using 1 2 x(1,2) a by simp
    then show ?thesis using True x a d l B y disj
      by (auto simp: same_outside_def repr_reparent repr_reparent_other)
  qed
qed


lemma avl_fix_right_repr:
  assumes "loose h par (Node l a r)" "distinct (inorder (Node l a r))"
    and cap: "size l + size r + 1 < 2 ^ 31" and "height r > height l + 1"
  shows "\<exists>h'. avl_fix_right h a = Some (h', root_ptr (fix_right (Node l a r))) \<and>
    repr h' par (fix_right (Node l a r)) \<and> same_outside (set_tree (Node l a r)) h h'"
proof -
  from assms(4) obtain B x C where r: "r = Node B x C" by (cases r) auto
  have caps: "height B < 2 ^ 32" "height C < 2 ^ 32"
    using cap r height_le_size [of B] height_le_size [of C] by simp_all
  from assms r obtain d c where
    a: "h a = Some \<lparr>depth = d, cnt = c, left = root_ptr l, right = x, parent = par\<rparr>" "a \<noteq> NULL"
    and x: "h x = Some (node_of a B C)" "x \<noteq> NULL" "repr h x B" "repr h x C" "repr h a l"
    by auto
  have d: "distinct (inorder l @ a # inorder B @ x # inorder C)" using assms(2) r by simp
  show ?thesis
  proof (cases "height C < height B")
    case False
    have "rot_left h a = Some ((reparent h B a)(a \<mapsto> node_of x l B,
        x \<mapsto> node_of par (Node l a B) C), x)"
      using x a d cap r by (intro rot_left_repr [where d = d and c = c]) (auto simp: node_of_def)
    moreover have "set_tree l \<inter> set_tree B = {}" "set_tree C \<inter> set_tree B = {}" using d by auto
    ultimately show ?thesis
      using False x a d r caps
      by (auto simp: avl_fix_right_def node_of_def avl_depth_repr of_nat_less_u32 same_outside_def
          repr_reparent repr_reparent_other)
  next
    case True
    then obtain B1 y B2 where B: "B = Node B1 y B2" by (cases B) auto
    let ?h = "(reparent h B2 x)(x \<mapsto> node_of y B2 C, y \<mapsto> node_of a B1 (Node B2 x C))"
    let ?h' = "?h(a \<mapsto> \<lparr>depth = d, cnt = c, left = root_ptr l, right = y, parent = par\<rparr>)"
    have 1: "rot_right h x = Some (?h, y)"
      using x d cap r B by (intro rot_right_repr) (auto simp: node_of_def)
    have disj: "set_tree l \<inter> set_tree B1 = {}" "set_tree B2 \<inter> set_tree B1 = {}"
      "set_tree C \<inter> set_tree B1 = {}" "set_tree l \<inter> set_tree B2 = {}"
      "set_tree B1 \<inter> set_tree B2 = {}" "set_tree C \<inter> set_tree B2 = {}" using d B by auto
    have y: "repr ?h' a l" "repr ?h' y B1" "repr ?h' x B2" "repr ?h' x C"
      using x d B disj by (auto simp: repr_reparent repr_reparent_other)
    have 2: "rot_left ?h' a = Some ((reparent ?h' B1 a)(a \<mapsto> node_of y l B1,
        y \<mapsto> node_of par (Node l a B1) (Node B2 x C)), y)"
      using x a d cap r B y by (intro rot_left_repr [where d = d and c = c]) (auto simp: node_of_def)
    have "avl_depth h (root_ptr C) = Some (of_nat (height C))"
      "avl_depth h (root_ptr B) = Some (of_nat (height B))"
      "(of_nat (height C) :: u32) < of_nat (height B)"
      using x True caps by (auto simp: avl_depth_repr of_nat_less_u32)
    moreover have "a \<noteq> x" "a \<noteq> y" "a \<notin> set_tree B2" using d B by auto
    ultimately have "avl_fix_right h a = Some ((reparent ?h' B1 a)(a \<mapsto> node_of y l B1,
        y \<mapsto> node_of par (Node l a B1) (Node B2 x C)), y)"
      unfolding avl_fix_right_def using 1 2 x(1,2) a by simp
    then show ?thesis using True x a d r B y disj
      by (auto simp: same_outside_def repr_reparent repr_reparent_other)
  qed
qed

lemma repr_loose: "t \<noteq> Leaf \<Longrightarrow> repr h par t \<Longrightarrow> loose h par t"
  by (cases t) (auto simp: node_of_def)

lemma avl_fix_node_repr:
  assumes "repr h par t" "t = Node l a r" "distinct (inorder t)" "size t < 2 ^ 31"
  shows "\<exists>h'. avl_fix_node h a (int (height l)) (int (height r)) = Some (h', root_ptr (balance t)) \<and>
    repr h' par (balance t) \<and> same_outside (set_tree t) h h'"
proof -
  have "loose h par (Node l a r)" using repr_loose [of t h par] assms(1,2) by (metis tree.distinct(1))
  then show ?thesis
    using avl_fix_left_repr [of h par l a r] avl_fix_right_repr [of h par l a r] assms
    by (auto simp: avl_fix_node_def simp del: fix_left.simps fix_right.simps)
qed


section \<open>Rebalancing up to the root\<close>

lemma sint_of_nat_u32: "n < 2 ^ 31 \<Longrightarrow> sint (of_nat n :: u32) = int n"
  by (subst sint_eq_unat) (simp_all add: unat_of_nat)

lemma avl_update_loose:
  assumes "loose h par t" "t = Node l a r" "distinct (inorder t)" "size t < 2 ^ 31"
  shows "\<exists>h'. avl_update h a = Some h' \<and> repr h' par t \<and> same_outside {a} h h'"
proof -
  from assms obtain d c where
    "h a = Some \<lparr>depth = d, cnt = c, left = root_ptr l, right = root_ptr r, parent = par\<rparr>"
    "a \<noteq> NULL" "repr h a l" "repr h a r" "a \<notin> set_tree l" "a \<notin> set_tree r" by auto
  then show ?thesis using assms(2,4) avl_update_repr [of h a d c l r par a a]
    by (auto simp: same_outside_def)
qed

lemma root_ptr_mem: "t \<noteq> Leaf \<Longrightarrow> root_ptr t \<in> set_tree t"
  by (cases t) auto

fun link_of :: "ptr frame \<Rightarrow> link" where
  "link_of (InLeft a r) = Left_of a"
| "link_of (InRight l a) = Right_of a"

lemma parent_link_frame:
  assumes "ctx_repr h (f # c) p" "p \<noteq> NULL" "p \<notin> frame_set f"
  shows "parent_link h (frame_label f) p = Some (link_of f)"
proof (cases f)
  case (InLeft a r)
  with assms show ?thesis by (auto simp: parent_link_def)
next
  case (InRight l a)
  with assms have "root_ptr l \<noteq> p" by (cases l) auto
  with assms InRight show ?thesis by (auto simp: parent_link_def)
qed

lemma set_link_frame:
  assumes "ctx_repr h (f # c) p" "repr h (frame_label f) t"
    and "frame_label f \<notin> set_tree t" "frame_label f \<notin> path_set c"
    and "distinct (inorder (fill f t))"
  shows "\<exists>h'. set_link h (link_of f) (root_ptr t) = Some h' \<and>
    loose h' (path_parent c) (fill f t) \<and> ctx_repr h' c (frame_label f) \<and>
    same_outside {frame_label f} h h'"
  using assms by (cases f) (auto simp: same_outside_def)

lemma loose_parent: "loose h par t \<Longrightarrow> \<exists>n. h (root_ptr t) = Some n \<and> parent n = par"
  by (cases t) auto

lemma avl_fix_step:
  assumes "loose h (path_parent c) t" "ctx_repr h c (root_ptr t)"
    and dist: "distinct (inorder (plug c t))" and cap: "size t < 2 ^ 31"
  shows "\<exists>h'. same_outside (set_tree t) h h' \<and> repr h' (path_parent c) (balance t) \<and>
    ctx_repr h' c (root_ptr t) \<and>
    avl_fix h (root_ptr t) =
      (if c = [] then Some (h', root_ptr (balance t))
       else do {
         h'' \<leftarrow> set_link h' (link_of (hd c)) (root_ptr (balance t));
         n \<leftarrow> deref h'' (root_ptr (balance t));
         avl_fix h'' (parent n) })"
proof -
  from assms(1) obtain l a r where t: "t = Node l a r" by (cases t) auto
  have dt: "distinct (inorder t)" "set_tree t \<inter> path_set c = {}"
    using dist by (auto simp: inorder_plug simp flip: set_inorder set_before_after)
  from avl_update_loose [OF assms(1) t dt(1) cap] obtain h1 where
    h1: "avl_update h a = Some h1" "repr h1 (path_parent c) t" "same_outside {a} h h1" by blast
  from avl_fix_node_repr [OF h1(2) t dt(1) cap] obtain h2 where
    h2: "avl_fix_node h1 a (int (height l)) (int (height r)) = Some (h2, root_ptr (balance t))"
      "repr h2 (path_parent c) (balance t)" "same_outside (set_tree t) h1 h2" by blast
  have c1: "ctx_repr h1 c a" using assms(2) h1(3) dt t
    by (subst ctx_repr_cong [of c h1 h]) (auto simp: same_outside_def)
  have c2: "ctx_repr h2 c a" using c1 h2(3) dt
    by (subst ctx_repr_cong [of c h2 h1]) (auto simp: same_outside_def)
  have link: "c \<noteq> [] \<Longrightarrow> path_parent c \<noteq> NULL \<and>
      parent_link h1 (path_parent c) a = Some (link_of (hd c))"
  proof (cases c)
    case (Cons f c')
    moreover have "frame_label f \<noteq> NULL" using c1 Cons by (cases f) auto
    moreover have "a \<noteq> NULL" "a \<notin> frame_set f" using assms(1) dt t Cons by auto
    ultimately show ?thesis using c1 parent_link_frame [of h1 f c' a] by simp
  qed simp
  have "size l < 2 ^ 31" "size r < 2 ^ 31" using cap t by simp_all
  then have "height l < 2 ^ 31" "height r < 2 ^ 31"
    using height_le_size [of l] height_le_size [of r] by simp_all
  moreover have "h1 a = Some (node_of (path_parent c) l r)" "a \<noteq> NULL" "repr h1 a l" "repr h1 a r"
    using h1(2) t by auto
  ultimately have "avl_fix h a =
      (if c = [] then Some (h2, root_ptr (balance t))
       else do {
         h'' \<leftarrow> set_link h2 (link_of (hd c)) (root_ptr (balance t));
         n \<leftarrow> deref h'' (root_ptr (balance t));
         avl_fix h'' (parent n) })"
    using h1(1) h2(1) link
    by (subst avl_fix.simps, cases "c = []") (simp_all add: avl_depth_repr sint_of_nat_u32)
  moreover have "same_outside (set_tree t) h h2"
    using same_outside_trans [OF h1(3) h2(3), of "set_tree t"] t by auto
  ultimately show ?thesis using h2(2) c2 t by auto
qed


lemma avl_fix_repr:
  assumes "loose h (path_parent c) t" "ctx_repr h c (root_ptr t)"
    and "distinct (inorder (plug c t))" "size (plug c t) < 2 ^ 31"
  shows "\<exists>h'. avl_fix h (root_ptr t) = Some (h', root_ptr (fixup c t)) \<and>
    repr h' NULL (fixup c t) \<and> same_outside (set_tree (plug c t)) h h'"
  using assms
proof (induction c arbitrary: h t)
  case Nil
  from avl_fix_step [OF Nil.prems(1-3)] Nil.prems(4) show ?case by (auto simp: same_outside_def)
next
  case (Cons f c)
  have cap: "size t < 2 ^ 31" using Cons.prems(4) by (simp only: size_plug)
  from avl_fix_step [OF Cons.prems(1-3) cap] obtain h1 where
    h1: "same_outside (set_tree t) h h1" "repr h1 (frame_label f) (balance t)"
      "ctx_repr h1 (f # c) (root_ptr t)"
      "avl_fix h (root_ptr t) = do {
         h'' \<leftarrow> set_link h1 (link_of f) (root_ptr (balance t));
         n \<leftarrow> deref h'' (root_ptr (balance t));
         avl_fix h'' (parent n) }" by auto
  have d: "distinct (before (f # c) @ inorder t @ after (f # c))"
    using Cons.prems(3) by (simp only: inorder_plug)
  have df: "frame_label f \<notin> set_tree t \<and> frame_label f \<notin> path_set c \<and>
    distinct (inorder (fill f (balance t)))"
    using d by (cases f) (auto simp flip: set_before_after set_inorder)
  then obtain h2 where h2: "set_link h1 (link_of f) (root_ptr (balance t)) = Some h2"
    "loose h2 (path_parent c) (fill f (balance t))" "ctx_repr h2 c (frame_label f)"
    "same_outside {frame_label f} h1 h2"
    using set_link_frame [OF h1(3,2)] by auto
  have "t \<noteq> Leaf" using Cons.prems(1) by auto
  then have "balance t \<noteq> Leaf" by (metis size_balance eq_size_0)
  then obtain n where "h1 (root_ptr (balance t)) = Some n" "parent n = frame_label f"
      "root_ptr (balance t) \<noteq> NULL" "root_ptr (balance t) \<noteq> frame_label f"
    using h1(2) loose_parent repr_loose df root_ptr_mem root_ptr_in by (metis set_balance)
  then have "avl_fix h (root_ptr t) = avl_fix h2 (frame_label f)"
    using h1(4) h2(1,4) by (simp add: same_outside_def)
  moreover have "root_ptr (fill f (balance t)) = frame_label f" by (cases f) simp_all
  moreover have "distinct (inorder (plug c (fill f (balance t))))"
    using d by (cases f) (simp_all add: inorder_plug)
  moreover have "size (plug c (fill f (balance t))) = size (plug (f # c) t)"
    by (cases f) (simp_all add: size_plug)
  ultimately obtain h3 where h3:
    "avl_fix h (root_ptr t) = Some (h3, root_ptr (fixup c (fill f (balance t))))"
    "repr h3 NULL (fixup c (fill f (balance t)))"
    "same_outside (set_tree (plug c (fill f (balance t)))) h2 h3"
    using Cons.IH [OF h2(2)] h2(3) Cons.prems(4) by auto
  have "set_tree (plug c (fill f (balance t))) = set_tree (plug (f # c) t)"
    by (cases f) (simp_all add: set_tree_plug)
  then have "same_outside (set_tree (plug (f # c) t)) h h3"
    using h1(1) h2(4) h3(3) by (cases f) (auto simp: same_outside_def set_tree_plug)
  with h3 show ?case by simp
qed


section \<open>Deletion\<close>

text \<open>A path with exact fields around the subtree \<open>t\<close>.\<close>

fun ctx_exact :: "avl_heap \<Rightarrow> ptr path \<Rightarrow> ptr tree \<Rightarrow> bool" where
  "ctx_exact h [] t = True"
| "ctx_exact h (InLeft a r # c) t =
     (a \<noteq> NULL \<and> h a = Some (node_of (path_parent c) t r) \<and> repr h a r \<and>
      ctx_exact h c (Node t a r))"
| "ctx_exact h (InRight l a # c) t =
     (a \<noteq> NULL \<and> h a = Some (node_of (path_parent c) l t) \<and> repr h a l \<and>
      ctx_exact h c (Node l a t))"

lemma repr_plug: "repr h NULL (plug c t) \<longleftrightarrow> ctx_exact h c t \<and> repr h (path_parent c) t"
proof (induction c arbitrary: t)
  case (Cons f c)
  then show ?case by (cases f) auto
qed simp

lemma ctx_exact_repr: "ctx_exact h c t \<Longrightarrow> ctx_repr h c (root_ptr t)"
proof (induction c arbitrary: t)
  case (Cons f c)
  then show ?case by (cases f) (fastforce simp: node_of_def)+
qed simp

lemma ctx_exact_same:
  "height t = height t' \<Longrightarrow> size t = size t' \<Longrightarrow> root_ptr t = root_ptr t' \<Longrightarrow>
    ctx_exact h c t = ctx_exact h c t'"
proof (induction c arbitrary: t t')
  case (Cons f c)
  note [simp] = Cons.prems
  show ?case
  proof (cases f)
    case (InLeft a r)
    with Cons.IH [of "Node t a r" "Node t' a r"] show ?thesis by (simp add: node_of_def)
  next
    case (InRight l a)
    with Cons.IH [of "Node l a t" "Node l a t'"] show ?thesis by (simp add: node_of_def)
  qed
qed simp

lemma ctx_exact_cong:
  "(\<And>x. x \<in> path_set c \<Longrightarrow> h' x = h x) \<Longrightarrow> ctx_exact h' c t = ctx_exact h c t"
proof (induction c arbitrary: t)
  case (Cons f c)
  then show ?case by (cases f) (auto cong: repr_cong)
qed simp

lemma set_link_rename:
  assumes "ctx_exact h (f # c) (Node l a r)" "frame_label f \<notin> path_set c"
    and "distinct (inorder (fill f (Node l a r)))" "v \<noteq> NULL" "v \<noteq> frame_label f"
  shows "\<exists>h'. set_link h (link_of f) v = Some h' \<and> ctx_exact h' (f # c) (Node l v r) \<and>
    same_outside {frame_label f} h h'"
proof (cases f)
  case (InLeft b s)
  have "ctx_exact (h(b \<mapsto> node_of (path_parent c) (Node l v r) s)) c (Node (Node l v r) b s)"
    using assms InLeft ctx_exact_same [of "Node (Node l a r) b s" "Node (Node l v r) b s" h c]
    by (subst ctx_exact_cong [of c _ h]) auto
  with InLeft assms show ?thesis by (auto simp: node_of_def same_outside_def)
next
  case (InRight s b)
  have "ctx_exact (h(b \<mapsto> node_of (path_parent c) s (Node l v r))) c (Node s b (Node l v r))"
    using assms InRight ctx_exact_same [of "Node s b (Node l a r)" "Node s b (Node l v r)" h c]
    by (subst ctx_exact_cong [of c _ h]) auto
  with InRight assms show ?thesis by (auto simp: node_of_def same_outside_def)
qed


lemma map_tree_id: "a \<notin> set_tree t \<Longrightarrow> map_tree (\<lambda>x. if x = a then v else x) t = t"
  by (induction t) auto

lemma map_tree_plug:
  assumes "distinct (inorder (plug c (Node l a r)))"
  shows "map_tree (\<lambda>x. if x = a then v else x) (plug c (Node l a r)) = plug c (Node l v r)"
proof -
  have "a \<notin> path_set c \<Longrightarrow> map_tree (\<lambda>x. if x = a then v else x) (plug c t) =
      plug c (map_tree (\<lambda>x. if x = a then v else x) t)" for t
  proof (induction c arbitrary: t)
    case (Cons f c)
    then show ?case by (cases f) (auto simp: map_tree_id)
  qed simp
  moreover have "a \<notin> path_set c" "a \<notin> set_tree l" "a \<notin> set_tree r"
    using assms by (auto simp: inorder_plug simp flip: set_before_after set_inorder)
  ultimately show ?thesis by (simp add: map_tree_id)
qed

lemma root_ptr_plug: "c \<noteq> [] \<Longrightarrow> root_ptr (plug c t) = frame_label (last c)"
proof (induction c arbitrary: t)
  case (Cons f c)
  then show ?case by (cases "c = []"; cases f) auto
qed simp

lemma take_place_repr:
  assumes "repr h NULL t" "distinct (inorder t)" "a \<in> set_tree t"
    and v: "v \<notin> set_tree t" "v \<noteq> NULL" "h v \<noteq> None"
  defines "f \<equiv> \<lambda>x. if x = a then v else x"
  shows "\<exists>h'. take_place h (root_ptr t) a v = Some (h', root_ptr (map_tree f t)) \<and>
    repr h' NULL (map_tree f t) \<and> same_outside (insert v (set_tree t)) h h' \<and> h' a \<noteq> None"
proof -
  obtain c l r where t: "t = plug c (Node l a r)" using tree_split [OF assms(3)] by auto
  have ft: "map_tree f t = plug c (Node l v r)"
    using assms(2) unfolding f_def t by (rule map_tree_plug)
  from assms(1) t have h: "ctx_exact h c (Node l a r)" "h a = Some (node_of (path_parent c) l r)"
    "a \<noteq> NULL" "repr h a l" "repr h a r" by (auto simp: repr_plug)
  have d: "distinct (before c @ (inorder l @ a # inorder r) @ after c)"
    using assms(2) by (simp add: t inorder_plug)
  have d1: "a \<notin> set_tree l" "a \<notin> set_tree r" "set_tree l \<inter> set_tree r = {}"
    "set_tree r \<inter> set_tree l = {}" "distinct (inorder l)" "distinct (inorder r)"
    "a \<notin> path_set c" "path_set c \<inter> set_tree l = {}" "path_set c \<inter> set_tree r = {}"
    using d by (auto simp flip: set_before_after set_inorder)
  have v1: "v \<notin> set_tree l" "v \<notin> set_tree r" "v \<noteq> a" "v \<notin> path_set c"
    using v(1) by (auto simp: t set_tree_plug)
  let ?h1 = "h(v \<mapsto> node_of (path_parent c) l r)"
  let ?h2 = "reparent ?h1 l v"
  let ?h3 = "reparent ?h2 r v"
  have r1: "repr ?h1 a l" "repr ?h1 a r" using h v1 by simp_all
  then have r2: "repr ?h2 v l" "repr ?h2 a r"
    using d1 by (simp_all add: repr_reparent repr_reparent_other)
  then have r3: "repr ?h3 v l" "repr ?h3 v r"
    using d1 by (simp_all add: repr_reparent repr_reparent_other)
  have "x \<notin> set_tree l \<and> x \<notin> set_tree r \<and> x \<noteq> v" if "x \<in> path_set c" for x
    using that d1(8,9) v1(4) by auto
  then have c3: "ctx_exact ?h3 c (Node l a r)"
    using h(1) by (subst ctx_exact_cong [of c _ h]) auto
  have s3: "same_outside (insert v (set_tree l \<union> set_tree r)) h ?h3"
    by (auto simp: same_outside_def)
  have start: "take_place h (root_ptr t) a v =
     (if path_parent c \<noteq> NULL then do {
        lk \<leftarrow> parent_link ?h3 (path_parent c) a;
        h \<leftarrow> set_link ?h3 lk v;
        Some (h, root_ptr t) }
      else Some (?h3, v))"
    using h v v1 d1 r1 r2 by (auto simp: take_place_def set_parent_repr Let_def)
  show ?thesis
  proof (cases c)
    case Nil
    then show ?thesis unfolding ft using start r3 s3 v v1 d1 h(2)
      by (auto simp: t same_outside_def)
  next
    case (Cons b c')
    have db: "frame_label b \<notin> path_set c'" "distinct (inorder (fill b (Node l a r)))"
      "frame_label b \<notin> set_tree l" "frame_label b \<notin> set_tree r" "frame_label b \<noteq> a"
      "frame_label b \<in> path_set c" "a \<notin> frame_set b"
      using d Cons by (cases b; auto simp flip: set_before_after set_inorder)+
    have "frame_label b \<noteq> NULL" using h(1) Cons by (cases b) auto
    moreover have "parent_link ?h3 (frame_label b) a = Some (link_of b)"
      using ctx_exact_repr [OF c3] Cons db h(3) by (intro parent_link_frame) simp_all
    moreover obtain h4 where h4: "set_link ?h3 (link_of b) v = Some h4"
      "ctx_exact h4 (b # c') (Node l v r)" "same_outside {frame_label b} ?h3 h4"
      using set_link_rename [of ?h3 b c' l a r v] c3 Cons db v v1 by auto
    ultimately have "take_place h (root_ptr t) a v = Some (h4, root_ptr t)"
      using start Cons by simp
    moreover have "v \<noteq> frame_label b" using db(6) v1(4) by auto
    then have "h4 v = ?h3 v" "h4 a = ?h3 a" using db(5) h4(3) by (auto simp: same_outside_def)
    moreover have "repr h4 v l" "repr h4 v r"
      using r3 db(3,4) repr_same_outside [OF h4(3)] by simp_all
    moreover have "root_ptr t = root_ptr (plug c (Node l v r))"
      using Cons by (simp add: t root_ptr_plug del: plug.simps)
    moreover have "same_outside (insert v (set_tree t)) h h4"
      using db(6) by (intro same_outside_trans [OF s3 h4(3)]) (auto simp: t set_tree_plug)
    ultimately show ?thesis unfolding ft using h4(2) v v1 d1 h(2) Cons
      by (auto simp: t repr_plug simp del: plug.simps)
  qed
qed


lemma leftmost_repr:
  "repr h p (Node l a r) \<Longrightarrow> leftmost_path c l a r = (d, v, s) \<Longrightarrow> leftmost h a = Some v"
proof (induction c l a r arbitrary: p rule: leftmost_path.induct)
  case (1 c a r)
  then show ?case by (subst leftmost.simps) auto
next
  case (2 c l b m a r)
  then have "leftmost h b = Some v" by auto
  with 2(2) show ?case by (subst leftmost.simps) auto
qed

lemma avl_del_unlink:
  assumes "repr h NULL (plug c (Node l a Leaf))" "distinct (inorder (plug c (Node l a Leaf)))"
    and "size (plug c (Node l a Leaf)) < 2 ^ 31"
  shows "\<exists>h'. avl_del h a = Some (h', root_ptr (fixup_parent c l)) \<and>
    repr h' NULL (fixup_parent c l) \<and> same_outside (set_tree (plug c l)) h h'"
proof -
  from assms(1) have h: "ctx_exact h c (Node l a Leaf)" "a \<noteq> NULL" "repr h a l"
    "h a = Some (node_of (path_parent c) l Leaf)" by (auto simp: repr_plug)
  have d: "distinct (before c @ inorder l @ [a] @ after c)"
    using assms(2) by (simp add: inorder_plug)
  have d1: "a \<notin> set_tree l" "a \<notin> path_set c" "path_set c \<inter> set_tree l = {}"
    "distinct (inorder l)"
    using d by (auto simp flip: set_before_after set_inorder)
  let ?h1 = "reparent h l (path_parent c)"
  have r1: "repr ?h1 (path_parent c) l" "?h1 a = h a" "same_outside (set_tree l) h ?h1"
    using h d1 by (auto simp: repr_reparent same_outside_def)
  have "ctx_repr h c a" using ctx_exact_repr [OF h(1)] by simp
  then have c1: "ctx_repr ?h1 c a"
    using d1(3) by (subst ctx_repr_cong [of c _ h]) (auto simp: disjoint_iff)
  have start: "avl_del h a =
     (if path_parent c \<noteq> NULL then do {
         lk \<leftarrow> parent_link ?h1 (path_parent c) a;
         h \<leftarrow> set_link ?h1 lk (root_ptr l);
         avl_fix h (path_parent c) }
       else Some (?h1, root_ptr l))"
    using h r1(2) by (subst avl_del.simps) (simp add: set_parent_repr Let_def)
  show ?thesis
  proof (cases c)
    case Nil
    then show ?thesis using start r1 by simp
  next
    case (Cons f c')
    have df: "frame_label f \<notin> set_tree l" "frame_label f \<notin> path_set c'"
      "distinct (inorder (fill f l))" "a \<notin> frame_set f" "frame_label f \<in> path_set c"
      "distinct (inorder (plug c' (fill f l)))"
      using d Cons by (cases f; auto simp: inorder_plug simp flip: set_before_after set_inorder)+
    have "frame_label f \<noteq> NULL" using h(1) Cons by (cases f) auto
    moreover have "parent_link ?h1 (frame_label f) a = Some (link_of f)"
      using c1 Cons h(2) df(4) by (intro parent_link_frame) simp_all
    moreover obtain h2 where h2: "set_link ?h1 (link_of f) (root_ptr l) = Some h2"
      "loose h2 (path_parent c') (fill f l)" "ctx_repr h2 c' (frame_label f)"
      "same_outside {frame_label f} ?h1 h2"
      using set_link_frame [of ?h1 f c' a l] c1 r1(1) df(1,2,3) Cons by auto
    moreover have root: "root_ptr (fill f l) = frame_label f" by (cases f) simp_all
    moreover have "size (plug c' (fill f l)) < 2 ^ 31"
      using assms(3) Cons by (cases f) (simp_all add: size_plug)
    ultimately obtain h3 where h3: "avl_del h a = Some (h3, root_ptr (fixup c' (fill f l)))"
      "repr h3 NULL (fixup c' (fill f l))" "same_outside (set_tree (plug c' (fill f l))) h2 h3"
      using avl_fix_repr [OF h2(2)] df(6) start Cons by auto
    have "same_outside (set_tree (plug c l)) h h2"
      using df(5) by (intro same_outside_trans [OF r1(3) h2(4)]) (auto simp: set_tree_plug)
    with h3 Cons show ?thesis by (auto simp: same_outside_def)
  qed
qed

text \<open>
  \<open>avl_del\<close> on the heap computes \<open>remove\<close>: it returns the new root, leaves an exact tree, touches
  only nodes of this tree, and the removed node stays allocated.
\<close>

lemma avl_del_repr:
  assumes "repr h NULL (plug c (Node l a r))" "distinct (inorder (plug c (Node l a r)))"
    and "size (plug c (Node l a r)) < 2 ^ 31"
  shows "\<exists>h'. avl_del h a = Some (h', root_ptr (remove c l a r)) \<and>
    repr h' NULL (remove c l a r) \<and> same_outside (set_tree (plug c (Node l a r))) h h' \<and> h' a \<noteq> None"
  using assms
proof (induction c l a r rule: remove.induct)
  case (1 c l a)
  then have "h a \<noteq> None" "a \<notin> set_tree (plug c l)"
    by (auto simp: repr_plug inorder_plug set_tree_plug simp flip: set_before_after set_inorder)
  with avl_del_unlink [OF 1] show ?case
    by (auto simp: same_outside_def set_tree_plug)
next
  case (2 c l a rl b rr)
  let ?r = "Node rl b rr" and ?t = "plug c (Node l a (Node rl b rr))"
  obtain d v s where d: "leftmost_path (InRight l a # c) rl b rr = (d, v, s)"
    by (cases "leftmost_path (InRight l a # c) rl b rr") auto
  from leftmost_path_plug [OF d] have p: "plug d (Node Leaf v s) = ?t" by simp
  from 2(1) [OF d [symmetric] refl] 2(2-4) p obtain h1 where
    h1: "avl_del h v = Some (h1, root_ptr (remove d Leaf v s))" "repr h1 NULL (remove d Leaf v s)"
      "same_outside (set_tree ?t) h h1" "h1 v \<noteq> None" by auto
  let ?t1 = "remove d Leaf v s"
  note v = leftmost_path_inorder [OF d]
  have i1: "inorder ?t1 = before c @ inorder l @ a # inorder s @ after d"
    using inorder_remove [of d Leaf v s] 2(3) p v(1) by simp
  have i: "inorder ?t = before c @ inorder l @ a # v # inorder s @ after d"
    using v(2) by (simp add: inorder_plug)
  have a1: "a \<in> set_tree ?t1" by (simp add: i1 flip: set_inorder)
  have "v \<in> set_tree ?t" by (simp add: i flip: set_inorder)
  then have v1: "v \<noteq> NULL" using NULL_notin [OF 2(2)] by metis
  have v2: "v \<notin> set_tree ?t1" "distinct (inorder ?t1)"
    using 2(3) unfolding i by (auto simp: i1 simp flip: set_inorder)
  have "leftmost h b = Some v" using leftmost_repr d 2(2) by (auto simp: repr_plug)
  then have "avl_del h a = take_place h1 (root_ptr ?t1) a v"
    using h1(1) 2(2) by (subst avl_del.simps) (simp add: repr_plug)
  moreover have "insert v (set_tree ?t1) \<subseteq> set_tree ?t"
    unfolding set_inorder [symmetric] i i1 by auto
  ultimately show ?case
    using take_place_repr [OF h1(2) v2(2) a1 v2(1) v1 h1(4)] h1(3) d
    by (fastforce intro: same_outside_trans)
qed


section \<open>Insertion\<close>

lemma attach_repr:
  assumes "repr h NULL (plug c Leaf)" "distinct (inorder (plug c Leaf))"
    and x: "h x = Some n" "left n = NULL" "right n = NULL" "x \<noteq> NULL"
      "x \<notin> set_tree (plug c Leaf)"
  shows "\<exists>h1 h2. (if c = [] then Some h else set_link h (link_of (hd c)) x) = Some h1 \<and>
    modify h1 x (\<lambda>v. v\<lparr>parent := path_parent c\<rparr>) = Some h2 \<and>
    loose h2 (path_parent c) (Node Leaf x Leaf) \<and> ctx_repr h2 c x \<and>
    same_outside (insert x (path_set c)) h h2"
proof (cases c)
  case Nil
  with x show ?thesis by (cases n) (auto simp: same_outside_def)
next
  case (Cons f c')
  have h: "ctx_exact h c Leaf" using assms(1) by (simp add: repr_plug)
  have d: "frame_label f \<notin> path_set c'" "distinct (inorder (fill f Leaf))"
    using assms(2) Cons by (cases f; auto simp: inorder_plug simp flip: set_before_after set_inorder)+
  have xs: "x \<notin> frame_set f" "x \<notin> path_set c'" "x \<noteq> frame_label f"
    using x(5) Cons by (cases f; simp add: set_tree_plug)+
  obtain h1 where h1: "set_link h (link_of f) x = Some h1" "ctx_repr h1 c x"
    "same_outside {frame_label f} h h1"
    using h Cons xs d by (cases f) (force simp: node_of_def same_outside_def dest: ctx_exact_repr)+
  let ?h2 = "h1(x \<mapsto> n\<lparr>parent := path_parent c\<rparr>)"
  have "h1 x = Some n" using h1(3) x(1) xs by (simp add: same_outside_def)
  moreover have "ctx_repr ?h2 c x" using h1(2) xs Cons by simp
  moreover have "loose ?h2 (path_parent c) (Node Leaf x Leaf)" using x by (cases n) auto
  moreover have "frame_label f \<in> path_set c" using Cons by (cases f) auto
  then have "same_outside (insert x (path_set c)) h ?h2"
    by (intro same_outside_trans [OF h1(3), of "{x}"]) (auto simp: same_outside_def)
  ultimately show ?thesis using h1(1) x(4) Cons by auto
qed

text \<open>
  The search for the insertion point: \<open>new_less a\<close> says whether the new key is less than the key at
  \<open>a\<close>.
\<close>

fun descend :: "(ptr \<Rightarrow> bool) \<Rightarrow> ptr path \<Rightarrow> ptr tree \<Rightarrow> ptr path" where
  "descend new_less c Leaf = c"
| "descend new_less c (Node l a r) =
     (if new_less a then descend new_less (InLeft a r # c) l
      else descend new_less (InRight l a # c) r)"

lemma plug_descend [simp]: "plug (descend lt c t) Leaf = plug c t"
  by (induction lt c t rule: descend.induct) auto

text \<open>
  On a tree whose in-order list is split by the new key (first the nodes that are not greater, then
  the greater ones), the insertion point is exactly the split.
\<close>

definition upward :: "(ptr \<Rightarrow> bool) \<Rightarrow> ptr \<Rightarrow> ptr \<Rightarrow> bool" where
  "upward lt a b \<longleftrightarrow> (lt a \<longrightarrow> lt b)"

lemma descend_split:
  assumes "sorted_wrt (upward lt) (inorder t)"
    and "\<forall>a \<in> set (before c). \<not> lt a" "\<forall>a \<in> set (after c). lt a"
  shows "(\<forall>a \<in> set (before (descend lt c t)). \<not> lt a) \<and> (\<forall>a \<in> set (after (descend lt c t)). lt a)"
  using assms
proof (induction lt c t rule: descend.induct)
  case (2 lt c l a r)
  have s: "sorted_wrt (upward lt) (inorder l)" "sorted_wrt (upward lt) (inorder r)"
    "\<forall>b \<in> set_tree r. upward lt a b" "\<forall>b \<in> set_tree l. upward lt b a"
    using 2(3) by (simp_all add: sorted_wrt_append)
  show ?case
  proof (cases "lt a")
    case True
    then have "\<forall>b \<in> set (after (InLeft a r # c)). lt b" using s(3) 2(5) by (auto simp: upward_def)
    with 2(1) [OF True s(1)] 2(4) True show ?thesis by simp
  next
    case False
    then have "\<forall>b \<in> set (before (InRight l a # c)). \<not> lt b" using s(4) 2(4) by (auto simp: upward_def)
    with 2(2) [OF False s(2)] 2(5) False show ?thesis by simp
  qed
qed simp

definition avl_insert :: "(ptr \<Rightarrow> bool) \<Rightarrow> ptr \<Rightarrow> ptr tree \<Rightarrow> ptr tree" where
  "avl_insert lt x t = fixup (descend lt [] t) (Node Leaf x Leaf)"

lemma avl_avl_insert: "avl t \<Longrightarrow> avl (avl_insert lt x t)"
  unfolding avl_insert_def fixup_eq_parent
  by (rule fixup_parent_avl [of _ Leaf]) (simp_all add: near_def)

lemma inorder_avl_insert:
  assumes "sorted_wrt (upward lt) (inorder t)"
  shows "\<exists>xs ys. inorder t = xs @ ys \<and> inorder (avl_insert lt x t) = xs @ x # ys \<and>
    (\<forall>a \<in> set xs. \<not> lt a) \<and> (\<forall>a \<in> set ys. lt a)"
proof -
  let ?c = "descend lt [] t"
  have "inorder t = inorder (plug ?c Leaf)" by simp
  then have "inorder t = before ?c @ after ?c" by (simp only: inorder_plug) simp
  moreover have "inorder (avl_insert lt x t) = before ?c @ x # after ?c"
    by (simp add: avl_insert_def inorder_fixup)
  ultimately show ?thesis using descend_split [OF assms, of "[]"] by auto
qed

section \<open>Well-formed AVL trees on the heap\<close>

definition avl_tree :: "avl_heap \<Rightarrow> ptr \<Rightarrow> ptr tree \<Rightarrow> bool" where
  "avl_tree h root t \<longleftrightarrow>
     repr h NULL t \<and> root = root_ptr t \<and> distinct (inorder t) \<and> avl t \<and> size t < 2 ^ 31"

lemma avl_tree_same_outside:
  "avl_tree h root t \<Longrightarrow> same_outside S h h' \<Longrightarrow> set_tree t \<inter> S = {} \<Longrightarrow> avl_tree h' root t"
  by (auto simp: avl_tree_def repr_same_outside)

lemma avl_tree_delete:
  assumes "avl_tree h root t" "a \<in> set_tree t"
  shows "\<exists>h' root' t'. avl_del h a = Some (h', root') \<and> avl_tree h' root' t' \<and>
    inorder t' = remove1 a (inorder t) \<and> same_outside (set_tree t) h h' \<and> h' a \<noteq> None"
proof -
  obtain c l r where t: "t = plug c (Node l a r)" using tree_split [OF assms(2)] by auto
  have w: "repr h NULL (plug c (Node l a r))" "distinct (inorder (plug c (Node l a r)))"
    "avl (plug c (Node l a r))" "size (plug c (Node l a r)) < 2 ^ 31" "root = root_ptr t"
    using assms(1) unfolding t avl_tree_def by auto
  obtain h' where h': "avl_del h a = Some (h', root_ptr (remove c l a r))"
    "repr h' NULL (remove c l a r)" "same_outside (set_tree t) h h'" "h' a \<noteq> None"
    using avl_del_repr [OF w(1,2,4)] t by auto
  have i: "inorder (remove c l a r) = before c @ inorder l @ inorder r @ after c"
    by (rule inorder_remove [OF w(2)])
  have "distinct (before c @ inorder l @ a # inorder r @ after c)"
    using w(2) by (simp add: inorder_plug)
  then have "inorder (remove c l a r) = remove1 a (inorder t)" "distinct (inorder (remove c l a r))"
    unfolding i t by (auto simp: inorder_plug remove1_append)
  moreover have "size (remove c l a r) < 2 ^ 31"
    using w(4) arg_cong [OF i, of length] by (simp add: size_plug)
  ultimately show ?thesis using h' avl_remove [OF w(3)] unfolding avl_tree_def by auto
qed

lemma avl_tree_attach:
  fixes lt :: "ptr \<Rightarrow> bool"
  assumes "avl_tree h root t" "size t + 1 < 2 ^ 31"
    and x: "h x = Some n" "left n = NULL" "right n = NULL" "x \<noteq> NULL" "x \<notin> set_tree t"
  defines "c \<equiv> descend lt [] t"
  shows "\<exists>h1 h2 h3. (if c = [] then Some h else set_link h (link_of (hd c)) x) = Some h1 \<and>
    modify h1 x (\<lambda>v. v\<lparr>parent := path_parent c\<rparr>) = Some h2 \<and>
    avl_fix h2 x = Some (h3, root_ptr (avl_insert lt x t)) \<and>
    avl_tree h3 (root_ptr (avl_insert lt x t)) (avl_insert lt x t) \<and>
    same_outside (insert x (set_tree t)) h h3"
proof -
  have t: "t = plug c Leaf" by (simp add: c_def)
  have w: "repr h NULL (plug c Leaf)" "distinct (inorder (plug c Leaf))" "avl t"
    using assms(1) t by (auto simp: avl_tree_def)
  obtain h1 h2 where h12: "(if c = [] then Some h else set_link h (link_of (hd c)) x) = Some h1"
    "modify h1 x (\<lambda>v. v\<lparr>parent := path_parent c\<rparr>) = Some h2"
    "loose h2 (path_parent c) (Node Leaf x Leaf)" "ctx_repr h2 c x"
    "same_outside (insert x (path_set c)) h h2"
    using attach_repr [OF w(1,2) x(1-4)] x(5) t by blast
  have d: "distinct (inorder (plug c (Node Leaf x Leaf)))" "size (plug c (Node Leaf x Leaf)) < 2 ^ 31"
    using w(2) x(5) assms(2) unfolding t
    by (auto simp: inorder_plug size_plug set_tree_plug simp flip: set_before_after)
  obtain h3 where h3: "avl_fix h2 x = Some (h3, root_ptr (avl_insert lt x t))"
    "repr h3 NULL (avl_insert lt x t)" "same_outside (set_tree (plug c (Node Leaf x Leaf))) h2 h3"
    using avl_fix_repr [OF h12(3) _ d] h12(4) by (auto simp: avl_insert_def c_def)
  have "inorder (avl_insert lt x t) = inorder (plug c (Node Leaf x Leaf))"
    by (simp add: avl_insert_def inorder_fixup inorder_plug c_def)
  then have "distinct (inorder (avl_insert lt x t))" "size (avl_insert lt x t) < 2 ^ 31"
    using d by (simp_all flip: length_inorder)
  moreover have "same_outside (insert x (set_tree t)) h h3"
    using h3(3) by (intro same_outside_trans [OF h12(5)]) (auto simp: t set_tree_plug)
  ultimately show ?thesis using h12(1,2) h3(1,2) avl_avl_insert [OF w(3)]
    unfolding avl_tree_def by blast
qed

end
