(* ===== verification/AVL_Offset.thy ===== *)
theory AVL_Offset
  imports AVL_Refine
begin

text \<open>
  What \<open>avl_offset\<close> computes.  The loop keeps \<open>pos\<close>, the rank of the current node relative to the
  start.  The moves to the parent keep it exact; the move to the right child adds one less than the
  left count of the child (in 32-bit arithmetic) where the rank grows by one more, and the move to
  the left child subtracts the left count of the child where the rank shrinks by the right one.  The
  lemmas give each move, the cases where the result is right (targets on the way to the root, and
  offsets out of range) and the cases where it is not.
\<close>

section \<open>The moves of the loop\<close>

lemma widen_of_nat: "n < 2 ^ 32 \<Longrightarrow> widen (of_nat n) = int n"
  by (simp add: widen_def unat_of_nat)

lemma widen_Suc: "n < 2 ^ 31 \<Longrightarrow> widen (of_nat n + 1) = int n + 1"
  using widen_of_nat [of "Suc n"] by (simp add: add.commute)

text \<open>The increment of the move to the right: \<open>left count - 1\<close>, wrapping at zero.\<close>

lemma widen_pred:
  "n < 2 ^ 31 \<Longrightarrow> widen (of_nat n - 1) = (if n = 0 then 2 ^ 32 - 1 else int n - 1)"
proof (cases n)
  case 0
  then show ?thesis by (simp add: widen_def unsigned_minus_1_eq_mask mask_eq_exp_minus_1)
next
  case (Suc m)
  assume "n < 2 ^ 31"
  with Suc show ?thesis using widen_of_nat [of m] by simp
qed

definition at_node :: "avl_heap \<Rightarrow> ptr path \<Rightarrow> ptr tree \<Rightarrow> ptr \<Rightarrow> ptr tree \<Rightarrow> bool" where
  "at_node h c l a r \<longleftrightarrow> repr h NULL (plug c (Node l a r)) \<and>
     distinct (inorder (plug c (Node l a r))) \<and> size (plug c (Node l a r)) < 2 ^ 31"

lemma at_nodeD:
  assumes "at_node h c l a r"
  shows "a \<noteq> NULL" "h a = Some (node_of (path_parent c) l r)" "repr h a l" "repr h a r"
    "size l < 2 ^ 31" "size r < 2 ^ 31"
    "length (before c) + size l + size r + length (after c) < 2 ^ 31"
  using assms by (auto simp: at_node_def repr_plug size_plug)

lemma at_node_left: "at_node h c (Node ll b lr) a r \<Longrightarrow> at_node h (InLeft a r # c) ll b lr"
  and at_node_right: "at_node h c l a (Node rl b rr) \<Longrightarrow> at_node h (InRight l a # c) rl b rr"
  by (simp_all add: at_node_def)

lemma at_node_up_left: "at_node h (InLeft b s # c) l a r \<Longrightarrow> at_node h c (Node l a r) b s"
  and at_node_up_right: "at_node h (InRight s b # c) l a r \<Longrightarrow> at_node h c s b (Node l a r)"
  by (simp_all add: at_node_def)

lemma step_right:
  assumes "at_node h c l a (Node rl b rr)" "pos < k" "k \<le> pos + int (size (Node rl b rr))"
  shows "avl_offset_step h a pos k = Some (Inr (b, pos + widen (of_nat (size rl) - 1)))"
proof -
  note a = at_nodeD [OF assms(1)] and b = at_nodeD [OF at_node_right [OF assms(1)]]
  have "avl_cnt h b = Some (of_nat (size (Node rl b rr)))" using avl_cnt_repr [OF a(4)] by simp
  moreover have "widen (of_nat (size (Node rl b rr))) = int (size (Node rl b rr))"
    using a(6) by (intro widen_of_nat) simp
  ultimately show ?thesis
    using assms(2,3) a(1,2) b(1,2) avl_cnt_repr [OF b(3)] by (simp add: avl_offset_step_def)
qed

lemma step_left:
  assumes "at_node h c (Node ll b lr) a r" "pos > k" "pos - int (size (Node ll b lr)) \<le> k"
  shows "avl_offset_step h a pos k = Some (Inr (b, pos - (int (size ll) + 1)))"
proof -
  note a = at_nodeD [OF assms(1)] and b = at_nodeD [OF at_node_left [OF assms(1)]]
  have "avl_cnt h b = Some (of_nat (size (Node ll b lr)))" using avl_cnt_repr [OF a(3)] by simp
  moreover have "widen (of_nat (size (Node ll b lr))) = int (size (Node ll b lr))"
    using a(5) by (intro widen_of_nat) simp
  moreover have "widen (of_nat (size ll) + 1) = int (size ll) + 1"
    using b(5) by (rule widen_Suc)
  ultimately show ?thesis
    using assms(2,3) a(1,2) b(1,2) avl_cnt_repr [OF b(3)] by (simp add: avl_offset_step_def)
qed

lemma step_up:
  assumes a: "at_node h c l a r" and "k < pos - int (size l) \<or> k > pos + int (size r)"
  shows "avl_offset_step h a pos k = Some
    (case c of
       [] \<Rightarrow> Inl NULL
     | InLeft b s # c' \<Rightarrow> Inr (b, pos + (int (size r) + 1))
     | InRight s b # c' \<Rightarrow> Inr (b, pos - (int (size l) + 1)))"
proof -
  note d = at_nodeD [OF a]
  have w: "widen (of_nat (size l)) = int (size l)" "widen (of_nat (size r)) = int (size r)"
    "widen (of_nat (size l) + 1) = int (size l) + 1" "widen (of_nat (size r) + 1) = int (size r) + 1"
    using d(5,6) by (simp_all add: widen_of_nat widen_Suc)
  have step: "avl_offset_step h a pos k =
     (if path_parent c = NULL then Some (Inl NULL)
      else do {
        pn \<leftarrow> deref h (path_parent c);
        if right pn = a then Some (Inr (path_parent c, pos - (int (size l) + 1)))
        else Some (Inr (path_parent c, pos + (int (size r) + 1))) })"
    using assms(2) d(1,2) avl_cnt_repr [OF d(3)] avl_cnt_repr [OF d(4)] w
    by (auto simp: avl_offset_step_def cong: if_cong)
  show ?thesis
  proof (cases c)
    case Nil
    with step show ?thesis by simp
  next
    case (Cons f c')
    show ?thesis
    proof (cases f)
      case (InLeft b s)
      with a Cons have "at_node h (InLeft b s # c') l a r" by simp
      note b = at_nodeD [OF at_node_up_left [OF this]]
      have "root_ptr s \<noteq> a" using a Cons InLeft d(1)
        by (cases s) (auto simp: at_node_def inorder_plug)
      with step b(1,2) Cons InLeft show ?thesis by simp
    next
      case (InRight s b)
      with a Cons have "at_node h (InRight s b # c') l a r" by simp
      note b = at_nodeD [OF at_node_up_right [OF this]]
      with step Cons InRight show ?thesis by simp
    qed
  qed
qed

lemma offset_done: "k = pos \<Longrightarrow> avl_offset_loop h a pos k = Some a"
  by (subst avl_offset_loop.simps) (simp add: avl_offset_step_def)

lemma offset_next:
  "avl_offset_step h a pos k = Some (Inr (b, pos')) \<Longrightarrow>
    avl_offset_loop h a pos k = avl_offset_loop h b pos' k"
  by (subst avl_offset_loop.simps) simp

lemma offset_up:
  assumes "at_node h c l a r" and "k < pos - int (size l) \<or> k > pos + int (size r)"
  shows "avl_offset_loop h a pos k =
    (case c of
       [] \<Rightarrow> Some NULL
     | InLeft b s # c' \<Rightarrow> avl_offset_loop h b (pos + (int (size r) + 1)) k
     | InRight s b # c' \<Rightarrow> avl_offset_loop h b (pos - (int (size l) + 1)) k)"
  using step_up [OF assms] by (subst avl_offset_loop.simps) (simp split: list.split frame.split)

text \<open>
  A set of loop states that every turn maps into itself: the loop does not return from it.  The
  number of turns of a run that returns is counted by \<open>returns_in\<close>.
\<close>

fun returns_in :: "avl_heap \<Rightarrow> int \<Rightarrow> nat \<Rightarrow> ptr \<times> int \<Rightarrow> ptr \<Rightarrow> bool" where
  "returns_in h k 0 (a, pos) p \<longleftrightarrow> avl_offset_step h a pos k = Some (Inl p)"
| "returns_in h k (Suc m) (a, pos) p \<longleftrightarrow>
     (case avl_offset_step h a pos k of Some (Inr s) \<Rightarrow> returns_in h k m s p | _ \<Rightarrow> False)"

lemma offset_returns_in:
  assumes "avl_offset_loop h a pos k = Some p"
  shows "\<exists>m. returns_in h k m (a, pos) p"
proof (rule avl_offset_loop.raw_induct
    [where P = "\<lambda>h a pos k p. \<exists>m. returns_in h k m (a, pos) p", OF _ assms])
  fix f h a pos k p
  assume IH: "\<And>h a pos k p. f h a pos k = Some p \<Longrightarrow> \<exists>m. returns_in h k m (a, pos) p"
    and eq: "Option.bind (avl_offset_step h a pos k)
      (\<lambda>s. case s of Inl p \<Rightarrow> Some p | Inr (node', pos') \<Rightarrow> f h node' pos' k) = Some p"
  then obtain s where s: "avl_offset_step h a pos k = Some s" by (auto simp: bind_eq_Some_conv)
  show "\<exists>m. returns_in h k m (a, pos) p"
  proof (cases s)
    case (Inl q)
    with eq s have "returns_in h k 0 (a, pos) p" by simp
    then show ?thesis by blast
  next
    case (Inr s')
    obtain b pos' where s': "s' = (b, pos')" by (cases s')
    with eq s Inr IH obtain m where "returns_in h k m (b, pos') p" by fastforce
    with s Inr s' have "returns_in h k (Suc m) (a, pos) p" by simp
    then show ?thesis by blast
  qed
qed

lemma offset_diverges:
  assumes "\<And>a pos. (a, pos) \<in> S \<Longrightarrow> \<exists>s \<in> S. avl_offset_step h a pos k = Some (Inr s)"
    and "(a, pos) \<in> S"
  shows "avl_offset_loop h a pos k = None"
proof -
  have "\<forall>s \<in> S. \<not> returns_in h k m s p" for m p
  proof (induction m)
    case 0
    show ?case using assms(1) by fastforce
  next
    case (Suc m)
    then show ?case using assms(1) by fastforce
  qed
  with assms(2) offset_returns_in show ?thesis by (metis not_None_eq)
qed

section \<open>Where the result is right\<close>

text \<open>An offset that leaves the tree on either side: the walk ends at the root with \<open>NULL\<close>.\<close>

lemma offset_out_of_range:
  assumes "at_node h c l a r"
    and "k < pos - int (size l + length (before c)) \<or> k > pos + int (size r + length (after c))"
  shows "avl_offset_loop h a pos k = Some NULL"
  using assms
proof (induction c arbitrary: l a r pos)
  case Nil
  then show ?case by (subst offset_up [of h "[]" l a r]) auto
next
  case (Cons f c)
  show ?case
  proof (cases f)
    case (InLeft b s)
    with Cons.IH [OF at_node_up_left, of b s l a r "pos + (int (size r) + 1)"] Cons.prems
    show ?thesis by (subst offset_up [of h "f # c" l a r]) auto
  next
    case (InRight s b)
    with Cons.IH [OF at_node_up_right, of s b l a r "pos - (int (size l) + 1)"] Cons.prems
    show ?thesis by (subst offset_up [of h "f # c" l a r]) auto
  qed
qed

text \<open>A target on the path to the root is found, at its exact distance in rank.\<close>

lemma offset_to_ancestor:
  assumes "at_node h (d @ f # e) l a r"
    and "k = pos + (case f of InLeft b s \<Rightarrow> int (size r + length (after d)) + 1
                            | InRight s b \<Rightarrow> - (int (size l + length (before d)) + 1))"
  shows "avl_offset_loop h a pos k = Some (frame_label f)"
  using assms
proof (induction d arbitrary: l a r pos)
  case Nil
  show ?case
  proof (cases f)
    case (InLeft b s)
    with Nil show ?thesis by (subst offset_up [of h "f # e" l a r]) (auto intro: offset_done)
  next
    case (InRight s b)
    with Nil show ?thesis by (subst offset_up [of h "f # e" l a r]) (auto intro: offset_done)
  qed
next
  case (Cons g d)
  have far: "k < pos - int (size l) \<or> k > pos + int (size r)"
    using Cons.prems(2) by (cases f; cases g) auto
  show ?case
  proof (cases g)
    case (InLeft b s)
    have "avl_offset_loop h b (pos + (int (size r) + 1)) k = Some (frame_label f)"
      using Cons.prems InLeft
      by (intro Cons.IH [OF at_node_up_left [of h b s "d @ f # e" l a r]]) (auto split: frame.splits)
    with offset_up [OF Cons.prems(1) far] InLeft show ?thesis by simp
  next
    case (InRight s b)
    have "avl_offset_loop h b (pos - (int (size l) + 1)) k = Some (frame_label f)"
      using Cons.prems InRight
      by (intro Cons.IH [OF at_node_up_right [of h s b "d @ f # e" l a r]]) (auto split: frame.splits)
    with offset_up [OF Cons.prems(1) far] InRight show ?thesis by simp
  qed
qed

section \<open>Where the result is wrong\<close>

text \<open>
  A move to a right child without a left child adds \<open>0u - 1 = 4294967295\<close>: the walk is then out of
  range for good and ends with \<open>NULL\<close>, whatever the target in the right subtree.
\<close>

lemma offset_right_wraps:
  assumes "at_node h c l a (Node Leaf b s)" "0 < k" "k \<le> int (size s) + 1"
  shows "avl_offset h a k = Some NULL"
proof -
  let ?big = "2 ^ 32 - 1 :: int"
  have b: "at_node h (InRight l a # c) Leaf b s" by (rule at_node_right [OF assms(1)])
  note d = at_nodeD(7) [OF assms(1)]
  have "avl_offset h a k = avl_offset_loop h b ?big k"
    using offset_next [OF step_right [OF assms(1), of 0 k]] assms(2,3) widen_pred [of 0]
    by (simp add: avl_offset_def)
  also have "\<dots> = Some NULL"
    using assms(3) d by (intro offset_out_of_range [OF b]) simp
  finally show ?thesis .
qed

text \<open>
  The successor of a node with a right subtree is therefore found in no tree where the right child
  is that successor; without a right subtree it is the first ancestor reached from the left.
\<close>

lemma offset_successor_up:
  assumes "at_node h c l a Leaf"
  shows "avl_offset h a 1 = Some (case after c of [] \<Rightarrow> NULL | b # _ \<Rightarrow> b)"
proof (cases "after c")
  case Nil
  with offset_out_of_range [OF assms, of 1 0] show ?thesis by (simp add: avl_offset_def)
next
  case (Cons b bs)
  have "\<exists>d s e. c = d @ InLeft b s # e \<and> after d = []"
    using Cons
  proof (induction c)
    case (Cons f c)
    show ?case
    proof (cases f)
      case (InLeft x s)
      with Cons.prems have "f # c = [] @ InLeft b s # c \<and> after [] = []" by simp
      then show ?thesis by blast
    next
      case (InRight s x)
      with Cons obtain d s' e where "c = d @ InLeft b s' # e" "after d = []" by auto
      with InRight have "f # c = (f # d) @ InLeft b s' # e \<and> after (f # d) = []" by simp
      then show ?thesis by blast
    qed
  qed simp
  then obtain d s e where c: "c = d @ InLeft b s # e" "after d = []" by blast
  with assms offset_to_ancestor [of h d "InLeft b s" e l a Leaf 1 0] Cons
  show ?thesis by (simp add: avl_offset_def)
qed

text \<open>
  The loop can run forever.  At \<open>q\<close> it goes to the right child \<open>v\<close>, from there to \<open>u\<close> and back through
  \<open>v\<close> to \<open>q\<close>, to the left child \<open>p\<close> and back to \<open>q\<close>; when the sizes of the subtrees make the errors of
  the five moves cancel, it arrives with the \<open>pos\<close> it started from.
\<close>

lemma offset_cycle:
  assumes at: "at_node h c (Node A p B) q (Node (Node C u D) v E)"
    and sizes: "size D + size B = size A + size C + 2" "size B + 2 \<le> size A"
  shows "avl_offset h q 1 = None"
proof -
  let ?T = "Node (Node C u D) v E"
  have p: "at_node h (InLeft q ?T # c) A p B" by (rule at_node_left [OF at])
  have v: "at_node h (InRight (Node A p B) q # c) (Node C u D) v E" by (rule at_node_right [OF at])
  have u: "at_node h (InLeft v E # InRight (Node A p B) q # c) C u D" by (rule at_node_left [OF v])
  have cap: "size (Node C u D) < 2 ^ 31" using at_nodeD(5) [OF v] by simp
  have "avl_offset_step h q 0 1 = Some (Inr (v, int (size C) + int (size D)))"
    using step_right [OF at, of 0 1] widen_pred [OF cap] by simp
  moreover have "avl_offset_step h v (int (size C) + int (size D)) 1 = Some (Inr (u, int (size D) - 1))"
    using step_left [OF v, of 1 "int (size C) + int (size D)"] sizes by simp
  moreover have "avl_offset_step h u (int (size D) - 1) 1 = Some (Inr (v, 2 * int (size D)))"
    using step_up [OF u, of 1 "int (size D) - 1"] sizes by simp
  moreover have "avl_offset_step h v (2 * int (size D)) 1 = Some (Inr (q, int (size A) - int (size B)))"
    using step_up [OF v, of 1 "2 * int (size D)"] sizes by simp
  moreover have "avl_offset_step h q (int (size A) - int (size B)) 1 = Some (Inr (p, - int (size B) - 1))"
    using step_left [OF at, of 1 "int (size A) - int (size B)"] sizes by simp
  moreover have "avl_offset_step h p (- int (size B) - 1) 1 = Some (Inr (q, 0))"
    using step_up [OF p, of 1 "- int (size B) - 1"] by simp
  ultimately show ?thesis
    unfolding avl_offset_def
    by (intro offset_diverges [where S = "{(q, 0), (v, int (size C) + int (size D)),
        (u, int (size D) - 1), (v, 2 * int (size D)), (q, int (size A) - int (size B)),
        (p, - int (size B) - 1)}"]) auto
qed

section \<open>Building a heap from a tree\<close>

fun nodes_of :: "ptr \<Rightarrow> ptr tree \<Rightarrow> (ptr \<times> avlnode) list" where
  "nodes_of par Leaf = []"
| "nodes_of par (Node l a r) = (a, node_of par l r) # nodes_of a l @ nodes_of a r"

definition heap_of :: "ptr tree \<Rightarrow> avl_heap" where
  "heap_of t = map_of (nodes_of NULL t)"

lemma fst_nodes_of [simp]: "fst ` set (nodes_of par t) = set_tree t"
  by (induction t arbitrary: par) (simp_all add: image_Un)

lemma repr_map_of:
  "distinct (inorder t) \<Longrightarrow> NULL \<notin> set_tree t \<Longrightarrow>
    \<forall>x \<in> set_tree t. h x = map_of (nodes_of par t) x \<Longrightarrow> repr h par t"
proof (induction t arbitrary: par)
  case (Node l a r)
  have "repr h a l"
  proof (rule Node.IH(1))
    show "\<forall>x \<in> set_tree l. h x = map_of (nodes_of a l) x"
    proof
      fix x assume x: "x \<in> set_tree l"
      then have "x \<notin> dom (map_of (nodes_of a r))" "x \<noteq> a"
        using Node.prems(1) by (auto simp: dom_map_of_conv_image_fst)
      then show "h x = map_of (nodes_of a l) x"
        using Node.prems(3) x by (auto simp: map_add_def split: option.split)
    qed
  qed (use Node.prems in auto)
  moreover have "repr h a r"
  proof (rule Node.IH(2))
    show "\<forall>x \<in> set_tree r. h x = map_of (nodes_of a r) x"
    proof
      fix x assume x: "x \<in> set_tree r"
      then have "x \<in> dom (map_of (nodes_of a r))" "x \<noteq> a" "x \<notin> dom (map_of (nodes_of a l))"
        using Node.prems(1) by (auto simp: dom_map_of_conv_image_fst)
      then show "h x = map_of (nodes_of a r) x"
        using Node.prems(3) x by (auto simp: map_add_def split: option.split)
    qed
  qed (use Node.prems in auto)
  ultimately show ?case using Node.prems by simp
qed simp

lemma repr_heap_of: "distinct (inorder t) \<Longrightarrow> NULL \<notin> set_tree t \<Longrightarrow> repr (heap_of t) NULL t"
  unfolding heap_of_def by (rule repr_map_of) simp_all

lemma avl_tree_heap_of:
  "distinct (inorder t) \<Longrightarrow> NULL \<notin> set_tree t \<Longrightarrow> avl t \<Longrightarrow> size t < 2 ^ 31 \<Longrightarrow>
    avl_tree (heap_of t) (root_ptr t) t"
  by (simp add: avl_tree_def repr_heap_of)


section \<open>Properties of the tree code\<close>

text \<open>
  C15. Deletion.  On a well-formed AVL tree, \<open>avl_del\<close> of any of its nodes returns, without touching
  memory outside the tree, the root of a well-formed AVL tree whose in-order sequence is the old one
  without the node; the node itself is left allocated for the caller to free.
\<close>

theorem avl_del_correct:
  assumes "avl_tree h rt t" "a \<in> set_tree t"
  shows "\<exists>h' rt' t'. avl_del h a = Some (h', rt') \<and> avl_tree h' rt' t' \<and>
    inorder t' = remove1 a (inorder t) \<and> same_outside (set_tree t) h h' \<and> h' a \<noteq> None"
  using assms by (rule avl_tree_delete)

theorem avl_del_correct_witness:
  "\<exists>h' rt' t'. avl_del (heap_of (Node (Node Leaf 1 Leaf) 2 (Node Leaf 3 Leaf))) 2 = Some (h', rt') \<and>
    avl_tree h' rt' t' \<and> inorder t' = [1, 3]"
proof -
  let ?t = "Node (Node Leaf 1 Leaf) 2 (Node Leaf (3::ptr) Leaf)"
  have "avl_tree (heap_of ?t) (root_ptr ?t) ?t" by (rule avl_tree_heap_of) simp_all
  from avl_del_correct [OF this, of 2] show ?thesis by auto
qed

text \<open>
  Moving to the successor from a node without a right child: \<open>avl_offset(node, 1)\<close> returns the
  next node of the in-order sequence, or \<open>NULL\<close> from the last one.
\<close>

theorem avl_offset_next_without_right_child:
  assumes "at_node h c l a Leaf"
  shows "avl_offset h a 1 = Some (case after c of [] \<Rightarrow> NULL | b # _ \<Rightarrow> b)"
  using assms by (rule offset_successor_up)

theorem avl_offset_next_without_right_child_witness:
  "avl_offset (heap_of (Node (Node Leaf 1 Leaf) 2 Leaf)) 1 1 = Some 2"
proof -
  let ?t = "Node (Node Leaf 1 Leaf) 2 (Leaf :: ptr tree)"
  have "avl_tree (heap_of ?t) (root_ptr ?t) ?t" by (rule avl_tree_heap_of) simp_all
  then have "at_node (heap_of ?t) [InLeft 2 Leaf] Leaf 1 Leaf"
    by (simp add: at_node_def avl_tree_def)
  from avl_offset_next_without_right_child [OF this] show ?thesis by simp
qed

text \<open>
  Offsets beyond either end of the sequence give \<open>NULL\<close>, from every node of every tree.
\<close>

theorem avl_offset_beyond_ends:
  assumes "at_node h c l a r"
    and "k < - int (size l + length (before c)) \<or> k > int (size r + length (after c))"
  shows "avl_offset h a k = Some NULL"
  using offset_out_of_range [OF assms(1), of k 0] assms(2) by (simp add: avl_offset_def)

theorem avl_offset_beyond_ends_witness:
  "avl_offset (heap_of (Node (Node Leaf 1 Leaf) 2 Leaf)) 1 2 = Some NULL"
proof -
  let ?t = "Node (Node Leaf 1 Leaf) 2 (Leaf :: ptr tree)"
  have "avl_tree (heap_of ?t) (root_ptr ?t) ?t" by (rule avl_tree_heap_of) simp_all
  then have "at_node (heap_of ?t) [InLeft 2 Leaf] Leaf 1 Leaf"
    by (simp add: at_node_def avl_tree_def)
  from avl_offset_beyond_ends [OF this, of 2] show ?thesis by simp
qed

text \<open>
  C16. Insertion.  A new node attached at the null link where the search with a monotone comparison ends
  and rebalanced by \<open>avl_fix\<close> gives a well-formed AVL tree: the new node stands behind the nodes that are
  not greater and before the greater ones, and nothing else changes in the order.
\<close>

theorem avl_insertion_correct:
  assumes "avl_tree h rt t" "size t + 1 < 2 ^ 31" "sorted_wrt (upward lt) (inorder t)"
    and "h x = Some n" "left n = NULL" "right n = NULL" "x \<noteq> NULL" "x \<notin> set_tree t"
  shows "\<exists>h1 h2 h3 rt' t' xs ys.
    (case descend lt [] t of [] \<Rightarrow> Some h | f # c \<Rightarrow> set_link h (link_of f) x) = Some h1 \<and>
    modify h1 x (\<lambda>v. v\<lparr>parent := path_parent (descend lt [] t)\<rparr>) = Some h2 \<and>
    avl_fix h2 x = Some (h3, rt') \<and> avl_tree h3 rt' t' \<and>
    inorder t = xs @ ys \<and> inorder t' = xs @ x # ys \<and> (\<forall>a \<in> set xs. \<not> lt a) \<and> (\<forall>a \<in> set ys. lt a)"
  using avl_tree_attach [OF assms(1,2,4-8), of lt] inorder_avl_insert [OF assms(3), of x]
  by (cases "descend lt [] t") fastforce+

theorem avl_insertion_correct_witness:
  "\<exists>h3 rt' t'. avl_fix (((heap_of (Node Leaf 1 Leaf))(2 \<mapsto> \<lparr>depth = 1, cnt = 1, left = NULL, right = NULL, parent = 1\<rparr>))
      (1 \<mapsto> \<lparr>depth = 1, cnt = 1, left = NULL, right = 2, parent = NULL\<rparr>)) 2 = Some (h3, rt') \<and>
    avl_tree h3 rt' t' \<and> inorder t' = [1, 2]"
proof -
  let ?t = "Node Leaf (1::ptr) Leaf"
  let ?n = "\<lparr>depth = 1, cnt = 1, left = NULL, right = NULL, parent = NULL\<rparr>"
  have "avl_tree (heap_of ?t) (root_ptr ?t) ?t" by (rule avl_tree_heap_of) simp_all
  then have "avl_tree ((heap_of ?t)(2 \<mapsto> ?n)) (root_ptr ?t) ?t"
    by (rule avl_tree_same_outside [where S = "{2}"]) (simp_all add: same_outside_def)
  from avl_insertion_correct [OF this, of "\<lambda>_. False" 2 ?n] show ?thesis
    by (simp add: heap_of_def node_of_def fun_upd_twist)
qed

text \<open>
  \<open>avl_offset\<close> finds every node on the way to the root: from a node, the offset that leads to one of
  its ancestors in the in-order sequence returns this ancestor.
\<close>

theorem avl_offset_to_ancestor:
  assumes "at_node h (d @ f # e) l a r"
    and "k = (case f of InLeft b s \<Rightarrow> int (size r + length (after d)) + 1
                      | InRight s b \<Rightarrow> - (int (size l + length (before d)) + 1))"
  shows "avl_offset h a k = Some (frame_label f)"
  unfolding avl_offset_def using assms by (intro offset_to_ancestor) auto

theorem avl_offset_to_ancestor_witness:
  "avl_offset (heap_of (Node (Node Leaf 1 Leaf) 2 Leaf)) 1 1 = Some 2"
proof -
  let ?t = "Node (Node Leaf 1 Leaf) 2 (Leaf :: ptr tree)"
  have "avl_tree (heap_of ?t) (root_ptr ?t) ?t" by (rule avl_tree_heap_of) simp_all
  then have "at_node (heap_of ?t) ([] @ InLeft 2 Leaf # []) Leaf 1 Leaf"
    by (simp add: at_node_def avl_tree_def)
  from avl_offset_to_ancestor [OF this, of 1] show ?thesis by simp
qed

text \<open>
  C32. \<open>avl_offset\<close> does not find a successor that is the root of the right subtree: the position moves
  by the count of its empty left subtree minus one, in unsigned arithmetic, and every offset into this
  subtree gives \<open>NULL\<close>.
\<close>

theorem avl_offset_misses_successor:
  assumes "at_node h c l a (Node Leaf b s)" "0 < k" "k \<le> int (size s) + 1"
  shows "avl_offset h a k = Some NULL"
  using assms by (rule offset_right_wraps)

theorem avl_offset_misses_successor_witness:
  "avl_offset (heap_of (Node Leaf 1 (Node Leaf 2 Leaf))) 1 1 = Some NULL"
proof -
  let ?t = "Node Leaf 1 (Node Leaf 2 (Leaf :: ptr tree))"
  have "avl_tree (heap_of ?t) (root_ptr ?t) ?t" by (rule avl_tree_heap_of) simp_all
  then have "at_node (heap_of ?t) [] Leaf 1 (Node Leaf 2 Leaf)"
    by (simp add: at_node_def avl_tree_def)
  from avl_offset_misses_successor [OF this, of 1] show ?thesis by simp
qed

text \<open>
  C33. \<open>avl_offset\<close> may not return: there is a well-formed AVL tree with a node from which the step to
  its successor walks in a circle.
\<close>

theorem avl_offset_may_hang:
  "\<exists>h rt t a. avl_tree h rt t \<and> a \<in> set_tree t \<and> a \<noteq> last (inorder t) \<and> avl_offset h a 1 = None"
proof -
  let ?one = "\<lambda>n. Node Leaf n (Leaf :: ptr tree)"
  let ?A = "Node (Node Leaf 1 (?one 2)) 3 (Node (?one 4) 5 Leaf)" and ?B = "Node (?one 7) 8 (?one 9)"
  let ?C = "Node (?one 11) 12 (?one 13)"
    and ?D = "Node (Node (?one 15) 16 (?one 17)) 18 (Node (?one 19) 20 (?one 21))"
    and ?E = "Node (Node (?one 23) 24 (?one 25)) 26 (Node (?one 27) 28 Leaf)"
  let ?t = "Node (Node ?A 6 ?B) 10 (Node (Node ?C 14 ?D) 22 ?E)"
  have t: "avl_tree (heap_of ?t) 10 ?t" using avl_tree_heap_of [of ?t] by simp
  then have "at_node (heap_of ?t) [] (Node ?A 6 ?B) 10 (Node (Node ?C 14 ?D) 22 ?E)"
    by (simp add: at_node_def avl_tree_def)
  then have "avl_offset (heap_of ?t) 10 1 = None" by (rule offset_cycle) simp_all
  moreover have "(10 :: ptr) \<in> set_tree ?t" "(10 :: ptr) \<noteq> last (inorder ?t)" by simp_all
  ultimately show ?thesis using t by blast
qed

end
