(* ===== verification/Hashtable.thy ===== *)
theory Hashtable
  imports Prelude
begin

unbundle bit_operations_syntax

text \<open>
  The pointer code of \<open>src/include/hashtable.h\<close> and \<open>src/src/hashtable.cpp\<close>: chains of intrusive
  \<open>HNode\<close>s linked through \<open>next\<close> (\<open>hnext\<close> here), an array of chains, and the pair of tables with
  progressive resizing.  \<open>hcode\<close>, \<open>mask\<close>, \<open>size\<close> and \<open>resizing_pos\<close> keep their 64-bit width.  The
  array behind \<open>HNode **tab\<close> belongs to one table only, so it is a list in the table record, \<open>None\<close>
  for a null \<open>tab\<close>.  A pointer to a link (\<open>HNode **from\<close>) is a \<open>slot\<close>: an array cell or the \<open>next\<close>
  field of a node.
\<close>

section \<open>Nodes and tables\<close>

record hnode =
  hnext :: ptr
  hcode :: u64

type_synonym hnode_heap = "ptr \<rightharpoonup> hnode"

record htab =
  tab :: "ptr list option"
  mask :: u64
  hsize :: u64

record hmap =
  ht1 :: htab
  ht2 :: htab
  resizing_pos :: u64

definition HTab0 :: htab where
  "HTab0 = \<lparr>tab = None, mask = 0, hsize = 0\<rparr>"

definition HMap0 :: hmap where
  "HMap0 = \<lparr>ht1 = HTab0, ht2 = HTab0, resizing_pos = 0\<rparr>"

definition k_resizing_work :: nat where
  "k_resizing_work = 128"

definition k_max_load_factor :: u64 where
  "k_max_load_factor = 8"

text \<open>\<open>calloc\<close> is taken to succeed, as the code does; the array starts with null links.\<close>

definition h_init :: "u64 \<Rightarrow> htab option" where
  "h_init n =
     (if n > 0 \<and> (n - 1) AND n = 0
      then Some \<lparr>tab = Some (replicate (unat n) NULL), mask = n - 1, hsize = 0\<rparr>
      else None)"

definition h_insert :: "hnode_heap \<Rightarrow> htab \<Rightarrow> ptr \<Rightarrow> (hnode_heap \<times> htab) option" where
  "h_insert h ht node = do {
     n \<leftarrow> deref h node;
     let pos = unat (hcode n AND mask ht);
     t \<leftarrow> tab ht;
     nx \<leftarrow> nth_opt t pos;
     h \<leftarrow> modify h node (\<lambda>v. v\<lparr>hnext := nx\<rparr>);
     t \<leftarrow> put_opt t pos node;
     Some (h, ht\<lparr>tab := Some t, hsize := hsize ht + 1\<rparr>)
   }"

section \<open>Lookup and detaching\<close>

datatype slot = Slot_tab nat | Slot_next ptr

fun slot_get :: "hnode_heap \<Rightarrow> htab \<Rightarrow> slot \<Rightarrow> ptr option" where
  "slot_get h ht (Slot_tab i) = do { t \<leftarrow> tab ht; nth_opt t i }"
| "slot_get h ht (Slot_next p) = map_option hnext (deref h p)"

fun slot_put :: "hnode_heap \<Rightarrow> htab \<Rightarrow> slot \<Rightarrow> ptr \<Rightarrow> (hnode_heap \<times> htab) option" where
  "slot_put h ht (Slot_tab i) q =
     do { t \<leftarrow> tab ht; t \<leftarrow> put_opt t i q; Some (h, ht\<lparr>tab := Some t\<rparr>) }"
| "slot_put h ht (Slot_next p) q =
     do { h \<leftarrow> modify h p (\<lambda>v. v\<lparr>hnext := q\<rparr>); Some (h, ht) }"

text \<open>
  The key is a stack object the callers build: here its \<open>hcode\<close> and the comparison \<open>eq cur key\<close> with
  the key fixed (it reads the payload of \<open>cur\<close>, so it may fail).
\<close>

partial_function (option) h_lookup_loop ::
  "hnode_heap \<Rightarrow> htab \<Rightarrow> u64 \<Rightarrow> (ptr \<Rightarrow> bool option) \<Rightarrow> slot \<Rightarrow> slot option option" where
  "h_lookup_loop h ht key eq from = do {
     cur \<leftarrow> slot_get h ht from;
     if cur = NULL then Some None
     else do {
       c \<leftarrow> deref h cur;
       found \<leftarrow> (if hcode c = key then eq cur else Some False);
       if found then Some (Some from)
       else h_lookup_loop h ht key eq (Slot_next cur) } }"

declare h_lookup_loop.simps [code]

definition h_lookup ::
  "hnode_heap \<Rightarrow> htab \<Rightarrow> u64 \<Rightarrow> (ptr \<Rightarrow> bool option) \<Rightarrow> slot option option" where
  "h_lookup h ht key eq =
     (if tab ht = None then Some None
      else h_lookup_loop h ht key eq (Slot_tab (unat (key AND mask ht))))"

definition h_detach :: "hnode_heap \<Rightarrow> htab \<Rightarrow> slot \<Rightarrow> (hnode_heap \<times> htab \<times> ptr) option" where
  "h_detach h ht from = do {
     node \<leftarrow> slot_get h ht from;
     n \<leftarrow> deref h node;
     (h, ht) \<leftarrow> slot_put h ht from (hnext n);
     Some (h, ht\<lparr>hsize := hsize ht - 1\<rparr>, node)
   }"

section \<open>Progressive resizing\<close>

definition hm_start_resizing :: "hmap \<Rightarrow> hmap option" where
  "hm_start_resizing hm =
     (if tab (ht2 hm) = None then do {
        t \<leftarrow> h_init ((mask (ht1 hm) + 1) * 2);
        Some \<lparr>ht1 = t, ht2 = ht1 hm, resizing_pos = 0\<rparr> }
      else None)"

partial_function (option) hm_help_loop ::
  "hnode_heap \<Rightarrow> hmap \<Rightarrow> nat \<Rightarrow> (hnode_heap \<times> hmap) option" where
  "hm_help_loop h hm nwork =
     (if nwork < k_resizing_work \<and> hsize (ht2 hm) > 0 then do {
        let from = Slot_tab (unat (resizing_pos hm));
        p \<leftarrow> slot_get h (ht2 hm) from;
        if p = NULL then hm_help_loop h (hm\<lparr>resizing_pos := resizing_pos hm + 1\<rparr>) nwork
        else do {
          (h, t2, node) \<leftarrow> h_detach h (ht2 hm) from;
          (h, t1) \<leftarrow> h_insert h (ht1 hm) node;
          hm_help_loop h (hm\<lparr>ht1 := t1, ht2 := t2\<rparr>) (nwork + 1) } }
      else Some (h, hm))"

declare hm_help_loop.simps [code]

definition hm_help_resizing :: "hnode_heap \<Rightarrow> hmap \<Rightarrow> (hnode_heap \<times> hmap) option" where
  "hm_help_resizing h hm = do {
     (h, hm) \<leftarrow> hm_help_loop h hm 0;
     Some (h, if hsize (ht2 hm) = 0 \<and> tab (ht2 hm) \<noteq> None then hm\<lparr>ht2 := HTab0\<rparr> else hm)
   }"

section \<open>The interface\<close>

definition hm_insert :: "hnode_heap \<Rightarrow> hmap \<Rightarrow> ptr \<Rightarrow> (hnode_heap \<times> hmap) option" where
  "hm_insert h hm node = do {
     hm \<leftarrow> (if tab (ht1 hm) = None then do { t \<leftarrow> h_init 4; Some (hm\<lparr>ht1 := t\<rparr>) } else Some hm);
     (h, t1) \<leftarrow> h_insert h (ht1 hm) node;
     let hm = hm\<lparr>ht1 := t1\<rparr>;
     hm \<leftarrow> (if tab (ht2 hm) = None \<and>
               hsize (ht1 hm) div (mask (ht1 hm) + 1) > k_max_load_factor
            then hm_start_resizing hm else Some hm);
     hm_help_resizing h hm
   }"

definition hm_lookup ::
  "hnode_heap \<Rightarrow> hmap \<Rightarrow> u64 \<Rightarrow> (ptr \<Rightarrow> bool option) \<Rightarrow> (hnode_heap \<times> hmap \<times> ptr) option" where
  "hm_lookup h hm key eq = do {
     (h, hm) \<leftarrow> hm_help_resizing h hm;
     from1 \<leftarrow> h_lookup h (ht1 hm) key eq;
     case from1 of
       Some s \<Rightarrow> do { p \<leftarrow> slot_get h (ht1 hm) s; Some (h, hm, p) }
     | None \<Rightarrow> do {
         from2 \<leftarrow> h_lookup h (ht2 hm) key eq;
         case from2 of
           Some s \<Rightarrow> do { p \<leftarrow> slot_get h (ht2 hm) s; Some (h, hm, p) }
         | None \<Rightarrow> Some (h, hm, NULL) } }"

definition hm_pop ::
  "hnode_heap \<Rightarrow> hmap \<Rightarrow> u64 \<Rightarrow> (ptr \<Rightarrow> bool option) \<Rightarrow> (hnode_heap \<times> hmap \<times> ptr) option" where
  "hm_pop h hm key eq = do {
     (h, hm) \<leftarrow> hm_help_resizing h hm;
     from1 \<leftarrow> h_lookup h (ht1 hm) key eq;
     case from1 of
       Some s \<Rightarrow> do { (h, t, p) \<leftarrow> h_detach h (ht1 hm) s; Some (h, hm\<lparr>ht1 := t\<rparr>, p) }
     | None \<Rightarrow> do {
         from2 \<leftarrow> h_lookup h (ht2 hm) key eq;
         case from2 of
           Some s \<Rightarrow> do { (h, t, p) \<leftarrow> h_detach h (ht2 hm) s; Some (h, hm\<lparr>ht2 := t\<rparr>, p) }
         | None \<Rightarrow> Some (h, hm, NULL) } }"

definition hm_size :: "hmap \<Rightarrow> u64" where
  "hm_size hm = hsize (ht1 hm) + hsize (ht2 hm)"

definition hm_destroy :: "hmap \<Rightarrow> hmap" where
  "hm_destroy hm = HMap0"

end
