(* ===== verification/Hashtable_Refine.thy ===== *)
theory Hashtable_Refine
  imports Hashtable "HOL-Library.Multiset"
begin

unbundle bit_operations_syntax

text \<open>
  Refinement of the pointer code of \<open>Hashtable\<close>.  A table is abstracted to its buckets, lists of
  node addresses; a map of two tables to the set of its nodes.  The lemmas give the effect of each
  operation on the set, the behaviour of progressive resizing included: no operation loses a node,
  adds one, or touches a node outside the map.
\<close>

section \<open>Chains\<close>

fun seg :: "hnode_heap \<Rightarrow> ptr \<Rightarrow> ptr list \<Rightarrow> ptr \<Rightarrow> bool" where
  "seg h p [] q = (p = q)"
| "seg h p (x # xs) q = (p = x \<and> x \<noteq> NULL \<and> (\<exists>n. h x = Some n \<and> seg h (hnext n) xs q))"

lemma seg_append [simp]: "seg h p (xs @ ys) q = (\<exists>r. seg h p xs r \<and> seg h r ys q)"
  by (induction xs arbitrary: p) auto

lemma seg_cong: "(\<And>x. x \<in> set xs \<Longrightarrow> h' x = h x) \<Longrightarrow> seg h' p xs q = seg h p xs q"
  by (induction xs arbitrary: p) auto

lemma seg_upd [simp]: "x \<notin> set xs \<Longrightarrow> seg (h(x := v)) p xs q = seg h p xs q"
  by (rule seg_cong) auto

lemma seg_nonnull: "seg h p xs q \<Longrightarrow> x \<in> set xs \<Longrightarrow> x \<noteq> NULL \<and> (\<exists>n. h x = Some n)"
  by (induction xs arbitrary: p) auto

text \<open>The slot that points to the node after the prefix \<open>us\<close> of a bucket.\<close>

definition slot_after :: "slot \<Rightarrow> ptr list \<Rightarrow> slot" where
  "slot_after s us = (if us = [] then s else Slot_next (last us))"

fun find_slot :: "(ptr \<Rightarrow> bool) \<Rightarrow> slot \<Rightarrow> ptr list \<Rightarrow> slot option" where
  "find_slot P s [] = None"
| "find_slot P s (z # zs) = (if P z then Some s else find_slot P (Slot_next z) zs)"

lemma find_slot_None: "find_slot P s zs = None \<longleftrightarrow> (\<forall>z \<in> set zs. \<not> P z)"
  by (induction P s zs rule: find_slot.induct) auto

lemma find_slot_Some:
  "find_slot P s zs = Some s' \<Longrightarrow>
    \<exists>us x vs. zs = us @ x # vs \<and> P x \<and> (\<forall>u \<in> set us. \<not> P u) \<and> s' = slot_after s us"
proof (induction P s zs rule: find_slot.induct)
  case (2 P s z zs)
  show ?case
  proof (cases "P z")
    case True
    with 2 have "z # zs = [] @ z # zs \<and> P z \<and> (\<forall>u \<in> set []. \<not> P u) \<and> s' = slot_after s []"
      by (simp add: slot_after_def)
    then show ?thesis by blast
  next
    case False
    with 2 obtain us x vs where "zs = us @ x # vs" "P x" "\<forall>u \<in> set us. \<not> P u"
      "s' = slot_after (Slot_next z) us" by auto
    with False have "z # zs = (z # us) @ x # vs \<and> P x \<and> (\<forall>u \<in> set (z # us). \<not> P u) \<and>
        s' = slot_after s (z # us)"
      by (simp add: slot_after_def)
    then show ?thesis by blast
  qed
qed simp

text \<open>What a search finds: the nodes with the key's hash code that the comparison accepts.\<close>

definition hit :: "hnode_heap \<Rightarrow> u64 \<Rightarrow> (ptr \<Rightarrow> bool option) \<Rightarrow> ptr \<Rightarrow> bool" where
  "hit h key eq x \<longleftrightarrow> map_option hcode (h x) = Some key \<and> eq x = Some True"

definition eq_total :: "(ptr \<Rightarrow> bool option) \<Rightarrow> ptr set \<Rightarrow> bool" where
  "eq_total eq N \<longleftrightarrow> (\<forall>x \<in> N. eq x \<noteq> None)"

lemma h_lookup_loop_seg:
  assumes "seg h q zs NULL" "slot_get h ht s = Some q" "eq_total eq (set zs)"
  shows "h_lookup_loop h ht key eq s = Some (find_slot (hit h key eq) s zs)"
  using assms
proof (induction zs arbitrary: q s)
  case Nil
  then show ?case by (subst h_lookup_loop.simps) simp
next
  case (Cons z zs)
  then obtain n b where n: "h z = Some n" "z \<noteq> NULL" "q = z" "seg h (hnext n) zs NULL"
    and b: "eq z = Some b" by (auto simp: eq_total_def)
  have "h_lookup_loop h ht key eq (Slot_next z) = Some (find_slot (hit h key eq) (Slot_next z) zs)"
    using Cons.IH [OF n(4), of "Slot_next z"] Cons.prems(3) n by (auto simp: eq_total_def)
  then show ?case using n b Cons.prems(2)
    by (subst h_lookup_loop.simps) (auto simp: hit_def)
qed

section \<open>Tables\<close>

definition in_bucket :: "hnode_heap \<Rightarrow> u64 \<Rightarrow> nat \<Rightarrow> ptr \<Rightarrow> bool" where
  "in_bucket h m i x \<longleftrightarrow>
     (case map_option hcode (h x) of None \<Rightarrow> False | Some c \<Rightarrow> unat (c AND m) = i)"

lemma in_bucket_Some [simp]: "h x = Some n \<Longrightarrow> in_bucket h m i x \<longleftrightarrow> unat (hcode n AND m) = i"
  by (simp add: in_bucket_def)

text \<open>A table of \<open>n\<close> buckets, a power of two, with mask \<open>n - 1\<close>.\<close>

definition mask_for :: "u64 \<Rightarrow> nat \<Rightarrow> bool" where
  "mask_for m n \<longleftrightarrow> (\<exists>k < 64. n = 2 ^ k) \<and> n = unat m + 1"

definition htab_repr :: "hnode_heap \<Rightarrow> htab \<Rightarrow> ptr list list \<Rightarrow> bool" where
  "htab_repr h ht bs \<longleftrightarrow>
     (case tab ht of
        None \<Rightarrow> bs = [] \<and> mask ht = 0 \<and> hsize ht = 0
      | Some t \<Rightarrow>
          length t = length bs \<and> mask_for (mask ht) (length bs) \<and>
          unat (hsize ht) = length (concat bs) \<and>
          (\<forall>i < length bs. seg h (t ! i) (bs ! i) NULL \<and> (\<forall>x \<in> set (bs ! i). in_bucket h (mask ht) i x))) \<and>
     distinct (concat bs)"

definition same_hcode :: "hnode_heap \<Rightarrow> hnode_heap \<Rightarrow> bool" where
  "same_hcode h h' \<longleftrightarrow> (\<forall>x. map_option hcode (h' x) = map_option hcode (h x))"

lemma same_hcode_refl [simp]: "same_hcode h h"
  by (simp add: same_hcode_def)

lemma same_hcode_trans [trans]: "same_hcode h h' \<Longrightarrow> same_hcode h' h'' \<Longrightarrow> same_hcode h h''"
  by (simp add: same_hcode_def)

lemma in_bucket_same: "same_hcode h h' \<Longrightarrow> in_bucket h' m i x = in_bucket h m i x"
  by (simp add: in_bucket_def same_hcode_def)

lemma in_concat: "i < length bs \<Longrightarrow> x \<in> set (bs ! i) \<Longrightarrow> x \<in> set (concat bs)"
  using nth_mem by fastforce

lemma concat_index: "x \<in> set (concat bs) \<Longrightarrow> \<exists>i < length bs. x \<in> set (bs ! i)"
  by (metis UN_E in_set_conv_nth set_concat)

lemma hit_same: "same_hcode h h' \<Longrightarrow> hit h' key eq x = hit h key eq x"
  by (simp add: hit_def same_hcode_def)

lemma htab_repr_cong:
  assumes "htab_repr h ht bs" "same_hcode h h'" "\<And>x. x \<in> set (concat bs) \<Longrightarrow> h' x = h x"
  shows "htab_repr h' ht bs"
proof (cases "tab ht")
  case None
  with assms(1) show ?thesis by (simp add: htab_repr_def)
next
  case (Some t)
  have "seg h' (t ! i) (bs ! i) NULL = seg h (t ! i) (bs ! i) NULL" if "i < length bs" for i
    using that by (intro seg_cong assms(3) in_concat)
  with assms(1,2) Some show ?thesis by (simp add: htab_repr_def in_bucket_same)
qed

lemma htab_reprD:
  assumes "htab_repr h ht bs" "tab ht = Some t"
  shows "length t = length bs" "mask_for (mask ht) (length bs)" "unat (hsize ht) = length (concat bs)"
    and "i < length bs \<Longrightarrow> seg h (t ! i) (bs ! i) NULL"
    and "i < length bs \<Longrightarrow> x \<in> set (bs ! i) \<Longrightarrow> in_bucket h (mask ht) i x"
    and "distinct (concat bs)"
  using assms by (auto simp: htab_repr_def)

lemma htab_reprI:
  assumes "tab ht = Some t" "length t = length bs" "mask_for (mask ht) (length bs)"
    "unat (hsize ht) = length (concat bs)" "distinct (concat bs)"
    "\<And>i. i < length bs \<Longrightarrow> seg h (t ! i) (bs ! i) NULL \<and> (\<forall>x \<in> set (bs ! i). in_bucket h (mask ht) i x)"
  shows "htab_repr h ht bs"
  using assms by (simp add: htab_repr_def)

lemma bucket_index: "htab_repr h ht bs \<Longrightarrow> tab ht = Some t \<Longrightarrow> unat (c AND mask ht) < length bs"
  using unat_and_le [of c "mask ht"] by (auto simp: htab_repr_def mask_for_def less_Suc_eq_le)

lemma distinct_concat_disjoint:
  "distinct (concat bs) \<Longrightarrow> j < length bs \<Longrightarrow> i < length bs \<Longrightarrow> j \<noteq> i \<Longrightarrow>
    set (bs ! j) \<inter> set (bs ! i) = {}"
proof (induction bs arbitrary: i j)
  case (Cons b bs)
  then show ?case using in_concat [of _ bs] by (cases i; cases j) (fastforce simp del: set_concat)+
qed simp

lemma concat_update:
  assumes "i < length bs"
  shows "mset (concat (bs[i := ys])) + mset (bs ! i) = mset (concat bs) + mset ys"
proof -
  have "bs = take i bs @ bs ! i # drop (Suc i) bs" using assms by (rule id_take_nth_drop)
  then have "mset (concat bs) = mset (concat (take i bs)) + mset (bs ! i) + mset (concat (drop (Suc i) bs))"
    by (metis concat.simps(2) concat_append mset_append union_assoc)
  moreover have "bs[i := ys] = take i bs @ ys # drop (Suc i) bs" using assms by (rule upd_conv_take_nth_drop)
  then have "mset (concat (bs[i := ys])) = mset (concat (take i bs)) + mset ys + mset (concat (drop (Suc i) bs))"
    by (simp add: union_assoc)
  ultimately show ?thesis by (simp add: union_ac)
qed


lemma concat_update_set:
  assumes "i < length bs"
  shows "mset (concat (bs[i := x # bs ! i])) = add_mset x (mset (concat bs))"
  using concat_update [OF assms, of "x # bs ! i"] by simp

lemma length_concat_mset: "mset (concat bs) = M \<Longrightarrow> length (concat bs) = size M"
  by (metis size_mset)

lemma h_insert_repr:
  assumes r: "htab_repr h ht bs" "tab ht = Some t" and x: "h x = Some n" "x \<noteq> NULL"
    and new: "x \<notin> set (concat bs)" and cap: "length (concat bs) + 1 < 2 ^ 64"
  defines "i \<equiv> unat (hcode n AND mask ht)"
  shows "\<exists>h' ht'. h_insert h ht x = Some (h', ht') \<and> htab_repr h' ht' (bs[i := x # bs ! i]) \<and>
    i < length bs \<and> same_hcode h h' \<and> same_outside {x} h h' \<and> tab ht' \<noteq> None \<and> mask ht' = mask ht"
proof -
  note d = htab_reprD [OF r]
  have i: "i < length bs" "i < length t" using bucket_index [OF r] d(1) by (simp_all add: i_def)
  let ?h = "h(x \<mapsto> n\<lparr>hnext := t ! i\<rparr>)"
  let ?ht = "ht\<lparr>tab := Some (t[i := x]), hsize := hsize ht + 1\<rparr>"
  have e: "h_insert h ht x = Some (?h, ?ht)"
    using r(2) x i by (simp add: h_insert_def i_def [symmetric])
  have s: "same_hcode h ?h" using x by (auto simp: same_hcode_def)
  have m: "mset (concat (bs[i := x # bs ! i])) = add_mset x (mset (concat bs))"
    by (rule concat_update_set [OF i(1)])
  have "distinct (concat (bs[i := x # bs ! i]))"
    using d(6) new m by (metis distinct.simps(2) mset.simps(2) mset_eq_imp_distinct_iff)
  moreover have "unat (hsize ht + 1) = length (concat (bs[i := x # bs ! i]))"
  proof -
    have "length (concat (bs[i := x # bs ! i])) = Suc (length (concat bs))"
      using length_concat_mset [OF m] by (simp only: size_add_mset size_mset)
    moreover have "unat (1 + hsize ht) = Suc (unat (hsize ht))"
      using cap d(3) by (intro unat_Suc_small) (simp only: len_num1 len_num0 len_bit0, simp)
    ultimately show ?thesis using d(3) by (simp only: add.commute [of _ 1])
  qed
  moreover have "seg ?h (t[i := x] ! j) (bs[i := x # bs ! i] ! j) NULL \<and>
      (\<forall>y \<in> set (bs[i := x # bs ! i] ! j). in_bucket ?h (mask ht) j y)" if "j < length bs" for j
  proof -
    have "x \<notin> set (bs ! j)" using new that in_concat by metis
    moreover have "\<forall>y \<in> set (bs ! j). in_bucket ?h (mask ht) j y"
      unfolding in_bucket_same [OF s] using d(5) [OF that] by blast
    moreover have "in_bucket ?h (mask ht) i x" by (simp add: i_def)
    ultimately show ?thesis using d(4) [OF that] i x(2) by (cases "j = i") simp_all
  qed
  ultimately have "htab_repr ?h ?ht (bs[i := x # bs ! i])"
    using d(1,2) by (intro htab_reprI [where t = "t[i := x]"]) simp_all
  with e s i show ?thesis by (auto simp: same_outside_def)
qed


text \<open>A slot that points at \<open>x\<close> in bucket \<open>i\<close>, between \<open>us\<close> and \<open>vs\<close>.\<close>

definition slot_at :: "ptr list list \<Rightarrow> slot \<Rightarrow> nat \<Rightarrow> ptr list \<Rightarrow> ptr \<Rightarrow> ptr list \<Rightarrow> bool" where
  "slot_at bs s i us x vs \<longleftrightarrow> i < length bs \<and> bs ! i = us @ x # vs \<and> s = slot_after (Slot_tab i) us"

lemma h_lookup_repr:
  assumes "htab_repr h ht bs" "eq_total eq (set (concat bs))"
  shows "\<exists>r. h_lookup h ht key eq = Some r \<and>
    (case r of
       None \<Rightarrow> \<forall>x \<in> set (concat bs). \<not> hit h key eq x
     | Some s \<Rightarrow> \<exists>i us x vs. slot_at bs s i us x vs \<and> hit h key eq x)"
proof (cases "tab ht")
  case None
  with assms(1) show ?thesis by (simp add: h_lookup_def htab_repr_def)
next
  case (Some t)
  let ?i = "unat (key AND mask ht)"
  note d = htab_reprD [OF assms(1) Some]
  have i: "?i < length bs" by (rule bucket_index [OF assms(1) Some])
  let ?r = "find_slot (hit h key eq) (Slot_tab ?i) (bs ! ?i)"
  have "slot_get h ht (Slot_tab ?i) = Some (t ! ?i)" using Some i d(1) by simp
  moreover have "eq_total eq (set (bs ! ?i))"
    using assms(2) in_concat [OF i] unfolding eq_total_def by blast
  ultimately have "h_lookup h ht key eq = Some ?r"
    using Some h_lookup_loop_seg [OF d(4) [OF i]] by (simp add: h_lookup_def)
  moreover have "case ?r of None \<Rightarrow> \<forall>x \<in> set (concat bs). \<not> hit h key eq x
     | Some s \<Rightarrow> \<exists>i us x vs. slot_at bs s i us x vs \<and> hit h key eq x"
  proof (cases ?r)
    case None
    have "x \<in> set (bs ! ?i)" if "x \<in> set (concat bs)" "hit h key eq x" for x
    proof -
      from that(1) obtain b where "b \<in> set bs" "x \<in> set b" by auto
      then obtain j where j: "j < length bs" "x \<in> set (bs ! j)" by (auto simp: in_set_conv_nth)
      with that(2) d(5) [OF j] have "j = ?i" by (auto simp: hit_def in_bucket_def)
      with j show ?thesis by simp
    qed
    moreover have "\<forall>z \<in> set (bs ! ?i). \<not> hit h key eq z" using None by (simp only: find_slot_None)
    ultimately have "\<forall>x \<in> set (concat bs). \<not> hit h key eq x" by blast
    with None show ?thesis by simp
  next
    case (Some s)
    from find_slot_Some [OF this] i show ?thesis using Some by (fastforce simp: slot_at_def)
  qed
  ultimately show ?thesis by blast
qed

lemma slot_get_at:
  assumes "htab_repr h ht bs" "tab ht = Some t" "slot_at bs s i us x vs"
  shows "slot_get h ht s = Some x" and "h x \<noteq> None" and "x \<noteq> NULL"
proof -
  from assms(3) have i: "i < length bs" "bs ! i = us @ x # vs" "s = slot_after (Slot_tab i) us"
    by (auto simp: slot_at_def)
  note d = htab_reprD [OF assms(1,2)]
  have sg: "seg h (t ! i) (us @ x # vs) NULL" using d(4) [OF i(1)] i(2) by simp
  then show "h x \<noteq> None" "x \<noteq> NULL" by auto
  show "slot_get h ht s = Some x"
  proof (cases us rule: rev_cases)
    case Nil
    with sg i assms(2) d(1) show ?thesis by (auto simp: slot_after_def)
  next
    case (snoc ws w)
    with sg i show ?thesis by (auto simp: slot_after_def)
  qed
qed

lemma h_detach_repr:
  assumes r: "htab_repr h ht bs" "tab ht = Some t" and s: "slot_at bs s i us x vs"
  shows "\<exists>h' ht'. h_detach h ht s = Some (h', ht', x) \<and> htab_repr h' ht' (bs[i := us @ vs]) \<and>
    same_hcode h h' \<and> same_outside (set us) h h' \<and> tab ht' \<noteq> None \<and> mask ht' = mask ht"
proof -
  from s have i: "i < length bs" "bs ! i = us @ x # vs" "s = slot_after (Slot_tab i) us"
    by (auto simp: slot_at_def)
  note d = htab_reprD [OF r] and g = slot_get_at [OF r s]
  from g(2) obtain n where n: "h x = Some n" by auto
  obtain q where sg: "seg h (t ! i) us q" "q = x" "seg h (hnext n) vs NULL"
    using d(4) [OF i(1)] i(2) n by auto
  have m: "add_mset x (mset (concat (bs[i := us @ vs]))) = mset (concat bs)"
    using concat_update [OF i(1), of "us @ vs"] i(2) by simp
  then have m': "mset (x # concat (bs[i := us @ vs])) = mset (concat bs)" by simp
  have dist: "distinct (x # concat (bs[i := us @ vs]))"
    using d(6) m' mset_eq_imp_distinct_iff by blast
  have len: "length (concat bs) = Suc (length (concat (bs[i := us @ vs])))"
    using arg_cong [OF m', of size] by (simp only: size_mset) simp
  have sz: "unat (hsize ht - 1) = length (concat (bs[i := us @ vs]))"
  proof -
    have "unat (hsize ht) = Suc (length (concat (bs[i := us @ vs])))" using len d(3) by simp
    moreover from this have "hsize ht \<noteq> 0" by auto
    ultimately show ?thesis by (simp add: unat_minus_one)
  qed
  have db: "distinct (us @ x # vs)" using d(6) i by (metis distinct_concat_iff nth_mem)
  have frame: "set (bs ! j) \<inter> set us = {}" if "j < length bs" "j \<noteq> i" for j
    using distinct_concat_disjoint [OF d(6) that(1) i(1) that(2)] i(2) by auto
  show ?thesis
  proof (cases us rule: rev_cases)
    case Nil
    let ?ht = "ht\<lparr>tab := Some (t[i := hnext n]), hsize := hsize ht - 1\<rparr>"
    have "h_detach h ht s = Some (h, ?ht, x)"
      using g n i r(2) d(1) Nil by (simp add: h_detach_def slot_after_def)
    moreover have "htab_repr h ?ht (bs[i := us @ vs])"
      using d sz dist Nil sg i
      by (intro htab_reprI [where t = "t[i := hnext n]"]) (auto simp: nth_list_update)
    ultimately show ?thesis by auto
  next
    case (snoc ws w)
    from sg(1) snoc obtain nw where w: "h w = Some nw" "w \<noteq> NULL" "hnext nw = q" "seg h (t ! i) ws w"
      by auto
    let ?h = "h(w \<mapsto> nw\<lparr>hnext := hnext n\<rparr>)"
    let ?ht = "ht\<lparr>hsize := hsize ht - 1\<rparr>"
    have e: "h_detach h ht s = Some (?h, ?ht, x)"
      using g n i w snoc by (simp add: h_detach_def slot_after_def)
    have c: "same_hcode h ?h" using w by (auto simp: same_hcode_def)
    have "seg ?h (t ! j) (bs[i := us @ vs] ! j) NULL \<and>
        (\<forall>y \<in> set (bs[i := us @ vs] ! j). in_bucket ?h (mask ht) j y)" if j: "j < length bs" for j
    proof (cases "j = i")
      case True
      have "seg ?h (t ! i) (us @ vs) NULL" using w sg snoc db by simp
      with True i d(5) [OF i(1)] show ?thesis by (auto simp: in_bucket_same [OF c])
    next
      case False
      then have "w \<notin> set (bs ! j)" using frame [OF j] snoc by auto
      with False d(4,5) [OF j] show ?thesis by (simp add: in_bucket_same [OF c])
    qed
    then have "htab_repr ?h ?ht (bs[i := us @ vs])"
      using r(2) d(1,2) sz dist by (intro htab_reprI [where t = t]) simp_all
    with e c snoc r(2) show ?thesis by (auto simp: same_outside_def)
  qed
qed


section \<open>Two tables and progressive resizing\<close>

definition hm_inv :: "hnode_heap \<Rightarrow> hmap \<Rightarrow> ptr list list \<Rightarrow> ptr list list \<Rightarrow> bool" where
  "hm_inv h hm b1 b2 \<longleftrightarrow>
     htab_repr h (ht1 hm) b1 \<and> htab_repr h (ht2 hm) b2 \<and>
     set (concat b1) \<inter> set (concat b2) = {} \<and>
     (tab (ht1 hm) = None \<longrightarrow> tab (ht2 hm) = None) \<and>
     (\<forall>i < length b2. i < unat (resizing_pos hm) \<longrightarrow> b2 ! i = [])"

definition nodes_in :: "ptr list list \<Rightarrow> ptr list list \<Rightarrow> ptr set" where
  "nodes_in b1 b2 = set (concat b1) \<union> set (concat b2)"

lemma htab_repr_hsize:
  assumes "htab_repr h ht bs"
  shows "unat (hsize ht) = length (concat bs)"
  using assms by (cases "tab ht") (auto simp: htab_repr_def)

lemma htab_repr_tab: "htab_repr h ht bs \<Longrightarrow> concat bs \<noteq> [] \<Longrightarrow> \<exists>t. tab ht = Some t"
  by (cases "tab ht") (auto simp: htab_repr_def)

lemma hsize_pos: "htab_repr h ht bs \<Longrightarrow> hsize ht > 0 \<longleftrightarrow> concat bs \<noteq> []"
  using htab_repr_hsize [of h ht bs] by (metis length_0_conv unat_0 unat_eq_zero word_gt_0)

lemma concat_nonempty_index: "concat bs \<noteq> [] \<Longrightarrow> \<exists>j < length bs. bs ! j \<noteq> []"
  by (auto simp: in_set_conv_nth)

lemma htab_repr_length: "htab_repr h ht bs \<Longrightarrow> length bs \<le> 2 ^ 63"
proof (cases "tab ht")
  case (Some t)
  assume "htab_repr h ht bs"
  with Some obtain k where "k < 64" "length bs = 2 ^ k" by (auto simp: htab_repr_def mask_for_def)
  moreover from this have "(2::nat) ^ k \<le> 2 ^ 63" by (intro power_increasing) simp_all
  ultimately show ?thesis by simp
qed (simp add: htab_repr_def)

text \<open>Moving the first node of the bucket under the cursor from the old table to the new one.\<close>

lemma move_one_repr:
  assumes inv: "hm_inv h hm b1 b2" and i: "i < length b2" "b2 ! i = x # vs"
    and cap: "length (concat b1) + 1 < 2 ^ 64"
  shows "\<exists>t2 h' t1 b1'. h_detach h (ht2 hm) (Slot_tab i) = Some (h, t2, x) \<and>
    h_insert h (ht1 hm) x = Some (h', t1) \<and>
    hm_inv h' (hm\<lparr>ht1 := t1, ht2 := t2\<rparr>) b1' (b2[i := vs]) \<and>
    length (concat b1') = Suc (length (concat b1)) \<and>
    length (concat b2) = Suc (length (concat (b2[i := vs]))) \<and>
    nodes_in b1' (b2[i := vs]) = nodes_in b1 b2 \<and> same_hcode h h' \<and> same_outside {x} h h' \<and>
    tab t1 \<noteq> None"
proof -
  have r: "htab_repr h (ht1 hm) b1" "htab_repr h (ht2 hm) b2" "set (concat b1) \<inter> set (concat b2) = {}"
    using inv by (auto simp: hm_inv_def)
  have x2: "x \<in> set (concat b2)" using in_concat [OF i(1)] i(2) by simp
  then obtain u2 where u2: "tab (ht2 hm) = Some u2" using htab_repr_tab [OF r(2)] by fastforce
  then obtain u1 where u1: "tab (ht1 hm) = Some u1" using inv by (auto simp: hm_inv_def)
  have "slot_at b2 (Slot_tab i) i [] x vs" using i by (simp add: slot_at_def slot_after_def)
  note sl = slot_get_at [OF r(2) u2 this] h_detach_repr [OF r(2) u2 this]
  from sl(4) obtain h0 t2 where t2: "h_detach h (ht2 hm) (Slot_tab i) = Some (h0, t2, x)"
    "htab_repr h0 t2 (b2[i := vs])" "same_outside {} h h0" "tab t2 \<noteq> None" by auto
  then have [simp]: "h0 = h" by (auto simp: same_outside_def)
  have t2': "h_detach h (ht2 hm) (Slot_tab i) = Some (h, t2, x)" using t2(1) by simp
  obtain n where n: "h x = Some n" using sl(2) by auto
  have x1: "x \<notin> set (concat b1)" using x2 r(3) by blast
  from h_insert_repr [OF r(1) u1 n sl(3) x1 cap] obtain h' t1 j where
    t1: "h_insert h (ht1 hm) x = Some (h', t1)" "htab_repr h' t1 (b1[j := x # b1 ! j])" "j < length b1"
      "same_hcode h h'" "same_outside {x} h h'" "tab t1 \<noteq> None" by blast
  have m1: "mset (concat (b1[j := x # b1 ! j])) = add_mset x (mset (concat b1))"
    by (rule concat_update_set [OF t1(3)])
  have m2: "add_mset x (mset (concat (b2[i := vs]))) = mset (concat b2)"
    using concat_update [OF i(1), of vs] i(2) by simp
  have s1: "set (concat (b1[j := x # b1 ! j])) = insert x (set (concat b1))"
    using arg_cong [OF m1, of set_mset] by (simp only: set_mset_mset set_mset_add_mset_insert)
  have s2: "insert x (set (concat (b2[i := vs]))) = set (concat b2)"
    using arg_cong [OF m2, of set_mset] by (simp only: set_mset_mset set_mset_add_mset_insert)
  have "distinct (x # concat (b2[i := vs]))"
    using mset_eq_imp_distinct_iff [of "x # concat (b2[i := vs])" "concat b2"] m2 r(2)
    by (simp only: htab_repr_def mset.simps simp_thms)
  then have x2': "x \<notin> set (concat (b2[i := vs]))" by simp
  have "htab_repr h' t2 (b2[i := vs])"
  proof (rule htab_repr_cong [OF _ t1(4)])
    show "htab_repr h t2 (b2[i := vs])" using t2(2) by simp
    show "h' y = h y" if "y \<in> set (concat (b2[i := vs]))" for y
      using that x2' t1(5) unfolding same_outside_def by (metis singletonD)
  qed
  moreover have "set (concat (b1[j := x # b1 ! j])) \<inter> set (concat (b2[i := vs])) = {}"
    using x2' r(3) unfolding s1 s2 [symmetric] by blast
  moreover have "\<forall>k < length (b2[i := vs]). k < unat (resizing_pos hm) \<longrightarrow> b2[i := vs] ! k = []"
    using inv i by (auto simp: hm_inv_def nth_list_update)
  ultimately have "hm_inv h' (hm\<lparr>ht1 := t1, ht2 := t2\<rparr>) (b1[j := x # b1 ! j]) (b2[i := vs])"
    using t1(2,6) unfolding hm_inv_def by force
  moreover have "length (concat (b1[j := x # b1 ! j])) = Suc (length (concat b1))"
    using arg_cong [OF m1, of size] by (simp only: size_mset size_add_mset)
  moreover have "length (concat b2) = Suc (length (concat (b2[i := vs])))"
    using arg_cong [OF m2, of size] by (simp only: size_mset size_add_mset)
  moreover have "nodes_in (b1[j := x # b1 ! j]) (b2[i := vs]) = nodes_in b1 b2"
    unfolding nodes_in_def s1 s2 [symmetric] by blast
  ultimately show ?thesis using t2' t1(1,4,5,6) by blast
qed


lemma hm_help_loop_repr:
  assumes "hm_inv h hm b1 b2" "length (concat b1) + length (concat b2) < 2 ^ 60"
  shows "\<exists>h' hm' b1' b2'. hm_help_loop h hm w = Some (h', hm') \<and> hm_inv h' hm' b1' b2' \<and>
    nodes_in b1' b2' = nodes_in b1 b2 \<and>
    length (concat b1') + length (concat b2') = length (concat b1) + length (concat b2) \<and>
    length (concat b2') = length (concat b2) - (k_resizing_work - w) \<and>
    same_hcode h h' \<and> same_outside (nodes_in b1 b2) h h' \<and>
    (tab (ht1 hm') = None \<longleftrightarrow> tab (ht1 hm) = None)"
  using assms
proof (induction "length (concat b2) + (length b2 - unat (resizing_pos hm))"
    arbitrary: h hm b1 b2 w rule: less_induct)
  case less
  note r = less.prems(1) [unfolded hm_inv_def]
  let ?pos = "unat (resizing_pos hm)"
  show ?case
  proof (cases "w < k_resizing_work \<and> hsize (ht2 hm) > 0")
    case False
    then have "hm_help_loop h hm w = Some (h, hm)" by (subst hm_help_loop.simps) auto
    moreover have "length (concat b2) = length (concat b2) - (k_resizing_work - w)"
    proof (cases "w < k_resizing_work")
      case True
      with False r hsize_pos [of h "ht2 hm" b2] have "concat b2 = []" by blast
      then show ?thesis by (simp only: list.size)
    qed simp
    ultimately show ?thesis using less.prems(1)
      by (intro exI [of _ h] exI [of _ hm] exI [of _ b1] exI [of _ b2] conjI) (simp_all del: length_concat)
  next
    case True
    then have "concat b2 \<noteq> []" using hsize_pos r by blast
    then obtain u2 where u2: "tab (ht2 hm) = Some u2" using htab_repr_tab r by blast
    obtain j where j: "j < length b2" "b2 ! j \<noteq> []" using concat_nonempty_index \<open>concat b2 \<noteq> []\<close> by blast
    then have "?pos \<le> j" using r by (metis not_le)
    then have pos: "?pos < length b2" using j by simp
    have "htab_repr h (ht2 hm) b2" using r by blast
    note d2 = htab_reprD [OF this u2]
    have get: "slot_get h (ht2 hm) (Slot_tab ?pos) = Some (u2 ! ?pos)" using u2 d2(1) pos by simp
    show ?thesis
    proof (cases "b2 ! ?pos")
      case Nil
      then have "u2 ! ?pos = NULL" using d2(4) [OF pos] by simp
      then have step: "hm_help_loop h hm w =
          hm_help_loop h (hm\<lparr>resizing_pos := resizing_pos hm + 1\<rparr>) w"
        using True get by (subst hm_help_loop.simps) simp
      have "?pos \<noteq> j" using Nil j by auto
      then have "Suc ?pos < length b2" using \<open>?pos \<le> j\<close> j by simp
      then have "unat (1 + resizing_pos hm) = Suc ?pos"
        using htab_repr_length [of h "ht2 hm" b2] r by (intro unat_Suc_small) simp
      then have p1: "unat (resizing_pos hm + 1) = Suc ?pos" by (simp add: add.commute)
      have inv: "hm_inv h (hm\<lparr>resizing_pos := resizing_pos hm + 1\<rparr>) b1 b2"
        using r Nil p1 unfolding hm_inv_def by (auto simp: less_Suc_eq simp del: set_concat)
      have "length b2 - Suc ?pos < length b2 - ?pos" using pos by simp
      then show ?thesis using less.hyps [OF _ inv less.prems(2), of w] step p1 by simp
    next
      case (Cons x vs)
      have "length (concat b1) + 1 < 2 ^ 64"
        using less.prems(2) by (simp del: length_concat)
      from move_one_repr [OF less.prems(1) pos Cons this] obtain t2 h1 t1 b1' where
        m: "h_detach h (ht2 hm) (Slot_tab ?pos) = Some (h, t2, x)"
          "h_insert h (ht1 hm) x = Some (h1, t1)"
          "hm_inv h1 (hm\<lparr>ht1 := t1, ht2 := t2\<rparr>) b1' (b2[?pos := vs])"
          "length (concat b1') = Suc (length (concat b1))"
          "length (concat b2) = Suc (length (concat (b2[?pos := vs])))"
          "nodes_in b1' (b2[?pos := vs]) = nodes_in b1 b2" "same_hcode h h1"
          "same_outside {x} h h1" "tab t1 \<noteq> None" by blast
      have "u2 ! ?pos = x" "x \<noteq> NULL" using d2(4) [OF pos] Cons by auto
      then have step: "hm_help_loop h hm w = hm_help_loop h1 (hm\<lparr>ht1 := t1, ht2 := t2\<rparr>) (w + 1)"
        using True get m(1,2) by (subst hm_help_loop.simps) simp
      have cap: "length (concat b1') + length (concat (b2[?pos := vs])) < 2 ^ 60"
        and eq: "length (concat b1') + length (concat (b2[?pos := vs])) = length (concat b1) + length (concat b2)"
        using less.prems(2) m(4,5) by linarith+
      have "length (concat (b2[?pos := vs])) + (length (b2[?pos := vs]) - unat (resizing_pos (hm\<lparr>ht1 := t1, ht2 := t2\<rparr>)))
          < length (concat b2) + (length b2 - ?pos)"
        using m(5) by (simp del: length_concat)
      from less.hyps [OF this m(3) cap, of "w + 1"] obtain h' hm' b1'' b2'' where
        f: "hm_help_loop h1 (hm\<lparr>ht1 := t1, ht2 := t2\<rparr>) (w + 1) = Some (h', hm')"
          "hm_inv h' hm' b1'' b2''" "nodes_in b1'' b2'' = nodes_in b1' (b2[?pos := vs])"
          "length (concat b1'') + length (concat b2'') = length (concat b1') + length (concat (b2[?pos := vs]))"
          "length (concat b2'') = length (concat (b2[?pos := vs])) - (k_resizing_work - (w + 1))"
          "same_hcode h1 h'" "same_outside (nodes_in b1' (b2[?pos := vs])) h1 h'"
          "tab (ht1 hm') = None \<longleftrightarrow> tab t1 = None"
        by auto
      have "x \<in> nodes_in b1 b2" using in_concat [OF pos] Cons by (simp add: nodes_in_def del: set_concat)
      then have "same_outside (nodes_in b1 b2) h h'"
        using f(7) m(6) by (intro same_outside_trans [OF m(8), of "nodes_in b1 b2"]) auto
      moreover have "tab (ht1 hm) \<noteq> None" using r u2 by auto
      moreover have "length (concat b2'') = length (concat b2) - (k_resizing_work - w)"
        using f(5) m(5) True by (simp del: length_concat)
      ultimately show ?thesis
        using step f(1-4,8) m(6,9) eq same_hcode_trans [OF m(7) f(6)] by metis
    qed
  qed
qed


lemma help_resizing_repr:
  assumes "hm_inv h hm b1 b2" "length (concat b1) + length (concat b2) < 2 ^ 60"
  shows "\<exists>h' hm' b1' b2'. hm_help_resizing h hm = Some (h', hm') \<and> hm_inv h' hm' b1' b2' \<and>
    nodes_in b1' b2' = nodes_in b1 b2 \<and>
    length (concat b1') + length (concat b2') = length (concat b1) + length (concat b2) \<and>
    length (concat b2') = length (concat b2) - k_resizing_work \<and>
    same_hcode h h' \<and> same_outside (nodes_in b1 b2) h h' \<and>
    (tab (ht1 hm') = None \<longleftrightarrow> tab (ht1 hm) = None)"
proof -
  from hm_help_loop_repr [OF assms, of 0] obtain h' hm' b1' b2' where
    f: "hm_help_loop h hm 0 = Some (h', hm')" "hm_inv h' hm' b1' b2'"
      "nodes_in b1' b2' = nodes_in b1 b2"
      "length (concat b1') + length (concat b2') = length (concat b1) + length (concat b2)"
      "length (concat b2') = length (concat b2) - (k_resizing_work - 0)"
      "same_hcode h h'" "same_outside (nodes_in b1 b2) h h'"
      "tab (ht1 hm') = None \<longleftrightarrow> tab (ht1 hm) = None" by (elim exE conjE) (rule that; assumption)
  show ?thesis
  proof (cases "hsize (ht2 hm') = 0 \<and> tab (ht2 hm') \<noteq> None")
    case True
    have r: "htab_repr h' (ht2 hm') b2'" "htab_repr h' (ht1 hm') b1'" using f(2) by (auto simp: hm_inv_def)
    have e: "concat b2' = []" using hsize_pos [OF r(1)] True by simp
    have "nodes_in b1' [] = nodes_in b1' b2'" and "length (concat b2') = 0"
      by (simp_all only: nodes_in_def e concat.simps list.set list.size)
    moreover have "hm_inv h' (hm'\<lparr>ht2 := HTab0\<rparr>) b1' []"
      using r(2) by (simp add: hm_inv_def htab_repr_def HTab0_def)
    moreover have "hm_help_resizing h hm = Some (h', hm'\<lparr>ht2 := HTab0\<rparr>)"
      using f(1) True by (auto simp: hm_help_resizing_def)
    moreover have "length (concat b1') + length (concat []) = length (concat b1) + length (concat b2)"
      using f(4) e by simp
    moreover have "tab (ht1 (hm'\<lparr>ht2 := HTab0\<rparr>)) = None \<longleftrightarrow> tab (ht1 hm) = None" using f(8) by simp
    moreover have "length (concat []) = length (concat b2) - k_resizing_work" using f(5) e by simp
    ultimately show ?thesis using f(3,6,7) by metis
  next
    case False
    then have "hm_help_resizing h hm = Some (h', hm')" using f(1) by (auto simp: hm_help_resizing_def)
    moreover have "length (concat b2') = length (concat b2) - k_resizing_work" using f(5) by (simp only: diff_zero)
    ultimately show ?thesis using f(2-4,6-8) by metis
  qed
qed

lemma h_init_pow2:
  assumes "k < 64"
  shows "h_init (2 ^ k) = Some \<lparr>tab = Some (replicate (2 ^ k) NULL), mask = 2 ^ k - 1, hsize = 0\<rparr>"
    and "mask_for (2 ^ k - 1) (2 ^ k)"
proof -
  have u: "unat (2 ^ k :: u64) = 2 ^ k" using assms by (simp add: unat_pow2)
  have nz: "(2 ^ k :: u64) \<noteq> 0" using u by (metis power_not_zero unat_0 zero_neq_numeral)
  show "h_init (2 ^ k) = Some \<lparr>tab = Some (replicate (2 ^ k) NULL), mask = 2 ^ k - 1, hsize = 0\<rparr>"
    using nz u by (simp add: h_init_def pow2_pred_and word_gt_0)
  have "unat (2 ^ k - 1 :: u64) = 2 ^ k - 1" using u nz by (simp add: unat_minus_one)
  then show "mask_for (2 ^ k - 1) (2 ^ k)" using assms by (auto simp: mask_for_def)
qed

lemma htab_repr_fresh:
  "k < 64 \<Longrightarrow> htab_repr h \<lparr>tab = Some (replicate (2 ^ k) NULL), mask = 2 ^ k - 1, hsize = 0\<rparr>
    (replicate (2 ^ k) [])"
  by (rule htab_reprI [where t = "replicate (2 ^ k) NULL"]) (simp_all add: h_init_pow2(2))

lemma concat_replicate_Nil [simp]: "concat (replicate n []) = []"
  by (induction n) simp_all

text \<open>
  Starting a resize: the load factor bounds the mask, so doubling it does not overflow while the
  map has fewer than \<open>2 ^ 60\<close> nodes.
\<close>

lemma start_resizing_repr:
  assumes inv: "hm_inv h hm b1 b2" and cap: "length (concat b1) < 2 ^ 60"
    and t: "tab (ht1 hm) \<noteq> None" "tab (ht2 hm) = None"
    and load: "hsize (ht1 hm) div (mask (ht1 hm) + 1) > k_max_load_factor"
  shows "\<exists>hm' b1'. hm_start_resizing hm = Some hm' \<and> hm_inv h hm' b1' b1 \<and>
    concat b1' = [] \<and> concat b2 = [] \<and> tab (ht1 hm') \<noteq> None"
proof -
  have r: "htab_repr h (ht1 hm) b1" "htab_repr h (ht2 hm) b2" using inv by (auto simp: hm_inv_def)
  from t(1) obtain u where u: "tab (ht1 hm) = Some u" by auto
  note d = htab_reprD [OF r(1) u]
  have b2: "b2 = []" using r(2) t(2) by (simp add: htab_repr_def)
  obtain k where k: "k < 64" "length b1 = 2 ^ k" "length b1 = unat (mask (ht1 hm)) + 1"
    using d(2) by (auto simp: mask_for_def)
  let ?m1 = "mask (ht1 hm) + 1"
  have m1: "?m1 = 2 ^ k"
  proof -
    have "word_of_nat (unat (mask (ht1 hm)) + 1) = (word_of_nat (2 ^ k) :: u64)" using k by simp
    then show ?thesis by (simp add: add.commute)
  qed
  have u1: "unat ?m1 = 2 ^ k" unfolding m1 using k(1) by (simp add: unat_pow2)
  have "unat k_max_load_factor < unat (hsize (ht1 hm) div ?m1)" using load by (simp add: word_less_nat_alt)
  also have "\<dots> = length (concat b1) div 2 ^ k" by (simp only: unat_div_distrib u1 d(3))
  finally have "8 < length (concat b1) div 2 ^ k" by (simp add: k_max_load_factor_def)
  then have "2 ^ k * 8 < length (concat b1)"
    by (metis div_le_mono not_le nonzero_mult_div_cancel_left power_not_zero zero_neq_numeral)
  then have "(2::nat) ^ k < 2 ^ 57" using cap by (simp del: length_concat)
  then have k57: "k < 57" by (rule power_less_imp_less_exp [rotated]) simp
  let ?t = "\<lparr>tab = Some (replicate (2 ^ Suc k) NULL), mask = 2 ^ Suc k - 1, hsize = 0\<rparr> :: htab"
  have e: "?m1 * 2 = 2 ^ Suc k" unfolding m1 by simp
  have k1: "Suc k < 64" using k57 by simp
  have "hm_start_resizing hm = Some \<lparr>ht1 = ?t, ht2 = ht1 hm, resizing_pos = 0\<rparr>"
    unfolding hm_start_resizing_def e h_init_pow2(1) [OF k1] using t(2) by simp
  moreover have "hm_inv h \<lparr>ht1 = ?t, ht2 = ht1 hm, resizing_pos = 0\<rparr> (replicate (2 ^ Suc k) []) b1"
    using htab_repr_fresh [OF k1] r(1) unfolding hm_inv_def by simp
  ultimately show ?thesis using b2 
    by (intro exI [of _ "\<lparr>ht1 = ?t, ht2 = ht1 hm, resizing_pos = 0\<rparr>"] exI [of _ "replicate (2 ^ Suc k) []"]) simp
qed


section \<open>The map as a set of nodes\<close>

text \<open>
  \<open>hm_repr h hm N\<close>: the map \<open>hm\<close> holds exactly the nodes \<open>N\<close>.  The bound \<open>2 ^ 60\<close> on their number is
  far above what an address space of \<open>2 ^ 64\<close> bytes can hold, and keeps the doubled mask and the
  two counters from wrapping.
\<close>

definition hm_capacity :: nat where
  "hm_capacity = 2 ^ 60"

definition hm_repr :: "hnode_heap \<Rightarrow> hmap \<Rightarrow> ptr set \<Rightarrow> bool" where
  "hm_repr h hm N \<longleftrightarrow>
     (\<exists>b1 b2. hm_inv h hm b1 b2 \<and> nodes_in b1 b2 = N) \<and> card N < hm_capacity"

lemma hm_inv_card:
  assumes "hm_inv h hm b1 b2"
  shows "length (concat b1) + length (concat b2) = card (nodes_in b1 b2)"
proof -
  have "distinct (concat b1)" "distinct (concat b2)" and d: "set (concat b1) \<inter> set (concat b2) = {}"
    using assms by (auto simp: hm_inv_def htab_repr_def)
  then have "card (set (concat b1)) = length (concat b1)" "card (set (concat b2)) = length (concat b2)"
    by (metis distinct_card)+
  then show ?thesis unfolding nodes_in_def by (metis List.finite_set card_Un_disjoint d)
qed

lemma hm_reprE:
  assumes "hm_repr h hm N"
  obtains b1 b2 where "hm_inv h hm b1 b2" "nodes_in b1 b2 = N"
    "length (concat b1) + length (concat b2) = card N"
    "length (concat b1) + length (concat b2) < 2 ^ 60"
proof -
  from assms obtain b1 b2 where b: "hm_inv h hm b1 b2" "nodes_in b1 b2 = N" by (auto simp: hm_repr_def)
  have "length (concat b1) + length (concat b2) = card N" using hm_inv_card [OF b(1)] b(2) by simp
  then show thesis using b that assms unfolding hm_repr_def hm_capacity_def by metis
qed

lemma hm_reprI: "hm_inv h hm b1 b2 \<Longrightarrow> nodes_in b1 b2 = N \<Longrightarrow> card N < hm_capacity \<Longrightarrow> hm_repr h hm N"
  by (auto simp: hm_repr_def)

lemma hm_repr_finite: "hm_repr h hm N \<Longrightarrow> finite N"
  by (auto simp: hm_repr_def nodes_in_def)

lemma hm_repr_mem:
  assumes "hm_repr h hm N" "x \<in> N"
  shows "x \<noteq> NULL \<and> (\<exists>n. h x = Some n)"
proof -
  from hm_reprE [OF assms(1)] obtain b1 b2 where b: "hm_inv h hm b1 b2" "nodes_in b1 b2 = N" by metis
  have *: "y \<noteq> NULL \<and> (\<exists>n. h y = Some n)" if "htab_repr h ht bs" "y \<in> set (concat bs)" for ht bs y
  proof -
    from that obtain t where t: "tab ht = Some t" using htab_repr_tab by (metis empty_iff list.set(1))
    from concat_index [OF that(2)] obtain i where "i < length bs" "y \<in> set (bs ! i)" by blast
    then show ?thesis using seg_nonnull htab_reprD(4) [OF that(1) t] by metis
  qed
  show ?thesis using b assms(2) * unfolding hm_inv_def nodes_in_def by blast
qed

lemma hm_repr_empty: "hm_repr h HMap0 {}"
proof (rule hm_reprI)
  show "hm_inv h HMap0 [] []" by (simp add: hm_inv_def HMap0_def HTab0_def htab_repr_def)
  show "nodes_in [] [] = {}" by (simp add: nodes_in_def)
qed (simp add: hm_capacity_def)

lemma htab_repr_heap_cong:
  assumes "htab_repr h ht bs" "\<And>x. x \<in> set (concat bs) \<Longrightarrow> h' x = h x"
  shows "htab_repr h' ht bs"
proof (cases "tab ht")
  case None
  with assms(1) show ?thesis by (simp add: htab_repr_def)
next
  case (Some t)
  have "h' x = h x" if "i < length bs" "x \<in> set (bs ! i)" for i x
    using assms(2) in_concat [OF that] by blast
  then have "seg h' (t ! i) (bs ! i) NULL = seg h (t ! i) (bs ! i) NULL"
    "(\<forall>x \<in> set (bs ! i). in_bucket h' (mask ht) i x) = (\<forall>x \<in> set (bs ! i). in_bucket h (mask ht) i x)"
    if "i < length bs" for i
    using that seg_cong [of "bs ! i" h' h] by (simp_all add: in_bucket_def)
  with assms(1) Some show ?thesis by (simp add: htab_repr_def)
qed

lemma hm_repr_cong:
  assumes "hm_repr h hm N" "\<And>x. x \<in> N \<Longrightarrow> h' x = h x"
  shows "hm_repr h' hm N"
proof -
  from hm_reprE [OF assms(1)] obtain b1 b2 where b: "hm_inv h hm b1 b2" "nodes_in b1 b2 = N" by metis
  have "htab_repr h' (ht1 hm) b1" "htab_repr h' (ht2 hm) b2"
    using b assms(2) htab_repr_heap_cong unfolding hm_inv_def nodes_in_def by blast+
  with b(1) have "hm_inv h' hm b1 b2" unfolding hm_inv_def by blast
  then show ?thesis using b(2) assms(1) by (auto simp: hm_repr_def)
qed

lemma hm_size_repr:
  assumes "hm_repr h hm N"
  shows "unat (hm_size hm) = card N"
proof -
  from hm_reprE [OF assms] obtain b1 b2 where b: "hm_inv h hm b1 b2"
    "length (concat b1) + length (concat b2) = card N" "length (concat b1) + length (concat b2) < 2 ^ 60" by metis
  have "unat (hsize (ht1 hm)) = length (concat b1)" "unat (hsize (ht2 hm)) = length (concat b2)"
    using b(1) htab_repr_hsize by (auto simp: hm_inv_def simp del: length_concat)
  moreover from this have "unat (hsize (ht1 hm)) + unat (hsize (ht2 hm)) < 2 ^ LENGTH(64)"
    using b(3) by (simp del: length_concat)
  ultimately show ?thesis using b(2) by (simp only: hm_size_def unat_add_small)
qed

lemma help_resizing_hm_repr:
  assumes "hm_repr h hm N"
  shows "\<exists>h' hm'. hm_help_resizing h hm = Some (h', hm') \<and> hm_repr h' hm' N \<and>
    same_hcode h h' \<and> same_outside N h h'"
proof -
  from hm_reprE [OF assms] obtain b1 b2 where b: "hm_inv h hm b1 b2" "nodes_in b1 b2 = N"
    "length (concat b1) + length (concat b2) < 2 ^ 60" by metis
  have "card N < hm_capacity" using assms by (simp add: hm_repr_def)
  with help_resizing_repr [OF b(1,3)] b(2) show ?thesis by (metis hm_reprI)
qed


lemma set_concat_push:
  assumes "i < length bs"
  shows "set (concat (bs[i := x # bs ! i])) = insert x (set (concat bs))"
  using arg_cong [OF concat_update_set [OF assms, of x], of set_mset]
  by (simp only: set_mset_mset set_mset_add_mset_insert)

text \<open>Insertion adds exactly the node, which must not be in the map yet.\<close>

theorem hm_insert_repr:
  assumes "hm_repr h hm N" and x: "h x = Some n" "x \<noteq> NULL" "x \<notin> N" and cap: "card N + 1 < hm_capacity"
  shows "\<exists>h' hm'. hm_insert h hm x = Some (h', hm') \<and> hm_repr h' hm' (insert x N) \<and>
    same_hcode h h' \<and> same_outside (insert x N) h h'"
proof -
  from hm_reprE [OF assms(1)] obtain b1 b2 where b: "hm_inv h hm b1 b2" "nodes_in b1 b2 = N"
    "length (concat b1) + length (concat b2) = card N"
    "length (concat b1) + length (concat b2) < 2 ^ 60" by metis
  have fin: "finite N" using assms(1) by (rule hm_repr_finite)
  define hm0 where "hm0 = (if tab (ht1 hm) = None
    then hm\<lparr>ht1 := \<lparr>tab = Some (replicate (2 ^ 2) NULL), mask = 2 ^ 2 - 1, hsize = 0\<rparr>\<rparr> else hm)"
  define b0 where "b0 = (if tab (ht1 hm) = None then replicate (2 ^ 2) [] else b1)"
  have h4: "h_init 4 = Some \<lparr>tab = Some (replicate (2 ^ 2) NULL), mask = 2 ^ 2 - 1, hsize = 0\<rparr>"
    using h_init_pow2(1) [of 2] by simp
  have c0: "concat b0 = concat b1"
    using b(1) by (auto simp: b0_def hm_inv_def htab_repr_def split: option.splits)
  have inv0: "hm_inv h hm0 b0 b2"
  proof (cases "tab (ht1 hm) = None")
    case True
    then show ?thesis using b(1) htab_repr_fresh [of 2 h]
      by (simp add: hm0_def b0_def hm_inv_def)
  next
    case False
    with b(1) show ?thesis by (simp only: hm0_def b0_def if_False)
  qed
  have "tab (ht1 hm0) \<noteq> None" by (simp add: hm0_def)
  then obtain u where u: "tab (ht1 hm0) = Some u" by auto
  have r: "htab_repr h (ht1 hm0) b0" "htab_repr h (ht2 hm0) b2" "set (concat b0) \<inter> set (concat b2) = {}"
    using inv0 unfolding hm_inv_def by blast+
  have new: "x \<notin> set (concat b0)" "x \<notin> set (concat b2)"
    using x(3) b(2) unfolding c0 nodes_in_def by blast+
  have "length (concat b0) + 1 < 2 ^ 64" using b(4) c0 by (simp del: length_concat)
  from h_insert_repr [OF r(1) u x(1,2) new(1) this] obtain h1 t1 j where
    i: "h_insert h (ht1 hm0) x = Some (h1, t1)" "htab_repr h1 t1 (b0[j := x # b0 ! j])" "j < length b0"
      "same_hcode h h1" "same_outside {x} h h1" "tab t1 \<noteq> None" "mask t1 = mask (ht1 hm0)" by blast
  define hm1 where "hm1 = hm0\<lparr>ht1 := t1\<rparr>"
  have r2: "htab_repr h1 (ht2 hm0) b2"
  proof (rule htab_repr_cong [OF r(2) i(4)])
    show "h1 y = h y" if "y \<in> set (concat b2)" for y
      using that new(2) i(5) unfolding same_outside_def by (metis singletonD)
  qed
  have s1: "set (concat (b0[j := x # b0 ! j])) = insert x (set (concat b0))"
    by (rule set_concat_push [OF i(3)])
  have inv1: "hm_inv h1 hm1 (b0[j := x # b0 ! j]) b2"
    using i(2,6) r2 r(3) new(2) inv0 unfolding hm_inv_def s1 hm1_def by (simp del: not_None_eq)
  have n1: "nodes_in (b0[j := x # b0 ! j]) b2 = insert x N"
    using b(2) unfolding nodes_in_def s1 c0 by blast
  have card1: "card (insert x N) = card N + 1" using fin x(3) by simp
  note len1 = hm_inv_card [OF inv1, unfolded n1 card1]
  define load where "load \<longleftrightarrow> tab (ht2 hm1) = None \<and> hsize (ht1 hm1) div (mask (ht1 hm1) + 1) > k_max_load_factor"
  have t1: "tab (ht1 hm1) \<noteq> None" using i(6) by (simp add: hm1_def)
  have "\<exists>hm2 c1 c2. (if load then hm_start_resizing hm1 else Some hm1) = Some hm2 \<and>
      hm_inv h1 hm2 c1 c2 \<and> nodes_in c1 c2 = insert x N"
  proof (cases load)
    case True
    have "length (concat (b0[j := x # b0 ! j])) < 2 ^ 60"
      using len1 cap unfolding hm_capacity_def by linarith
    from start_resizing_repr [OF inv1 this t1 True [unfolded load_def, THEN conjunct1]
        True [unfolded load_def, THEN conjunct2]] obtain hm2 c1 where
      "hm_start_resizing hm1 = Some hm2" "hm_inv h1 hm2 c1 (b0[j := x # b0 ! j])"
      "concat c1 = []" "concat b2 = []" by blast
    moreover from this have "nodes_in c1 (b0[j := x # b0 ! j]) = nodes_in (b0[j := x # b0 ! j]) b2"
      by (simp only: nodes_in_def list.set Un_empty_left Un_empty_right)
    ultimately show ?thesis using True n1 by metis
  next
    case False
    with inv1 n1 show ?thesis by metis
  qed
  then obtain hm2 c1 c2 where hm2: "(if load then hm_start_resizing hm1 else Some hm1) = Some hm2"
      "hm_inv h1 hm2 c1 c2" "nodes_in c1 c2 = insert x N" by blast
  have "hm_repr h1 hm2 (insert x N)" using hm2(2,3) card1 cap by (intro hm_reprI) simp_all
  from help_resizing_hm_repr [OF this] obtain h' hm' where
    f: "hm_help_resizing h1 hm2 = Some (h', hm')" "hm_repr h' hm' (insert x N)" "same_hcode h1 h'"
      "same_outside (insert x N) h1 h'" by blast
  have "(if tab (ht1 hm) = None then do { t \<leftarrow> h_init 4; Some (hm\<lparr>ht1 := t\<rparr>) } else Some hm) = Some hm0"
    by (simp add: hm0_def h4)
  then have "hm_insert h hm x = Some (h', hm')"
    using i(1) hm2(1) f(1) unfolding hm_insert_def load_def hm1_def by simp
  moreover have "same_outside (insert x N) h h'"
    using same_outside_trans [OF i(5) f(4)] by blast
  ultimately show ?thesis using f(2) same_hcode_trans [OF i(4) f(3)] by blast
qed

text \<open>
  Lookup returns a node of the map whose hash code is the key's and which the comparison accepts,
  and \<open>NULL\<close> only when the map has no such node.  It moves nodes between the tables on the way.
\<close>

definition found :: "hnode_heap \<Rightarrow> u64 \<Rightarrow> (ptr \<Rightarrow> bool option) \<Rightarrow> ptr set \<Rightarrow> ptr \<Rightarrow> bool" where
  "found h key eq N p \<longleftrightarrow>
     (if p = NULL then \<forall>x \<in> N. \<not> hit h key eq x else p \<in> N \<and> hit h key eq p)"

lemma slot_at_mem: "slot_at bs s i us x vs \<Longrightarrow> x \<in> set (concat bs)"
  using in_concat by (fastforce simp: slot_at_def simp del: set_concat)

lemma h_lookup_cases:
  assumes "htab_repr h ht bs" "eq_total eq (set (concat bs))"
  obtains (none) "h_lookup h ht key eq = Some None" "\<forall>x \<in> set (concat bs). \<not> hit h key eq x"
  | (some) s i us x vs t where "h_lookup h ht key eq = Some (Some s)" "slot_at bs s i us x vs"
      "hit h key eq x" "tab ht = Some t" "slot_get h ht s = Some x" "x \<noteq> NULL" "x \<in> set (concat bs)"
proof -
  from h_lookup_repr [OF assms, of key] obtain r where r: "h_lookup h ht key eq = Some r"
    "case r of None \<Rightarrow> \<forall>x \<in> set (concat bs). \<not> hit h key eq x
     | Some s \<Rightarrow> \<exists>i us x vs. slot_at bs s i us x vs \<and> hit h key eq x" by blast
  show thesis
  proof (cases r)
    case None
    with r none show thesis by (simp del: set_concat)
  next
    case (Some s)
    with r obtain i us x vs where s: "slot_at bs s i us x vs" "hit h key eq x" by auto
    from slot_at_mem [OF s(1)] obtain t where t: "tab ht = Some t"
      using htab_repr_tab [OF assms(1)] by (metis empty_iff list.set(1))
    show thesis using some [OF _ s t] r Some slot_get_at [OF assms(1) t s(1)] slot_at_mem [OF s(1)] by simp
  qed
qed


lemma found_same: "same_hcode h h' \<Longrightarrow> found h' key eq N p = found h key eq N p"
  by (simp add: found_def hit_same)

lemma eq_total_mono: "eq_total eq N \<Longrightarrow> M \<subseteq> N \<Longrightarrow> eq_total eq M"
  by (auto simp: eq_total_def)

theorem hm_lookup_repr:
  assumes "hm_repr h hm N" "eq_total eq N"
  shows "\<exists>h' hm' p. hm_lookup h hm key eq = Some (h', hm', p) \<and> hm_repr h' hm' N \<and>
    same_hcode h h' \<and> same_outside N h h' \<and> found h key eq N p"
proof -
  from help_resizing_hm_repr [OF assms(1)] obtain h1 hm1 where
    f: "hm_help_resizing h hm = Some (h1, hm1)" "hm_repr h1 hm1 N" "same_hcode h h1" "same_outside N h h1"
    by blast
  from hm_reprE [OF f(2)] obtain b1 b2 where b: "hm_inv h1 hm1 b1 b2" "nodes_in b1 b2 = N" by metis
  have r: "htab_repr h1 (ht1 hm1) b1" "htab_repr h1 (ht2 hm1) b2" using b(1) unfolding hm_inv_def by blast+
  have N: "set (concat b1) \<subseteq> N" "set (concat b2) \<subseteq> N" "N \<subseteq> set (concat b1) \<union> set (concat b2)"
    using b(2) unfolding nodes_in_def by blast+
  note e1 = eq_total_mono [OF assms(2) N(1)] and e2 = eq_total_mono [OF assms(2) N(2)]
  have "\<exists>p. hm_lookup h hm key eq = Some (h1, hm1, p) \<and> found h1 key eq N p"
  using r(1) e1
  proof (cases rule: h_lookup_cases [where key = key])
    case (some s i us x vs t)
    then show ?thesis using f(1) N(1) by (auto simp: hm_lookup_def found_def)
  next
    case none1: none
    show ?thesis
    using r(2) e2
  proof (cases rule: h_lookup_cases [where key = key])
      case (some s i us x vs t)
      then show ?thesis using f(1) N(2) none1 by (auto simp: hm_lookup_def found_def)
    next
      case none
      have "\<forall>x \<in> N. \<not> hit h1 key eq x" using none(2) none1(2) N(3) by blast
      then show ?thesis using f(1) none(1) none1(1) by (simp add: hm_lookup_def found_def)
    qed
  qed
  then show ?thesis using f(2-4) found_same [OF f(3)] by blast
qed

lemma set_concat_drop:
  assumes "htab_repr h ht bs" "slot_at bs s i us x vs"
  shows "set (concat (bs[i := us @ vs])) = set (concat bs) - {x}"
proof -
  have i: "i < length bs" "bs ! i = us @ x # vs" using assms(2) by (auto simp: slot_at_def)
  have m: "mset (x # concat (bs[i := us @ vs])) = mset (concat bs)"
    using concat_update [OF i(1), of "us @ vs"] i(2) by simp
  have "distinct (concat bs)" using assms(1) by (simp add: htab_repr_def)
  then have "distinct (x # concat (bs[i := us @ vs]))" using m mset_eq_imp_distinct_iff by blast
  moreover have "set (x # concat (bs[i := us @ vs])) = set (concat bs)"
    using m mset_eq_setD by blast
  ultimately show ?thesis by (metis Diff_insert_absorb distinct.simps(2) list.simps(15))
qed

text \<open>Popping removes exactly the node it returns.\<close>

theorem hm_pop_repr:
  assumes "hm_repr h hm N" "eq_total eq N"
  shows "\<exists>h' hm' p. hm_pop h hm key eq = Some (h', hm', p) \<and> hm_repr h' hm' (N - {p}) \<and>
    same_hcode h h' \<and> same_outside N h h' \<and> found h key eq N p"
proof -
  from help_resizing_hm_repr [OF assms(1)] obtain h1 hm1 where
    f: "hm_help_resizing h hm = Some (h1, hm1)" "hm_repr h1 hm1 N" "same_hcode h h1" "same_outside N h h1"
    by blast
  from hm_reprE [OF f(2)] obtain b1 b2 where b: "hm_inv h1 hm1 b1 b2" "nodes_in b1 b2 = N" by metis
  have r: "htab_repr h1 (ht1 hm1) b1" "htab_repr h1 (ht2 hm1) b2"
    and disj: "set (concat b1) \<inter> set (concat b2) = {}"
    using b(1) unfolding hm_inv_def by blast+
  have N: "set (concat b1) \<subseteq> N" "set (concat b2) \<subseteq> N" "N = set (concat b1) \<union> set (concat b2)"
    using b(2) unfolding nodes_in_def by blast+
  have card: "card (N - {p}) < hm_capacity" for p
    using assms(1) hm_repr_finite [OF assms(1)] card_Diff1_le [of N p] by (auto simp: hm_repr_def)
  note e1 = eq_total_mono [OF assms(2) N(1)] and e2 = eq_total_mono [OF assms(2) N(2)]
  have outside: "same_outside N h h2" if "same_outside S h1 h2" "S \<subseteq> N" for S h2
    using same_outside_trans [OF f(4) that(1)] that(2) by blast
  show ?thesis
  using r(1) e1
  proof (cases rule: h_lookup_cases [where key = key])
    case (some s i us x vs t)
    from h_detach_repr [OF r(1) some(4,2)] obtain h2 t1 where
      d: "h_detach h1 (ht1 hm1) s = Some (h2, t1, x)" "htab_repr h2 t1 (b1[i := us @ vs])"
        "same_hcode h1 h2" "same_outside (set us) h1 h2" "tab t1 \<noteq> None" by blast
    have us: "set us \<subseteq> set (concat b1)"
      using some(2) in_concat [of i b1] by (fastforce simp: slot_at_def simp del: set_concat)
    have "htab_repr h2 (ht2 hm1) b2"
    proof (rule htab_repr_cong [OF r(2) d(3)])
      show "h2 y = h1 y" if "y \<in> set (concat b2)" for y
        using that us disj d(4) unfolding same_outside_def by (metis IntI empty_iff subsetD)
    qed
    moreover note dr = set_concat_drop [OF r(1) some(2)]
    ultimately have "hm_inv h2 (hm1\<lparr>ht1 := t1\<rparr>) (b1[i := us @ vs]) b2"
      using d(2,5) b(1) disj unfolding hm_inv_def dr by auto
    moreover have "nodes_in (b1[i := us @ vs]) b2 = N - {x}"
      using some(7) disj unfolding nodes_in_def dr N(3) by blast
    ultimately have "hm_repr h2 (hm1\<lparr>ht1 := t1\<rparr>) (N - {x})" using card by (intro hm_reprI)
    moreover have "hm_pop h hm key eq = Some (h2, hm1\<lparr>ht1 := t1\<rparr>, x)"
      using f(1) some(1) d(1) by (simp add: hm_pop_def)
    moreover have "found h key eq N x"
      using some N(1) hit_same [OF f(3)] by (auto simp: found_def simp del: set_concat)
    ultimately show ?thesis
      using outside [OF d(4)] us N(1) same_hcode_trans [OF f(3) d(3)] by blast
  next
    case none1: none
    show ?thesis
    using r(2) e2
  proof (cases rule: h_lookup_cases [where key = key])
      case (some s i us x vs t)
      from h_detach_repr [OF r(2) some(4,2)] obtain h2 t2 where
        d: "h_detach h1 (ht2 hm1) s = Some (h2, t2, x)" "htab_repr h2 t2 (b2[i := us @ vs])"
          "same_hcode h1 h2" "same_outside (set us) h1 h2" "tab t2 \<noteq> None" by blast
      have us: "set us \<subseteq> set (concat b2)"
        using some(2) in_concat [of i b2] by (fastforce simp: slot_at_def simp del: set_concat)
      have "htab_repr h2 (ht1 hm1) b1"
      proof (rule htab_repr_cong [OF r(1) d(3)])
        show "h2 y = h1 y" if "y \<in> set (concat b1)" for y
          using that us disj d(4) unfolding same_outside_def by (metis IntI empty_iff subsetD)
      qed
      moreover note dr = set_concat_drop [OF r(2) some(2)]
      moreover have "tab (ht1 hm1) \<noteq> None" using b(1) some(4) by (auto simp: hm_inv_def)
      moreover have "(b2[i := us @ vs]) ! k = []" if "k < length b2" "k < unat (resizing_pos hm1)" for k
        using that b(1) some(2) by (auto simp: hm_inv_def slot_at_def nth_list_update)
      ultimately have "hm_inv h2 (hm1\<lparr>ht2 := t2\<rparr>) b1 (b2[i := us @ vs])"
        using d(2,5) disj unfolding hm_inv_def dr by auto
      moreover have "nodes_in b1 (b2[i := us @ vs]) = N - {x}"
        using some(7) disj unfolding nodes_in_def dr N(3) by blast
      ultimately have "hm_repr h2 (hm1\<lparr>ht2 := t2\<rparr>) (N - {x})" using card by (intro hm_reprI)
      moreover have "hm_pop h hm key eq = Some (h2, hm1\<lparr>ht2 := t2\<rparr>, x)"
        using f(1) none1(1) some(1) d(1) by (simp add: hm_pop_def)
      moreover have "found h key eq N x"
        using some N(2) hit_same [OF f(3)] by (auto simp: found_def simp del: set_concat)
      ultimately show ?thesis
        using outside [OF d(4)] us N(2) same_hcode_trans [OF f(3) d(3)] by blast
    next
      case none
      have "\<forall>x \<in> N. \<not> hit h1 key eq x" using none(2) none1(2) N(3) by blast
      then have "found h key eq N NULL" using hit_same [OF f(3)] by (simp add: found_def)
      moreover have "hm_pop h hm key eq = Some (h1, hm1, NULL)"
        using f(1) none(1) none1(1) by (simp add: hm_pop_def)
      moreover have "N - {NULL} = N" using hm_repr_mem [OF f(2)] by blast
      ultimately show ?thesis using f by metis
    qed
  qed
qed

end
