(* ===== verification/Node_Index.thy ===== *)
theory Node_Index
  imports Hashtable_Refine
begin

text \<open>
  The contract between the hash map and its two clients, the keyspace of the server (\<open>Entry\<close>
  objects keyed by \<open>key\<close>) and the name index of a sorted set (\<open>ZNode\<close> objects keyed by \<open>name\<close>).
  The clients embed the node in an object, store the hash of the object's key in \<open>hcode\<close> and pass a
  comparison.  The locale \<open>node_index\<close> states what the container promises about node sets; the
  lemmas inside it give a finite map from keys to nodes, for any embedding.
\<close>

section \<open>Keyed node sets\<close>

text \<open>
  \<open>key\<close> reads the key of the object around a node.  A set of nodes is keyed when no two nodes have
  the same key and every stored hash code is the hash of the key.
\<close>

definition keyed :: "('k \<Rightarrow> u64) \<Rightarrow> (ptr \<Rightarrow> 'k) \<Rightarrow> hnode_heap \<Rightarrow> ptr set \<Rightarrow> bool" where
  "keyed hash key h N \<longleftrightarrow>
     inj_on key N \<and> (\<forall>x \<in> N. map_option hcode (h x) = Some (hash (key x)))"

lemma keyed_same: "same_hcode h h' \<Longrightarrow> keyed hash key h' N = keyed hash key h N"
  by (simp add: keyed_def same_hcode_def)

lemma keyed_insert:
  "keyed hash key h N \<Longrightarrow> map_option hcode (h x) = Some (hash (key x)) \<Longrightarrow> key x \<notin> key ` N \<Longrightarrow>
    keyed hash key h (insert x N)"
  by (auto simp: keyed_def)

lemma keyed_subset: "keyed hash key h N \<Longrightarrow> M \<subseteq> N \<Longrightarrow> keyed hash key h M"
  by (auto simp: keyed_def intro: inj_on_subset)

lemma keyed_cong: "(\<And>x. x \<in> N \<Longrightarrow> key' x = key x) \<Longrightarrow> keyed hash key' h N = keyed hash key h N"
  by (auto simp: keyed_def inj_on_def)

lemma keyed_heap_cong: "(\<And>x. x \<in> N \<Longrightarrow> h' x = h x) \<Longrightarrow> keyed hash key h' N = keyed hash key h N"
  by (simp add: keyed_def)

text \<open>What a search by key returns: the node of that key, or \<open>NULL\<close> when there is none.\<close>

definition node_for :: "(ptr \<Rightarrow> 'k) \<Rightarrow> ptr set \<Rightarrow> 'k \<Rightarrow> ptr \<Rightarrow> bool" where
  "node_for key N k p \<longleftrightarrow> (if p = NULL then k \<notin> key ` N else p \<in> N \<and> key p = k)"

section \<open>The interface\<close>

locale node_index =
  fixes rep :: "hnode_heap \<Rightarrow> 'm \<Rightarrow> ptr set \<Rightarrow> bool"
    and capacity :: nat
    and find_node :: "hnode_heap \<Rightarrow> 'm \<Rightarrow> u64 \<Rightarrow> (ptr \<Rightarrow> bool option) \<Rightarrow> (hnode_heap \<times> 'm \<times> ptr) option"
    and add_node :: "hnode_heap \<Rightarrow> 'm \<Rightarrow> ptr \<Rightarrow> (hnode_heap \<times> 'm) option"
    and take_node :: "hnode_heap \<Rightarrow> 'm \<Rightarrow> u64 \<Rightarrow> (ptr \<Rightarrow> bool option) \<Rightarrow> (hnode_heap \<times> 'm \<times> ptr) option"
  assumes rep_nonnull: "rep h m N \<Longrightarrow> x \<in> N \<Longrightarrow> x \<noteq> NULL"
    and find_law: "rep h m N \<Longrightarrow> eq_total eq N \<Longrightarrow>
      \<exists>h' m' p. find_node h m c eq = Some (h', m', p) \<and> rep h' m' N \<and>
        same_hcode h h' \<and> same_outside N h h' \<and> found h c eq N p"
    and add_law: "rep h m N \<Longrightarrow> h x = Some n \<Longrightarrow> x \<noteq> NULL \<Longrightarrow> x \<notin> N \<Longrightarrow> card N + 1 < capacity \<Longrightarrow>
      \<exists>h' m'. add_node h m x = Some (h', m') \<and> rep h' m' (insert x N) \<and>
        same_hcode h h' \<and> same_outside (insert x N) h h'"
    and take_law: "rep h m N \<Longrightarrow> eq_total eq N \<Longrightarrow>
      \<exists>h' m' p. take_node h m c eq = Some (h', m', p) \<and> rep h' m' (N - {p}) \<and>
        same_hcode h h' \<and> same_outside N h h' \<and> found h c eq N p"
begin

text \<open>
  With the comparison the clients pass, a hit is a node of the searched key: the hash code filters
  only nodes that the comparison would reject.
\<close>

lemma found_node_for:
  assumes "keyed hash key h N" "\<And>x. x \<in> N \<Longrightarrow> eq x = Some (key x = k)"
  shows "found h (hash k) eq N p \<longleftrightarrow> node_for key N k p"
  using assms by (auto simp: found_def node_for_def hit_def keyed_def)

lemma eq_total_key: "(\<And>x. x \<in> N \<Longrightarrow> eq x = Some (key x = k)) \<Longrightarrow> eq_total eq N"
  by (simp add: eq_total_def)

lemma find_key:
  assumes "rep h m N" "keyed hash key h N" "\<And>x. x \<in> N \<Longrightarrow> eq x = Some (key x = k)"
  shows "\<exists>h' m' p. find_node h m (hash k) eq = Some (h', m', p) \<and> rep h' m' N \<and>
    keyed hash key h' N \<and> same_hcode h h' \<and> same_outside N h h' \<and> node_for key N k p"
proof -
  have "eq_total eq N" using assms(3) by (rule eq_total_key)
  from find_law [OF assms(1) this, where c = "hash k"] obtain h' m' p where
    f: "find_node h m (hash k) eq = Some (h', m', p)" "rep h' m' N" "same_hcode h h'"
      "same_outside N h h'" "found h (hash k) eq N p" by blast
  then show ?thesis
    using found_node_for [OF assms(2,3)] keyed_same [OF f(3)] assms(2) by blast
qed

lemma add_key:
  assumes "rep h m N" "keyed hash key h N" "card N + 1 < capacity"
    and "map_option hcode (h x) = Some (hash (key x))" "x \<noteq> NULL" "x \<notin> N" "key x \<notin> key ` N"
  shows "\<exists>h' m'. add_node h m x = Some (h', m') \<and> rep h' m' (insert x N) \<and>
    keyed hash key h' (insert x N) \<and> same_hcode h h' \<and> same_outside (insert x N) h h'"
proof -
  from assms(4) obtain n where "h x = Some n" by auto
  from add_law [OF assms(1) this assms(5,6,3)] obtain h' m' where
    f: "add_node h m x = Some (h', m')" "rep h' m' (insert x N)" "same_hcode h h'"
      "same_outside (insert x N) h h'" by blast
  then show ?thesis
    using keyed_same [OF f(3)] keyed_insert [OF assms(2,4,7)] by blast
qed

lemma take_key:
  assumes "rep h m N" "keyed hash key h N" "\<And>x. x \<in> N \<Longrightarrow> eq x = Some (key x = k)"
  shows "\<exists>h' m' p. take_node h m (hash k) eq = Some (h', m', p) \<and> rep h' m' (N - {p}) \<and>
    keyed hash key h' (N - {p}) \<and> same_hcode h h' \<and> same_outside N h h' \<and> node_for key N k p"
proof -
  have "eq_total eq N" using assms(3) by (rule eq_total_key)
  from take_law [OF assms(1) this, where c = "hash k"] obtain h' m' p where
    f: "take_node h m (hash k) eq = Some (h', m', p)" "rep h' m' (N - {p})" "same_hcode h h'"
      "same_outside N h h'" "found h (hash k) eq N p" by blast
  moreover have "keyed hash key h' (N - {p})"
    using keyed_same [OF f(3)] keyed_subset [OF assms(2)] by blast
  ultimately show ?thesis using found_node_for [OF assms(2,3)] by blast
qed

text \<open>A key that was taken is gone, the others are found as before.\<close>

lemma node_for_after_take:
  assumes "node_for key N k p" "inj_on key N" "\<And>x. x \<in> N \<Longrightarrow> x \<noteq> NULL"
  shows "key ` (N - {p}) = key ` N - {k}"
proof (cases "p = NULL")
  case True
  then have "p \<notin> N" "k \<notin> key ` N" using assms(1,3) by (auto simp: node_for_def)
  then show ?thesis by simp
next
  case False
  then have "p \<in> N" "k = key p" using assms(1) by (auto simp: node_for_def)
  then show ?thesis using inj_on_image_set_diff [OF assms(2), of N "{p}"] by simp
qed

end

interpretation hm: node_index hm_repr hm_capacity hm_lookup hm_insert hm_pop
proof
  show "x \<noteq> NULL" if "hm_repr h m N" "x \<in> N" for h m N x
    using hm_repr_mem [OF that] by blast
qed (fact hm_lookup_repr hm_insert_repr hm_pop_repr)+

section \<open>Properties of the hash map\<close>

text \<open>A map with one node, the example of the witnesses.\<close>

definition one_node :: hnode_heap where
  "one_node = [1 \<mapsto> \<lparr>hnext = NULL, hcode = 5\<rparr>]"

lemma keyed_one_node [simp]: "keyed (\<lambda>_. 5) (\<lambda>_. ()) one_node N \<longleftrightarrow> N \<subseteq> {1}"
  by (auto simp: keyed_def one_node_def inj_on_def split: if_splits)

lemma one_node_map:
  "\<exists>h hm. hm_repr h hm {1} \<and> keyed (\<lambda>_. 5) (\<lambda>_. ()) h {1}"
  using hm.add_key [OF hm_repr_empty, where hash = "\<lambda>_. 5" and key = "\<lambda>_. ()" and x = 1 and h = one_node]
  by (auto simp: hm_capacity_def) (auto simp: one_node_def)

text \<open>
  C18. Insertion.  \<open>hm_insert\<close> of a node whose key is not in the map returns a map with exactly this node
  added, in every state of the progressive resizing and also when it starts one; hash codes and all
  memory outside the nodes of the map are as before.
\<close>

theorem hm_insert_correct:
  assumes "hm_repr h hm N" "keyed hash key h N" "card N + 1 < hm_capacity"
    and "map_option hcode (h x) = Some (hash (key x))" "x \<noteq> NULL" "x \<notin> N" "key x \<notin> key ` N"
  shows "\<exists>h' hm'. hm_insert h hm x = Some (h', hm') \<and> hm_repr h' hm' (insert x N) \<and>
    keyed hash key h' (insert x N) \<and> same_hcode h h' \<and> same_outside (insert x N) h h'"
  using assms by (rule hm.add_key)

theorem hm_insert_correct_witness:
  "\<exists>h' hm'. hm_insert one_node HMap0 1 = Some (h', hm') \<and> hm_repr h' hm' {1}"
  using hm_insert_correct [OF hm_repr_empty, where hash = "\<lambda>_. 5" and key = "\<lambda>_. ()" and x = 1 and h = one_node]
  by (auto simp: hm_capacity_def) (auto simp: one_node_def)

text \<open>
  C19. Lookup.  \<open>hm_lookup\<close> with the hash of a key and the comparison for it returns the node of that
  key, or \<open>NULL\<close> exactly when the map has none; the nodes it moves between the tables on the way stay in
  the map.
\<close>

theorem hm_lookup_correct:
  assumes "hm_repr h hm N" "keyed hash key h N" "\<And>x. x \<in> N \<Longrightarrow> eq x = Some (key x = k)"
  shows "\<exists>h' hm' p. hm_lookup h hm (hash k) eq = Some (h', hm', p) \<and> hm_repr h' hm' N \<and>
    keyed hash key h' N \<and> (if p = NULL then k \<notin> key ` N else p \<in> N \<and> key p = k)"
  using hm.find_key [OF assms] unfolding node_for_def by blast

theorem hm_lookup_correct_witness:
  "\<exists>h hm h' hm'. hm_repr h hm {1} \<and> hm_lookup h hm 5 (\<lambda>_. Some True) = Some (h', hm', 1)"
proof -
  from one_node_map obtain h hm where r: "hm_repr h hm {1}" "keyed (\<lambda>_. 5) (\<lambda>_. ()) h {1}" by blast
  from hm_lookup_correct [OF r, of "\<lambda>_. Some True" "()"] r(1) show ?thesis by (auto split: if_splits)
qed

text \<open>
  C20. Removal.  \<open>hm_pop\<close> detaches exactly the node of the key it is called with and returns it; no
  other node leaves the map, and with no node of that key the map keeps its nodes and \<open>NULL\<close> is returned.
\<close>

theorem hm_pop_correct:
  assumes "hm_repr h hm N" "keyed hash key h N" "\<And>x. x \<in> N \<Longrightarrow> eq x = Some (key x = k)"
  shows "\<exists>h' hm' p. hm_pop h hm (hash k) eq = Some (h', hm', p) \<and> hm_repr h' hm' (N - {p}) \<and>
    keyed hash key h' (N - {p}) \<and> key ` (N - {p}) = key ` N - {k} \<and>
    (if p = NULL then k \<notin> key ` N else p \<in> N \<and> key p = k)"
proof -
  from hm.take_key [OF assms] obtain h' hm' p where
    f: "hm_pop h hm (hash k) eq = Some (h', hm', p)" "hm_repr h' hm' (N - {p})"
      "keyed hash key h' (N - {p})" "node_for key N k p" by blast
  have "key ` (N - {p}) = key ` N - {k}"
    using assms(2) hm.rep_nonnull [OF assms(1)] by (intro hm.node_for_after_take [OF f(4)]) (auto simp: keyed_def)
  with f show ?thesis unfolding node_for_def by blast
qed

theorem hm_pop_correct_witness:
  "\<exists>h hm h' hm'. hm_repr h hm {1} \<and> hm_pop h hm 5 (\<lambda>_. Some True) = Some (h', hm', 1) \<and> hm_repr h' hm' {}"
proof -
  from one_node_map obtain h hm where r: "hm_repr h hm {1}" "keyed (\<lambda>_. 5) (\<lambda>_. ()) h {1}" by blast
  from hm_pop_correct [OF r, of "\<lambda>_. Some True" "()"] r(1) show ?thesis by (auto split: if_splits)
qed

text \<open>
  C21. Progress of the resizing.  A call of \<open>hm_help_resizing\<close> returns with at most \<open>k_resizing_work\<close>
  nodes moved: the old table has exactly that many nodes less (or none), the total is unchanged and so
  is the set of nodes.  A resize of \<open>n\<close> nodes is over after \<open>n / 128\<close> calls, rounded up.
\<close>

theorem hm_help_resizing_progress:
  assumes "hm_inv h hm b1 b2" "length (concat b1) + length (concat b2) < 2 ^ 60"
  shows "\<exists>h' hm' b1' b2'. hm_help_resizing h hm = Some (h', hm') \<and> hm_inv h' hm' b1' b2' \<and>
    nodes_in b1' b2' = nodes_in b1 b2 \<and>
    length (concat b1') + length (concat b2') = length (concat b1) + length (concat b2) \<and>
    length (concat b2') = length (concat b2) - 128"
  using help_resizing_repr [OF assms] unfolding k_resizing_work_def by metis

text \<open>A map in the middle of a resize: its node is still in the older table.\<close>

definition resizing_map :: hmap where
  "resizing_map = \<lparr>ht1 = \<lparr>tab = Some (replicate 8 NULL), mask = 7, hsize = 0\<rparr>,
     ht2 = \<lparr>tab = Some [NULL, 1, NULL, NULL], mask = 3, hsize = 1\<rparr>, resizing_pos = 0\<rparr>"

lemma resizing_map_inv: "hm_inv one_node resizing_map (replicate 8 []) [[], [1], [], []]"
proof -
  have "mask_for 7 8" "mask_for 3 4" by (auto simp: mask_for_def intro: exI [of _ 3] exI [of _ 2])
  then show ?thesis
    by (auto simp: hm_inv_def htab_repr_def resizing_map_def one_node_def in_bucket_def less_Suc_eq numeral_eq_Suc
      nth_Cons split: nat.splits)
qed

theorem hm_help_resizing_progress_witness:
  "\<exists>h' hm' b1' b2'. hm_help_resizing one_node resizing_map = Some (h', hm') \<and> hm_inv h' hm' b1' b2' \<and>
    concat b2' = [] \<and> set (concat b1') = {1}"
proof -
  from hm_help_resizing_progress [OF resizing_map_inv] obtain h' hm' b1' b2' where
    r: "hm_help_resizing one_node resizing_map = Some (h', hm')" "hm_inv h' hm' b1' b2'"
      "nodes_in b1' b2' = {1}" "length (concat b2') = 0" by (auto simp: nodes_in_def simp del: length_concat)
  then have "concat b2' = []" by (simp del: length_concat)
  moreover have "set (concat b1') = {1}"
    using r(3) unfolding nodes_in_def \<open>concat b2' = []\<close> list.set(1) Un_empty_right .
  ultimately show ?thesis using r(1,2) by blast
qed

text \<open>\<open>hm_size\<close> is the number of nodes, with the nodes of both tables counted once.\<close>

theorem hm_size_correct:
  assumes "hm_repr h hm N"
  shows "unat (hm_size hm) = card N"
  using assms by (rule hm_size_repr)

theorem hm_size_correct_witness: "\<exists>h hm. hm_repr h hm {1} \<and> hm_size hm = 1"
proof -
  from one_node_map obtain h hm where r: "hm_repr h hm {1}" by blast
  from hm_size_correct [OF this] r show ?thesis by (auto simp: word_unat_eq_iff)
qed

end
