(* ===== verification/CLib.thy ===== *)
theory CLib
  imports Prelude "HOL-Library.List_Lexorder" "HOL-Library.Product_Lexorder"
begin

unbundle bit_operations_syntax

text \<open>
  What the sources use of the C library and of the C++ strings, on byte lists: the object
  representation of integers (\<open>memcpy\<close> of a little-endian integer), \<open>memcmp\<close>, \<open>strcasecmp\<close>,
  \<open>strtoll\<close>, \<open>strtod\<close>, the comparison of doubles; and the functions of the repository that are thin
  layers on them: \<open>str_hash\<close>, \<open>str2int\<close>, \<open>str2dbl\<close>, \<open>cmd_is\<close>.

  A double is its 64-bit pattern.  Comparison reads the pattern as sign and magnitude, which orders
  all doubles that are not NaN as their values, and \<open>strtod\<close> rounds the decimal value to nearest,
  ties to even, as IEEE 754 arithmetic of the platform does.
\<close>

definition ascii :: "string \<Rightarrow> byte list" where
  "ascii s = map of_char s"

section \<open>Object representation of integers\<close>

primrec le_encode :: "nat \<Rightarrow> nat \<Rightarrow> byte list" where
  "le_encode 0 x = []"
| "le_encode (Suc n) x = of_nat x # le_encode n (x div 256)"

primrec le_decode :: "byte list \<Rightarrow> nat" where
  "le_decode [] = 0"
| "le_decode (b # bs) = unat b + 256 * le_decode bs"

definition bytes32 :: "u32 \<Rightarrow> byte list" where
  "bytes32 w = le_encode 4 (unat w)"

definition bytes64 :: "u64 \<Rightarrow> byte list" where
  "bytes64 w = le_encode 8 (unat w)"

text \<open>\<open>memcpy(&w, &data[pos], n)\<close>; reading past the end of the buffer is \<open>None\<close>.\<close>

definition read32 :: "byte list \<Rightarrow> nat \<Rightarrow> u32 option" where
  "read32 data pos = map_option (\<lambda>bs. of_nat (le_decode bs)) (slice_opt data pos 4)"

definition read64 :: "byte list \<Rightarrow> nat \<Rightarrow> u64 option" where
  "read64 data pos = map_option (\<lambda>bs. of_nat (le_decode bs)) (slice_opt data pos 8)"

lemma length_le_encode [simp]: "length (le_encode n x) = n"
  by (induction n arbitrary: x) simp_all

lemma length_bytes [simp]: "length (bytes32 w) = 4" "length (bytes64 v) = 8"
  by (simp_all add: bytes32_def bytes64_def)

lemma unat_of_nat_byte: "unat (of_nat x :: byte) = x mod 256"
  by (simp add: unsigned_of_nat take_bit_eq_mod)

lemma le_decode_encode: "le_decode (le_encode n x) = x mod 256 ^ n"
proof (induction n arbitrary: x)
  case (Suc n)
  then show ?case
    by (simp add: unat_of_nat_byte mod_mult2_eq)
qed simp

lemma le_decode_bytes [simp]:
  "of_nat (le_decode (bytes32 w)) = w" "of_nat (le_decode (bytes64 v)) = v"
proof -
  have "unat w < 256 ^ 4" "unat v < 256 ^ 8"
    using unat_less_pow2 [of w] unat_less_pow2 [of v] by simp_all
  then show "of_nat (le_decode (bytes32 w)) = w" "of_nat (le_decode (bytes64 v)) = v"
    by (simp_all add: bytes32_def bytes64_def le_decode_encode)
qed

lemma read_bytes32: "read32 (pre @ bytes32 w @ rest) (length pre) = Some w"
  by (simp add: read32_def)

lemma read32_append: "read32 bs i = Some w \<Longrightarrow> read32 (bs @ junk) i = Some w"
  by (auto simp: read32_def slice_opt_def split: if_splits)

lemma read_bytes64: "read64 (pre @ bytes64 w @ rest) (length pre) = Some w"
  by (simp add: read64_def)

section \<open>Memory and string comparison\<close>

fun memcmp_list :: "byte list \<Rightarrow> byte list \<Rightarrow> int" where
  "memcmp_list (x # xs) (y # ys) =
     (if x < y then - 1 else if y < x then 1 else memcmp_list xs ys)"
| "memcmp_list _ _ = 0"

definition memcmp :: "byte list \<Rightarrow> byte list \<Rightarrow> nat \<Rightarrow> int option" where
  "memcmp a b n = do { xs \<leftarrow> slice_opt a 0 n; ys \<leftarrow> slice_opt b 0 n; Some (memcmp_list xs ys) }"

lemma memcmp_list_eq_0: "length xs = length ys \<Longrightarrow> memcmp_list xs ys = 0 \<longleftrightarrow> xs = ys"
  by (induction xs ys rule: memcmp_list.induct) (auto simp: not_less antisym)

text \<open>\<open>c_str\<close>: what a C function reads of a string, up to the first NUL.\<close>

definition c_str :: "byte list \<Rightarrow> byte list" where
  "c_str s = takeWhile (\<lambda>c. c \<noteq> 0) s"

definition tolower :: "byte \<Rightarrow> byte" where
  "tolower c = (if 65 \<le> c \<and> c \<le> 90 then c + 32 else c)"

fun strcasecmp :: "byte list \<Rightarrow> byte list \<Rightarrow> int" where
  "strcasecmp [] [] = 0"
| "strcasecmp (x # xs) [] = 1"
| "strcasecmp [] (y # ys) = - 1"
| "strcasecmp (x # xs) (y # ys) =
     (if tolower x = tolower y then strcasecmp xs ys
      else if tolower x < tolower y then - 1 else 1)"

lemma strcasecmp_eq_0: "strcasecmp xs ys = 0 \<longleftrightarrow> map tolower xs = map tolower ys"
  by (induction xs ys rule: strcasecmp.induct) auto

definition cmd_is :: "byte list \<Rightarrow> byte list \<Rightarrow> bool" where
  "cmd_is word cmd \<longleftrightarrow> 0 = strcasecmp (c_str word) cmd"

section \<open>The string hash\<close>

definition str_hash :: "byte list \<Rightarrow> u64" where
  "str_hash data = ucast (foldl (\<lambda>h b. (h + ucast b) * 0x01000193) (0x811C9DC5 :: u32) data)"

section \<open>Doubles\<close>

definition dbl_is_nan :: "u64 \<Rightarrow> bool" where
  "dbl_is_nan d \<longleftrightarrow> 0x7FF0000000000000 < d AND 0x7FFFFFFFFFFFFFFF"

definition dbl_key :: "u64 \<Rightarrow> int" where
  "dbl_key d = (let m = uint (d AND 0x7FFFFFFFFFFFFFFF) in if 0x8000000000000000 \<le> d then - m else m)"

definition dbl_lt :: "u64 \<Rightarrow> u64 \<Rightarrow> bool" where
  "dbl_lt a b \<longleftrightarrow> \<not> dbl_is_nan a \<and> \<not> dbl_is_nan b \<and> dbl_key a < dbl_key b"

definition dbl_eq :: "u64 \<Rightarrow> u64 \<Rightarrow> bool" where
  "dbl_eq a b \<longleftrightarrow> \<not> dbl_is_nan a \<and> \<not> dbl_is_nan b \<and> dbl_key a = dbl_key b"

section \<open>\<open>strtoll\<close> and \<open>strtod\<close>\<close>

definition isspace :: "byte \<Rightarrow> bool" where
  "isspace c \<longleftrightarrow> c = 32 \<or> 9 \<le> c \<and> c \<le> 13"

definition isdigit :: "byte \<Rightarrow> bool" where
  "isdigit c \<longleftrightarrow> 48 \<le> c \<and> c \<le> 57"

definition digit :: "byte \<Rightarrow> nat" where
  "digit c = unat (c - 48)"

definition isxdigit :: "byte \<Rightarrow> bool" where
  "isxdigit c \<longleftrightarrow> isdigit c \<or> 97 \<le> tolower c \<and> tolower c \<le> 102"

definition xdigit :: "byte \<Rightarrow> nat" where
  "xdigit c = (if isdigit c then unat (c - 48) else unat (tolower c - 87))"

definition number :: "nat \<Rightarrow> (byte \<Rightarrow> nat) \<Rightarrow> byte list \<Rightarrow> nat" where
  "number base val ds = foldl (\<lambda>n c. n * base + val c) 0 ds"

definition take_sign :: "byte list \<Rightarrow> bool \<times> byte list" where
  "take_sign s = (case s of
     c # cs \<Rightarrow> if c = 45 then (True, cs) else if c = 43 then (False, cs) else (False, s)
   | [] \<Rightarrow> (False, s))"

definition LLONG_MAX :: int where "LLONG_MAX = 2 ^ 63 - 1"
definition LLONG_MIN :: int where "LLONG_MIN = - (2 ^ 63)"

text \<open>The value and the unread rest (\<open>*endp\<close>); with no digits the rest is the whole string.\<close>

definition strtoll :: "byte list \<Rightarrow> int \<times> byte list" where
  "strtoll s =
     (let (neg, t) = take_sign (dropWhile isspace s);
          ds = takeWhile isdigit t;
          v = int (number 10 digit ds)
      in if ds = [] then (0, s)
         else (if neg then max LLONG_MIN (- v) else min LLONG_MAX v, dropWhile isdigit t))"

definition str2int :: "byte list \<Rightarrow> int option" where
  "str2int s = (case strtoll (c_str s) of (v, rest) \<Rightarrow>
     if length (c_str s) - length rest = length s then Some v else None)"

text \<open>
  The double nearest to \<open>p / q\<close>.  The exponent \<open>e\<close> puts the quotient in the 53 bits of a
  significand, or is the exponent of the subnormal numbers; the pattern of \<open>m * 2 ^ e\<close> is
  \<open>(e + 1074) * 2 ^ 52 + m\<close>, also when rounding carries into the next binade.
\<close>

fun bit_length :: "nat \<Rightarrow> nat" where
  "bit_length n = (if n = 0 then 0 else 1 + bit_length (n div 2))"

declare bit_length.simps [simp del]

definition scaled_div :: "nat \<Rightarrow> nat \<Rightarrow> int \<Rightarrow> nat \<times> nat" where
  "scaled_div p q e = (if e \<ge> 0 then (p, q * 2 ^ nat e) else (p * 2 ^ nat (- e), q))"

definition round_half_even :: "nat \<Rightarrow> nat \<Rightarrow> nat" where
  "round_half_even p q =
     (let k = p div q; r = p mod q
      in if 2 * r < q \<or> 2 * r = q \<and> even k then k else k + 1)"

definition round_double :: "nat \<Rightarrow> nat \<Rightarrow> nat" where
  "round_double p q =
     (if p = 0 then 0
      else
        (let e0 = int (bit_length p) - int (bit_length q) - 53;
             e1 = (case scaled_div p q e0 of (a, b) \<Rightarrow> if a < b * 2 ^ 53 then e0 else e0 + 1);
             e = max (- 1074) e1;
             m = (case scaled_div p q e of (a, b) \<Rightarrow> round_half_even a b);
             bits = nat (e + 1074) * 2 ^ 52 + m
         in min bits 0x7FF0000000000000))"

definition signed_double :: "bool \<Rightarrow> nat \<Rightarrow> u64" where
  "signed_double neg bits = of_nat (if neg then bits + 2 ^ 63 else bits)"

definition has_prefix :: "string \<Rightarrow> byte list \<Rightarrow> bool" where
  "has_prefix w s \<longleftrightarrow> map tolower (take (length w) s) = ascii w"

text \<open>The optional exponent: a marker, a sign and digits, or nothing is read.\<close>

definition take_exponent :: "byte \<Rightarrow> byte list \<Rightarrow> int \<times> byte list" where
  "take_exponent marker s = (case s of
     [] \<Rightarrow> (0, s)
   | c # cs \<Rightarrow>
       (let (neg, t) = take_sign cs; ds = takeWhile isdigit t; v = int (number 10 digit ds)
        in if tolower c = marker \<and> ds \<noteq> [] then (if neg then - v else v, dropWhile isdigit t)
           else (0, s)))"

text \<open>The digits around an optional point, as one number and the count of digits after the point.\<close>

definition take_point :: "(byte \<Rightarrow> bool) \<Rightarrow> byte list \<Rightarrow> byte list \<times> nat \<times> byte list" where
  "take_point isd s =
     (let a = takeWhile isd s; t = dropWhile isd s
      in case t of
           [] \<Rightarrow> (a, 0, t)
         | c # cs \<Rightarrow>
             (let b = takeWhile isd cs
              in if c = 46 \<and> a @ b \<noteq> [] then (a @ b, length b, dropWhile isd cs) else (a, 0, t)))"

definition rational :: "nat \<Rightarrow> nat \<Rightarrow> int \<Rightarrow> nat \<times> nat" where
  "rational m base e = (if e \<ge> 0 then (m * base ^ nat e, 1) else (m, base ^ nat (- e)))"

definition strtod_hex :: "byte list \<Rightarrow> (nat \<times> byte list) option" where
  "strtod_hex s =
     (case take_point isxdigit (drop 2 s) of (ds, frac, t) \<Rightarrow>
        if \<not> has_prefix ''0x'' s \<or> ds = [] then None
        else case take_exponent 112 t of (e, rest) \<Rightarrow>
          case rational (number 16 xdigit ds) 2 (e - 4 * int frac) of (p, q) \<Rightarrow>
            Some (round_double p q, rest))"

definition strtod_dec :: "byte list \<Rightarrow> (nat \<times> byte list) option" where
  "strtod_dec s =
     (case take_point isdigit s of (ds, frac, t) \<Rightarrow>
        if ds = [] then None
        else case take_exponent 101 t of (e, rest) \<Rightarrow>
          case rational (number 10 digit ds) 10 (e - int frac) of (p, q) \<Rightarrow>
            Some (round_double p q, rest))"

definition is_nchar :: "byte \<Rightarrow> bool" where
  "is_nchar c \<longleftrightarrow> isdigit c \<or> 97 \<le> tolower c \<and> tolower c \<le> 122 \<or> c = 95"

definition skip_nan_tag :: "byte list \<Rightarrow> byte list" where
  "skip_nan_tag s = (case s of
     [] \<Rightarrow> s
   | c # cs \<Rightarrow> if c = 40 \<and> take 1 (dropWhile is_nchar cs) = [41] then drop 1 (dropWhile is_nchar cs) else s)"

definition strtod :: "byte list \<Rightarrow> u64 \<times> byte list" where
  "strtod s =
     (let (neg, t) = take_sign (dropWhile isspace s)
      in if has_prefix ''infinity'' t then (signed_double neg 0x7FF0000000000000, drop 8 t)
         else if has_prefix ''inf'' t then (signed_double neg 0x7FF0000000000000, drop 3 t)
         else if has_prefix ''nan'' t
         then (signed_double neg 0x7FF8000000000000, skip_nan_tag (drop 3 t))
         else case strtod_hex t of
           Some (b, rest) \<Rightarrow> (signed_double neg b, rest)
         | None \<Rightarrow> (case strtod_dec t of
             Some (b, rest) \<Rightarrow> (signed_double neg b, rest)
           | None \<Rightarrow> (0, s)))"

definition str2dbl :: "byte list \<Rightarrow> u64 option" where
  "str2dbl s = (case strtod (c_str s) of (v, rest) \<Rightarrow>
     if length (c_str s) - length rest = length s \<and> \<not> dbl_is_nan v then Some v else None)"

text \<open>Accepted scores are never NaN, which the order of a sorted set depends on.\<close>

lemma str2dbl_not_nan: "str2dbl s = Some v \<Longrightarrow> \<not> dbl_is_nan v"
  by (auto simp: str2dbl_def split: prod.splits if_splits)

lemma dbl_trichotomy:
  "\<not> dbl_is_nan a \<Longrightarrow> \<not> dbl_is_nan b \<Longrightarrow> dbl_lt a b \<longleftrightarrow> dbl_key a < dbl_key b"
  "\<not> dbl_is_nan a \<Longrightarrow> \<not> dbl_is_nan b \<Longrightarrow> dbl_eq a b \<longleftrightarrow> dbl_key a = dbl_key b"
  by (simp_all add: dbl_lt_def dbl_eq_def)

end
