(* ===== verification/ZSet.thy ===== *)
theory ZSet
  imports AVL Hashtable CLib
begin

text \<open>
  The sorted set of \<open>src/include/zset.h\<close> and \<open>src/src/zset.cpp\<close>: each \<open>ZNode\<close> is in an AVL tree
  ordered by (score, name) and in a hash map keyed by name.  A \<open>ZNode\<close> embeds the two nodes, so one
  address has an entry in three heaps: \<open>avl_h\<close>, \<open>hn_h\<close> and, for the rest of the struct, \<open>zn_h\<close>.
  \<open>malloc\<close> and \<open>new\<close> return addresses that were never used before; an object that was freed is
  not in the heaps any more, so a later access to it is \<open>None\<close>.
\<close>

section \<open>Memory\<close>

record znode =
  zscore :: u64
  zlen :: u64
  zname :: "byte list"

record zset =
  ztree :: ptr
  zhmap :: hmap

record store =
  avl_h :: avl_heap
  hn_h :: hnode_heap
  zn_h :: "ptr \<rightharpoonup> znode"
  zs_h :: "ptr \<rightharpoonup> zset"
  brk :: ptr

definition ZSet0 :: zset where
  "ZSet0 = \<lparr>ztree = NULL, zhmap = HMap0\<rparr>"

text \<open>\<open>new ZSet()\<close>.\<close>

definition zset_new :: "store \<Rightarrow> store \<times> ptr" where
  "zset_new s = (s\<lparr>zs_h := (zs_h s)(brk s \<mapsto> ZSet0), brk := brk s + 1\<rparr>, brk s)"

section \<open>Comparisons\<close>

definition min_u32 :: "u64 \<Rightarrow> u64 \<Rightarrow> u32" where
  "min_u32 l r = ucast (if l < r then l else r)"

definition hcmp :: "(ptr \<rightharpoonup> znode) \<Rightarrow> byte list \<Rightarrow> u64 \<Rightarrow> ptr \<Rightarrow> bool option" where
  "hcmp zh name len node = do {
     zn \<leftarrow> deref zh node;
     if zlen zn \<noteq> len then Some False
     else map_option (\<lambda>rv. 0 = rv) (memcmp (zname zn) name (unat (zlen zn)))
   }"

definition zless_key :: "(ptr \<rightharpoonup> znode) \<Rightarrow> ptr \<Rightarrow> u64 \<Rightarrow> byte list \<Rightarrow> u64 \<Rightarrow> bool option" where
  "zless_key zh lhs score name len = do {
     zl \<leftarrow> deref zh lhs;
     if \<not> dbl_eq (zscore zl) score then Some (dbl_lt (zscore zl) score)
     else do {
       rv \<leftarrow> memcmp (zname zl) name (unat (min_u32 (zlen zl) len));
       Some (if rv \<noteq> 0 then rv < 0 else zlen zl < len) } }"

definition zless :: "(ptr \<rightharpoonup> znode) \<Rightarrow> ptr \<Rightarrow> ptr \<Rightarrow> bool option" where
  "zless zh lhs rhs = do {
     zr \<leftarrow> deref zh rhs;
     zless_key zh lhs (zscore zr) (zname zr) (zlen zr)
   }"

section \<open>Nodes\<close>

definition znode_new :: "store \<Rightarrow> byte list \<Rightarrow> u64 \<Rightarrow> u64 \<Rightarrow> (store \<times> ptr) option" where
  "znode_new s name len score = do {
     let node = brk s;
     h \<leftarrow> avl_init ((avl_h s)(node \<mapsto> \<lparr>depth = 0, cnt = 0, left = NULL, right = NULL, parent = NULL\<rparr>)) node;
     nm \<leftarrow> slice_opt name 0 (unat len);
     Some (s\<lparr>avl_h := h,
             hn_h := (hn_h s)(node \<mapsto> \<lparr>hnext = NULL, hcode = str_hash nm\<rparr>),
             zn_h := (zn_h s)(node \<mapsto> \<lparr>zscore = score, zlen = len, zname = nm\<rparr>),
             brk := node + 1\<rparr>, node)
   }"

definition znode_del :: "store \<Rightarrow> ptr \<Rightarrow> store option" where
  "znode_del s node =
     (if node = NULL then Some s
      else do {
        _ \<leftarrow> deref (zn_h s) node;
        Some (s\<lparr>avl_h := (avl_h s)(node := None), hn_h := (hn_h s)(node := None),
                zn_h := (zn_h s)(node := None)\<rparr>) })"

section \<open>Operations\<close>

definition zset_lookup :: "store \<Rightarrow> ptr \<Rightarrow> byte list \<Rightarrow> u64 \<Rightarrow> (store \<times> ptr) option" where
  "zset_lookup s zset name len = do {
     z \<leftarrow> deref (zs_h s) zset;
     if ztree z = NULL then Some (s, NULL)
     else do {
       nm \<leftarrow> slice_opt name 0 (unat len);
       (h, m, p) \<leftarrow> hm_lookup (hn_h s) (zhmap z) (str_hash nm) (hcmp (zn_h s) name len);
       Some (s\<lparr>hn_h := h, zs_h := (zs_h s)(zset \<mapsto> z\<lparr>zhmap := m\<rparr>)\<rparr>, p) } }"

text \<open>
  The search loop of \<open>tree_add\<close>; \<open>from\<close> is \<open>None\<close> for the address of \<open>zset->tree\<close>, and the result is
  the last node visited with the null link below it.
\<close>

partial_function (option) tree_search ::
  "avl_heap \<Rightarrow> (ptr \<Rightarrow> bool option) \<Rightarrow> ptr \<Rightarrow> ptr \<Rightarrow> link option \<Rightarrow> (ptr \<times> link option) option" where
  "tree_search h less_node root cur from = do {
     p \<leftarrow> (case from of None \<Rightarrow> Some root | Some lk \<Rightarrow> get_link h lk);
     if p = NULL then Some (cur, from)
     else do {
       b \<leftarrow> less_node p;
       tree_search h less_node root p (Some (if b then Left_of p else Right_of p)) } }"

declare tree_search.simps [code]

definition tree_add :: "store \<Rightarrow> ptr \<Rightarrow> ptr \<Rightarrow> store option" where
  "tree_add s zset node =
     (if zset = NULL \<or> node = NULL then Some s
      else do {
        h \<leftarrow> modify (avl_h s) node (\<lambda>n. n\<lparr>parent := NULL, left := NULL, right := NULL\<rparr>);
        z \<leftarrow> deref (zs_h s) zset;
        (cur, from) \<leftarrow> tree_search h (\<lambda>c. zless (zn_h s) node c) (ztree z) NULL None;
        h \<leftarrow> (case from of None \<Rightarrow> Some h | Some lk \<Rightarrow> set_link h lk node);
        h \<leftarrow> modify h node (\<lambda>n. n\<lparr>parent := cur\<rparr>);
        (h, root) \<leftarrow> avl_fix h node;
        Some (s\<lparr>avl_h := h, zs_h := (zs_h s)(zset \<mapsto> z\<lparr>ztree := root\<rparr>)\<rparr>) })"

definition zset_update :: "store \<Rightarrow> ptr \<Rightarrow> ptr \<Rightarrow> u64 \<Rightarrow> store option" where
  "zset_update s zset node score = do {
     n \<leftarrow> deref (zn_h s) node;
     if dbl_eq (zscore n) score then Some s
     else do {
       z \<leftarrow> deref (zs_h s) zset;
       (h, root) \<leftarrow> avl_del (avl_h s) node;
       h \<leftarrow> avl_init h node;
       tree_add (s\<lparr>avl_h := h, zs_h := (zs_h s)(zset \<mapsto> z\<lparr>ztree := root\<rparr>),
                   zn_h := (zn_h s)(node \<mapsto> n\<lparr>zscore := score\<rparr>)\<rparr>) zset node } }"

definition zset_add :: "store \<Rightarrow> ptr \<Rightarrow> byte list \<Rightarrow> u64 \<Rightarrow> u64 \<Rightarrow> (store \<times> bool) option" where
  "zset_add s zset name len score = do {
     (s, node) \<leftarrow> zset_lookup s zset name len;
     if node \<noteq> NULL then do { s \<leftarrow> zset_update s zset node score; Some (s, False) }
     else do {
       (s, node) \<leftarrow> znode_new s name len score;
       z \<leftarrow> deref (zs_h s) zset;
       (h, m) \<leftarrow> hm_insert (hn_h s) (zhmap z) node;
       s \<leftarrow> tree_add (s\<lparr>hn_h := h, zs_h := (zs_h s)(zset \<mapsto> z\<lparr>zhmap := m\<rparr>)\<rparr>) zset node;
       Some (s, True) } }"

definition zset_pop :: "store \<Rightarrow> ptr \<Rightarrow> byte list \<Rightarrow> u64 \<Rightarrow> (store \<times> ptr) option" where
  "zset_pop s zset name len = do {
     z \<leftarrow> deref (zs_h s) zset;
     if ztree z = NULL then Some (s, NULL)
     else do {
       nm \<leftarrow> slice_opt name 0 (unat len);
       (h, m, p) \<leftarrow> hm_pop (hn_h s) (zhmap z) (str_hash nm) (hcmp (zn_h s) name len);
       let s = s\<lparr>hn_h := h, zs_h := (zs_h s)(zset \<mapsto> z\<lparr>zhmap := m\<rparr>)\<rparr>;
       if p = NULL then Some (s, NULL)
       else do {
         (h, root) \<leftarrow> avl_del (avl_h s) p;
         Some (s\<lparr>avl_h := h, zs_h := (zs_h s)(zset \<mapsto> z\<lparr>ztree := root, zhmap := m\<rparr>)\<rparr>, p) } } }"

partial_function (option) zset_query_loop ::
  "avl_heap \<Rightarrow> (ptr \<Rightarrow> bool option) \<Rightarrow> ptr \<Rightarrow> ptr \<Rightarrow> ptr option" where
  "zset_query_loop h below cur found =
     (if cur = NULL then Some found
      else do {
        b \<leftarrow> below cur;
        n \<leftarrow> deref h cur;
        if b then zset_query_loop h below (right n) found
        else zset_query_loop h below (left n) cur })"

declare zset_query_loop.simps [code]

definition zset_query :: "store \<Rightarrow> ptr \<Rightarrow> u64 \<Rightarrow> byte list \<Rightarrow> u64 \<Rightarrow> ptr option" where
  "zset_query s zset score name len = do {
     z \<leftarrow> deref (zs_h s) zset;
     zset_query_loop (avl_h s) (\<lambda>cur. zless_key (zn_h s) cur score name len) (ztree z) NULL
   }"

definition znode_offset :: "store \<Rightarrow> ptr \<Rightarrow> int \<Rightarrow> ptr option" where
  "znode_offset s node offset =
     (if node = NULL then Some NULL else avl_offset (avl_h s) node offset)"

partial_function (option) tree_dispose :: "store \<Rightarrow> ptr \<Rightarrow> store option" where
  "tree_dispose s node =
     (if node = NULL then Some s
      else do {
        n \<leftarrow> deref (avl_h s) node;
        s \<leftarrow> tree_dispose s (left n);
        n \<leftarrow> deref (avl_h s) node;
        s \<leftarrow> tree_dispose s (right n);
        znode_del s node })"

declare tree_dispose.simps [code]

definition zset_dispose :: "store \<Rightarrow> ptr \<Rightarrow> store option" where
  "zset_dispose s zset = do {
     z \<leftarrow> deref (zs_h s) zset;
     s \<leftarrow> tree_dispose s (ztree z);
     Some (s\<lparr>zs_h := (zs_h s)(zset \<mapsto> z\<lparr>zhmap := hm_destroy (zhmap z)\<rparr>)\<rparr>)
   }"

end
