(* ===== verification/ZSet_Refine.thy ===== *)
theory ZSet_Refine
  imports AVL_Refine Node_Index ZSet
begin

text \<open>
  The sorted set as an abstract list of members, each a name and a score, in the order of the tree.
  \<open>zset_rep s z ms\<close> ties the two indexes together: the nodes of the AVL tree are the nodes of the hash
  map, no two have the same name, and the in-order sequence is sorted by (score, name).  Each operation
  of \<open>ZSet\<close> is shown to return, and to implement a function on the list.
\<close>

section \<open>Members and their order\<close>

type_synonym member = "byte list \<times> u64"

definition mkey :: "member \<Rightarrow> int \<times> byte list" where
  "mkey m = (dbl_key (snd m), fst m)"

definition znode_ok :: "znode \<Rightarrow> bool" where
  "znode_ok n \<longleftrightarrow> zlen n = of_nat (length (zname n)) \<and> length (zname n) < 2 ^ 32 \<and> \<not> dbl_is_nan (zscore n)"

definition member_of :: "(ptr \<rightharpoonup> znode) \<Rightarrow> ptr \<Rightarrow> member" where
  "member_of zh x = (case zh x of Some n \<Rightarrow> (zname n, zscore n) | None \<Rightarrow> ([], 0))"

abbreviation name_of :: "(ptr \<rightharpoonup> znode) \<Rightarrow> ptr \<Rightarrow> byte list" where
  "name_of zh x \<equiv> fst (member_of zh x)"

lemma member_of_Some [simp]: "zh x = Some n \<Longrightarrow> member_of zh x = (zname n, zscore n)"
  by (simp add: member_of_def)

text \<open>\<open>memcmp\<close> on the common length, then the lengths: the lexicographic order of the names.\<close>

lemma memcmp_list_less:
  fixes xs ys :: "byte list"
  defines "rv \<equiv> memcmp_list (take (min (length xs) (length ys)) xs) (take (min (length xs) (length ys)) ys)"
  shows "(if rv \<noteq> 0 then rv < 0 else length xs < length ys) \<longleftrightarrow> xs < ys"
  unfolding rv_def
proof (induction xs arbitrary: ys)
  case Nil
  then show ?case by (cases ys) auto
next
  case (Cons x xs)
  then show ?case
  proof (cases ys)
    case (Cons y zs)
    then show ?thesis using Cons.IH [of zs] by (auto simp: not_less_iff_gr_or_eq)
  qed simp
qed

lemma unat_of_nat_len: "n < 2 ^ 32 \<Longrightarrow> unat (of_nat n :: u64) = n"
  by (simp add: unsigned_of_nat take_bit_nat_eq_self_iff)

lemma of_nat_less_u64: "m < 2 ^ 32 \<Longrightarrow> n < 2 ^ 32 \<Longrightarrow> (of_nat m :: u64) < of_nat n \<longleftrightarrow> m < n"
  by (simp add: word_less_nat_alt unat_of_nat_len)

lemma of_nat_eq_u64: "m < 2 ^ 32 \<Longrightarrow> n < 2 ^ 32 \<Longrightarrow> (of_nat m :: u64) = of_nat n \<longleftrightarrow> m = n"
  by (metis unat_of_nat_len)

lemma unat_min_u32:
  "m < 2 ^ 32 \<Longrightarrow> n < 2 ^ 32 \<Longrightarrow> unat (min_u32 (of_nat m) (of_nat n)) = min m n"
  by (simp add: min_u32_def of_nat_less_u64 unsigned_ucast_eq unat_of_nat_len take_bit_nat_eq_self_iff min_def)

lemma zless_key_mkey:
  assumes "lhs \<noteq> NULL" "zh lhs = Some n" "znode_ok n" "\<not> dbl_is_nan score" "length name < 2 ^ 32"
  shows "zless_key zh lhs score name (of_nat (length name)) = Some (mkey (member_of zh lhs) < mkey (name, score))"
proof -
  have n: "zlen n = of_nat (length (zname n))" "length (zname n) < 2 ^ 32" "\<not> dbl_is_nan (zscore n)"
    using assms(3) by (auto simp: znode_ok_def)
  have "(dbl_key (zscore n), zname n) < (dbl_key score, name) \<longleftrightarrow>
      dbl_key (zscore n) < dbl_key score \<or> dbl_key (zscore n) = dbl_key score \<and> zname n < name"
    by (auto simp: less_prod_def)
  then show ?thesis
    using assms n memcmp_list_less [of "zname n" name]
    by (auto simp: zless_key_def dbl_trichotomy memcmp_def unat_min_u32 mkey_def of_nat_less_u64
        split: if_splits)
qed

lemma zless_mkey:
  assumes "lhs \<noteq> NULL" "zh lhs = Some n" "znode_ok n" "rhs \<noteq> NULL" "zh rhs = Some m" "znode_ok m"
  shows "zless zh lhs rhs = Some (mkey (member_of zh lhs) < mkey (member_of zh rhs))"
  using zless_key_mkey [of lhs zh n "zscore m" "zname m"] assms
  by (simp add: zless_def znode_ok_def)

lemma hcmp_name:
  assumes "x \<noteq> NULL" "zh x = Some n" "znode_ok n" "length name < 2 ^ 32"
  shows "hcmp zh name (of_nat (length name)) x = Some (name_of zh x = name)"
  using assms memcmp_list_eq_0 [of "zname n" name]
  by (auto simp: hcmp_def znode_ok_def memcmp_def of_nat_eq_u64 unat_of_nat_len)


section \<open>The search loop\<close>

definition from_of :: "ptr path \<Rightarrow> link option" where
  "from_of c = (case c of [] \<Rightarrow> None | f # _ \<Rightarrow> Some (link_of f))"

lemma from_of_simps [simp]: "from_of [] = None" "from_of (f # c) = Some (link_of f)"
  by (simp_all add: from_of_def)

lemma tree_search_repr:
  assumes "repr h NULL (plug c t)" "rt = root_ptr (plug c t)"
    and "\<And>a. a \<in> set_tree t \<Longrightarrow> less_node a = Some (lt a)"
  shows "tree_search h less_node rt (path_parent c) (from_of c) =
    Some (path_parent (descend lt c t), from_of (descend lt c t))"
  using assms
proof (induction lt c t rule: descend.induct)
  case (1 lt c)
  have "(case from_of c of None \<Rightarrow> Some rt | Some lk \<Rightarrow> get_link h lk) = Some NULL"
  proof (cases c)
    case (Cons f d)
    with 1 show ?thesis by (cases f) (simp_all add: repr_plug)
  qed (use 1 in simp)
  then show ?case by (subst tree_search.simps) simp
next
  case (2 lt c l a r)
  have a: "a \<noteq> NULL" "less_node a = Some (lt a)" using 2(3,5) by (simp_all add: repr_plug)
  have "(case from_of c of None \<Rightarrow> Some rt | Some lk \<Rightarrow> get_link h lk) = Some a"
  proof (cases c)
    case (Cons f d)
    with 2(3) show ?thesis by (cases f) (simp_all add: repr_plug)
  qed (use 2 in simp)
  then have step: "tree_search h less_node rt (path_parent c) (from_of c) =
      tree_search h less_node rt a (Some (if lt a then Left_of a else Right_of a))"
    using a by (subst tree_search.simps) simp
  show ?case
  proof (cases "lt a")
    case True
    with 2(1) [OF True] 2(3-5) step show ?thesis by simp
  next
    case False
    with 2(2) [OF False] 2(3-5) step show ?thesis by simp
  qed
qed

section \<open>The representation invariant\<close>

definition znodes_ok :: "(ptr \<rightharpoonup> znode) \<Rightarrow> ptr set \<Rightarrow> bool" where
  "znodes_ok zh N \<longleftrightarrow> (\<forall>x \<in> N. \<exists>n. zh x = Some n \<and> znode_ok n)"

text \<open>Tree, hash map and members of one sorted set.\<close>

definition zset_repr :: "store \<Rightarrow> ptr \<Rightarrow> ptr tree \<Rightarrow> bool" where
  "zset_repr s z t \<longleftrightarrow> z \<noteq> NULL \<and>
     (\<exists>zs. zs_h s z = Some zs \<and> avl_tree (avl_h s) (ztree zs) t \<and>
        hm_repr (hn_h s) (zhmap zs) (set_tree t)) \<and>
     keyed str_hash (name_of (zn_h s)) (hn_h s) (set_tree t) \<and>
     znodes_ok (zn_h s) (set_tree t) \<and>
     sorted (map (\<lambda>x. mkey (member_of (zn_h s) x)) (inorder t))"

definition members :: "store \<Rightarrow> ptr tree \<Rightarrow> member list" where
  "members s t = map (member_of (zn_h s)) (inorder t)"

definition zset_rep :: "store \<Rightarrow> ptr \<Rightarrow> member list \<Rightarrow> bool" where
  "zset_rep s z ms \<longleftrightarrow> (\<exists>t. zset_repr s z t \<and> ms = members s t)"

lemma zset_reprE:
  assumes "zset_repr s z t"
  obtains zs where "z \<noteq> NULL" "zs_h s z = Some zs" "avl_tree (avl_h s) (ztree zs) t"
    "hm_repr (hn_h s) (zhmap zs) (set_tree t)" "keyed str_hash (name_of (zn_h s)) (hn_h s) (set_tree t)"
    "znodes_ok (zn_h s) (set_tree t)" "sorted (map (\<lambda>x. mkey (member_of (zn_h s) x)) (inorder t))"
  using assms by (auto simp: zset_repr_def)

lemma znodes_okD: "znodes_ok zh N \<Longrightarrow> x \<in> N \<Longrightarrow> \<exists>n. zh x = Some n \<and> znode_ok n"
  by (simp add: znodes_ok_def)

lemma avl_tree_nonnull: "avl_tree h rt t \<Longrightarrow> x \<in> set_tree t \<Longrightarrow> x \<noteq> NULL"
  by (metis NULL_notin avl_tree_def)

lemma avl_tree_mem: "avl_tree h rt t \<Longrightarrow> x \<in> set_tree t \<Longrightarrow> h x \<noteq> None"
proof -
  have "repr h par t \<Longrightarrow> x \<in> set_tree t \<Longrightarrow> h x \<noteq> None" for par
    by (induction h par t rule: repr.induct) auto
  then show "avl_tree h rt t \<Longrightarrow> x \<in> set_tree t \<Longrightarrow> h x \<noteq> None" by (auto simp: avl_tree_def)
qed

text \<open>Addresses from \<open>brk\<close> on were never handed out.\<close>

definition store_ok :: "store \<Rightarrow> bool" where
  "store_ok s \<longleftrightarrow> brk s \<noteq> NULL \<and>
     (\<forall>p \<ge> brk s. avl_h s p = None \<and> hn_h s p = None \<and> zn_h s p = None \<and> zs_h s p = None)"

text \<open>
  What an operation on the set \<open>z\<close> with nodes \<open>N\<close> leaves alone: every older object that is neither
  \<open>z\<close> nor one of its nodes.
\<close>

definition frame_ok :: "store \<Rightarrow> store \<Rightarrow> ptr set \<Rightarrow> ptr set \<Rightarrow> bool" where
  "frame_ok s s' N Z \<longleftrightarrow> brk s \<le> brk s' \<and>
     (\<forall>x < brk s. x \<notin> N \<longrightarrow> avl_h s' x = avl_h s x \<and> hn_h s' x = hn_h s x \<and> zn_h s' x = zn_h s x) \<and>
     (\<forall>x < brk s. x \<notin> Z \<longrightarrow> zs_h s' x = zs_h s x)"

lemma frame_ok_trans:
  "frame_ok s s' N Z \<Longrightarrow> frame_ok s' s'' N' Z' \<Longrightarrow> N \<subseteq> M \<Longrightarrow> N' \<subseteq> M \<union> {x. brk s \<le> x} \<Longrightarrow>
    Z \<subseteq> Y \<Longrightarrow> Z' \<subseteq> Y \<union> {x. brk s \<le> x} \<Longrightarrow> frame_ok s s'' M Y"
  unfolding frame_ok_def by (smt (verit) Un_iff mem_Collect_eq order.trans not_le order_less_le_trans subsetD)

section \<open>Attaching a node to the tree\<close>

lemma tree_add_repr:
  fixes s :: store
  defines "key \<equiv> \<lambda>x. mkey (member_of (zn_h s) x)"
  assumes z: "z \<noteq> NULL" "zs_h s z = Some zs" and t: "avl_tree (avl_h s) (ztree zs) t" "size t + 1 < 2 ^ 31"
    and ok: "znodes_ok (zn_h s) (set_tree t)" "sorted (map key (inorder t))"
    and x: "avl_h s x \<noteq> None" "x \<noteq> NULL" "x \<notin> set_tree t" "zn_h s x = Some n" "znode_ok n"
  shows "\<exists>h' rt' t' xs ys. tree_add s z x = Some (s\<lparr>avl_h := h', zs_h := (zs_h s)(z \<mapsto> zs\<lparr>ztree := rt'\<rparr>)\<rparr>) \<and>
    avl_tree h' rt' t' \<and> sorted (map key (inorder t')) \<and>
    inorder t = xs @ ys \<and> inorder t' = xs @ x # ys \<and> same_outside (insert x (set_tree t)) (avl_h s) h'"
proof -
  define lt where "lt a \<longleftrightarrow> key x < key a" for a
  from x(1) obtain v where v: "avl_h s x = Some v" by auto
  define h0 where "h0 = (avl_h s)(x \<mapsto> v\<lparr>parent := NULL, left := NULL, right := NULL\<rparr>)"
  have t0: "avl_tree h0 (ztree zs) t"
    using avl_tree_same_outside [OF t(1), of "{x}" h0] x(3) by (simp add: h0_def same_outside_def)
  have less: "zless (zn_h s) x a = Some (lt a)" if "a \<in> set_tree t" for a
  proof -
    from znodes_okD [OF ok(1) that] obtain m where "zn_h s a = Some m" "znode_ok m" by blast
    with zless_mkey [of x "zn_h s" n a m] x(2,4,5) avl_tree_nonnull [OF t(1) that] show ?thesis
      by (simp add: lt_def key_def)
  qed
  let ?c = "descend lt [] t"
  have "tree_search h0 (\<lambda>c. zless (zn_h s) x c) (ztree zs) NULL None = Some (path_parent ?c, from_of ?c)"
    using tree_search_repr [of h0 "[]" t "ztree zs" "zless (zn_h s) x" lt] t0 less
    by (simp add: avl_tree_def)
  moreover from avl_tree_attach [OF t0 t(2), of x "v\<lparr>parent := NULL, left := NULL, right := NULL\<rparr>" lt] x(2,3)
  obtain h1 h2 h3 where h: "(if ?c = [] then Some h0 else set_link h0 (link_of (hd ?c)) x) = Some h1"
    "modify h1 x (\<lambda>v. v\<lparr>parent := path_parent ?c\<rparr>) = Some h2"
    "avl_fix h2 x = Some (h3, root_ptr (avl_insert lt x t))"
    "avl_tree h3 (root_ptr (avl_insert lt x t)) (avl_insert lt x t)"
    "same_outside (insert x (set_tree t)) h0 h3"
    by (auto simp: h0_def)
  moreover have "(case from_of ?c of None \<Rightarrow> Some h0 | Some lk \<Rightarrow> set_link h0 lk x) = Some h1"
    using h(1) by (cases ?c) simp_all
  ultimately have e: "tree_add s z x =
      Some (s\<lparr>avl_h := h3, zs_h := (zs_h s)(z \<mapsto> zs\<lparr>ztree := root_ptr (avl_insert lt x t)\<rparr>)\<rparr>)"
    using z x(2) v unfolding tree_add_def by (simp flip: h0_def)
  have "sorted_wrt (upward lt) (inorder t)"
    using ok(2) unfolding sorted_map upward_def lt_def
    by (rule sorted_wrt_mono_rel [rotated]) (auto intro: less_le_trans)
  from inorder_avl_insert [OF this, of x] obtain xs ys where
    i: "inorder t = xs @ ys" "inorder (avl_insert lt x t) = xs @ x # ys"
      "\<forall>a \<in> set xs. \<not> lt a" "\<forall>a \<in> set ys. lt a" by blast
  have "sorted (map key (inorder (avl_insert lt x t)))"
    using ok(2) i by (auto simp: sorted_append lt_def not_less less_imp_le)
  moreover have "same_outside (insert x (set_tree t)) (avl_h s) h3"
    using h(5) by (auto simp: same_outside_def h0_def)
  ultimately show ?thesis using e h(4) i by blast
qed


section \<open>Lookup\<close>

text \<open>Names that come with their exact length, as all callers pass them.\<close>

abbreviation len_of :: "byte list \<Rightarrow> u64" where
  "len_of name \<equiv> of_nat (length name)"

lemma hcmp_total:
  assumes "znodes_ok zh N" "\<And>x. x \<in> N \<Longrightarrow> x \<noteq> NULL" "length name < 2 ^ 32" "x \<in> N"
  shows "hcmp zh name (len_of name) x = Some (name_of zh x = name)"
  using znodes_okD [OF assms(1,4)] assms(2-4) hcmp_name by blast

lemma slice_full: "length name < 2 ^ 32 \<Longrightarrow> slice_opt name 0 (unat (len_of name)) = Some name"
  by (simp add: unat_of_nat_len)

lemma zset_lookup_node:
  assumes r: "zset_repr s z t" and len: "length name < 2 ^ 32"
  shows "\<exists>s' p. zset_lookup s z name (len_of name) = Some (s', p) \<and> zset_repr s' z t \<and>
    node_for (name_of (zn_h s)) (set_tree t) name p \<and>
    frame_ok s s' (set_tree t) {z} \<and> zn_h s' = zn_h s \<and> avl_h s' = avl_h s \<and>
    same_outside (set_tree t) (hn_h s) (hn_h s') \<and> same_outside {z} (zs_h s) (zs_h s') \<and> brk s' = brk s"
proof -
  from zset_reprE [OF r] obtain zs where z: "z \<noteq> NULL" "zs_h s z = Some zs" "avl_tree (avl_h s) (ztree zs) t"
    "hm_repr (hn_h s) (zhmap zs) (set_tree t)" "keyed str_hash (name_of (zn_h s)) (hn_h s) (set_tree t)"
    "znodes_ok (zn_h s) (set_tree t)" "sorted (map (\<lambda>x. mkey (member_of (zn_h s) x)) (inorder t))" .
  show ?thesis
  proof (cases "ztree zs = NULL")
    case True
    then have "t = Leaf" using z(3) by (auto simp: avl_tree_def)
    moreover have "zset_lookup s z name (len_of name) = Some (s, NULL)"
      using z(1,2) True by (simp add: zset_lookup_def)
    ultimately show ?thesis using r by (simp add: node_for_def frame_ok_def)
  next
    case False
    have eq: "hcmp (zn_h s) name (len_of name) x = Some (name_of (zn_h s) x = name)" if "x \<in> set_tree t" for x
      using hcmp_total [OF z(6) _ len that] avl_tree_nonnull [OF z(3)] by blast
    from hm.find_key [OF z(4,5) eq] obtain h m p where
      f: "hm_lookup (hn_h s) (zhmap zs) (str_hash name) (hcmp (zn_h s) name (len_of name)) = Some (h, m, p)"
        "hm_repr h m (set_tree t)" "keyed str_hash (name_of (zn_h s)) h (set_tree t)"
        "same_outside (set_tree t) (hn_h s) h" "node_for (name_of (zn_h s)) (set_tree t) name p" by blast
    let ?s = "s\<lparr>hn_h := h, zs_h := (zs_h s)(z \<mapsto> zs\<lparr>zhmap := m\<rparr>)\<rparr>"
    have "zset_lookup s z name (len_of name) = Some (?s, p)"
      using z(1,2) False f(1) slice_full [OF len] by (simp add: zset_lookup_def)
    moreover have "zset_repr ?s z t" using z f(2,3) by (simp add: zset_repr_def)
    ultimately show ?thesis using f(4,5) by (auto simp: frame_ok_def same_outside_def)
  qed
qed

text \<open>The members as a map from names to scores.\<close>

lemma members_map_of:
  assumes "zset_repr s z t" "node_for (name_of (zn_h s)) (set_tree t) name p"
  shows "map_of (members s t) name = (if p = NULL then None else Some (snd (member_of (zn_h s) p)))"
proof -
  from zset_reprE [OF assms(1)] have inj: "inj_on (name_of (zn_h s)) (set (inorder t))"
    by (auto simp: keyed_def)
  have fst: "fst ` set (members s t) = name_of (zn_h s) ` set_tree t" by (auto simp: members_def)
  show ?thesis
  proof (cases "p = NULL")
    case True
    with assms(2) fst have "name \<notin> fst ` set (members s t)" by (simp add: node_for_def)
    then have "map_of (members s t) name = None" by (simp add: map_of_eq_None_iff)
    with True show ?thesis by simp
  next
    case False
    with assms(2) have p: "p \<in> set (inorder t)" "name_of (zn_h s) p = name" by (auto simp: node_for_def)
    have "distinct (inorder t)" using assms(1) by (auto simp: zset_repr_def avl_tree_def)
    then have "distinct (map fst (members s t))"
      using inj by (simp add: members_def distinct_map comp_def)
    moreover have "(name, snd (member_of (zn_h s) p)) \<in> set (members s t)"
      using p by (force simp: members_def)
    ultimately show ?thesis using False by simp
  qed
qed

text \<open>Stored scores of a node that was found.\<close>

lemma node_for_score:
  assumes "zset_repr s z t" "node_for (name_of (zn_h s)) (set_tree t) name p" "p \<noteq> NULL"
  shows "\<exists>n. zn_h s p = Some n \<and> znode_ok n \<and> zname n = name \<and> map_of (members s t) name = Some (zscore n)"
proof -
  have p: "p \<in> set_tree t" "name_of (zn_h s) p = name" using assms(2,3) by (auto simp: node_for_def)
  from assms(1) have "znodes_ok (zn_h s) (set_tree t)" by (auto simp: zset_repr_def)
  from znodes_okD [OF this p(1)] obtain n where "zn_h s p = Some n" "znode_ok n" by blast
  with members_map_of [OF assms(1,2)] assms(3) p(2) show ?thesis by simp
qed

section \<open>The specification\<close>

text \<open>
  \<open>spec_remove\<close> drops the member of a name, \<open>spec_add\<close> puts a member in its place in the order; a new
  score that compares equal to the old one (\<open>-0.0\<close> and \<open>0.0\<close> do) leaves the set as it is.
\<close>

definition spec_remove :: "byte list \<Rightarrow> member list \<Rightarrow> member list" where
  "spec_remove name ms = filter (\<lambda>m. fst m \<noteq> name) ms"

definition spec_add :: "byte list \<Rightarrow> u64 \<Rightarrow> member list \<Rightarrow> member list" where
  "spec_add name score ms =
     (if \<exists>old. map_of ms name = Some old \<and> dbl_eq old score then ms
      else insort_key mkey (name, score) (spec_remove name ms))"

lemma length_spec_remove: "length (spec_remove name ms) \<le> length ms"
  by (simp add: spec_remove_def)

lemma length_spec_add: "length (spec_add name score ms) \<le> Suc (length ms)"
  using length_spec_remove [of name ms] by (simp add: spec_add_def)

definition spec_query :: "byte list \<Rightarrow> u64 \<Rightarrow> member list \<Rightarrow> member option" where
  "spec_query name score ms = find (\<lambda>m. \<not> mkey m < mkey (name, score)) ms"

lemma insort_key_split:
  assumes "sorted (map f (xs @ x # ys))" "f x \<notin> f ` set xs"
  shows "insort_key f x (xs @ ys) = xs @ x # ys"
  using assms
proof (induction xs)
  case Nil
  then show ?case by (cases ys) auto
next
  case (Cons a xs)
  then have "\<not> f x \<le> f a" by (auto simp: not_le order.strict_iff_order)
  with Cons show ?case by simp
qed

lemma spec_remove_split:
  assumes "distinct (map fst (xs @ (name, v) # ys))"
  shows "spec_remove name (xs @ (name, v) # ys) = xs @ ys"
proof -
  have "name \<notin> fst ` set xs" "name \<notin> fst ` set ys" using assms by auto
  then have "\<forall>m \<in> set xs. fst m \<noteq> name" "\<forall>m \<in> set ys. fst m \<noteq> name" by blast+
  then have "filter (\<lambda>m. fst m \<noteq> name) xs = xs" "filter (\<lambda>m. fst m \<noteq> name) ys = ys"
    by (simp_all add: filter_id_conv)
  then show ?thesis by (simp add: spec_remove_def)
qed

lemma spec_remove_absent: "name \<notin> fst ` set ms \<Longrightarrow> spec_remove name ms = ms"
  by (auto simp: spec_remove_def filter_id_conv)


lemma zset_repr_cong:
  assumes "zset_repr s z t" "zs_h s' z = zs_h s z"
    and "\<And>x. x \<in> set_tree t \<Longrightarrow> avl_h s' x = avl_h s x \<and> hn_h s' x = hn_h s x \<and> zn_h s' x = zn_h s x"
  shows "zset_repr s' z t" and "members s' t = members s t"
proof -
  from zset_reprE [OF assms(1)] obtain zs where z: "z \<noteq> NULL" "zs_h s z = Some zs" "avl_tree (avl_h s) (ztree zs) t"
    "hm_repr (hn_h s) (zhmap zs) (set_tree t)" "keyed str_hash (name_of (zn_h s)) (hn_h s) (set_tree t)"
    "znodes_ok (zn_h s) (set_tree t)" "sorted (map (\<lambda>x. mkey (member_of (zn_h s) x)) (inorder t))" .
  have m: "member_of (zn_h s') x = member_of (zn_h s) x" if "x \<in> set_tree t" for x
    using assms(3) [OF that] by (simp add: member_of_def)
  then show "members s' t = members s t" by (simp add: members_def)
  have "avl_tree (avl_h s') (ztree zs) t"
    using z(3) assms(3) repr_cong [of t "avl_h s'" "avl_h s"] by (simp add: avl_tree_def)
  moreover have "hm_repr (hn_h s') (zhmap zs) (set_tree t)"
    using hm_repr_cong [OF z(4)] assms(3) by blast
  moreover have "keyed str_hash (name_of (zn_h s')) (hn_h s') (set_tree t) =
      keyed str_hash (name_of (zn_h s')) (hn_h s) (set_tree t)"
    using assms(3) by (intro keyed_heap_cong) blast
  moreover have "\<dots> = keyed str_hash (name_of (zn_h s)) (hn_h s) (set_tree t)"
    using m by (intro keyed_cong) simp
  moreover have "znodes_ok (zn_h s') (set_tree t)" using z(6) assms(3) by (simp add: znodes_ok_def)
  moreover have "map (\<lambda>x. mkey (member_of (zn_h s') x)) (inorder t) = map (\<lambda>x. mkey (member_of (zn_h s) x)) (inorder t)"
    using m by (intro map_cong) simp_all
  then have "sorted (map (\<lambda>x. mkey (member_of (zn_h s') x)) (inorder t))" using z(7) by (simp only:)
  ultimately show "zset_repr s' z t" using z assms(2) by (auto simp: zset_repr_def)
qed

lemma store_ok_below: "store_ok s \<Longrightarrow> avl_h s x \<noteq> None \<or> hn_h s x \<noteq> None \<or> zn_h s x \<noteq> None \<or> zs_h s x \<noteq> None \<Longrightarrow> x < brk s"
  by (metis not_le store_ok_def)

lemma zset_below:
  assumes "store_ok s" "zset_repr s z t"
  shows "z < brk s" and "x \<in> set_tree t \<Longrightarrow> x < brk s"
proof -
  from zset_reprE [OF assms(2)] obtain zs where z: "zs_h s z = Some zs" "avl_tree (avl_h s) (ztree zs) t" by metis
  then show "z < brk s" using store_ok_below [OF assms(1), of z] by simp
  show "x < brk s" if "x \<in> set_tree t"
    using avl_tree_mem [OF z(2) that] store_ok_below [OF assms(1), of x] by blast
qed

lemma store_ok_frame:
  assumes "store_ok s" "brk s' = brk s" "same_outside N (avl_h s) (avl_h s')" "same_outside N (hn_h s) (hn_h s')"
    "same_outside N (zn_h s) (zn_h s')" "same_outside Z (zs_h s) (zs_h s')" "\<forall>x \<in> N \<union> Z. x < brk s"
  shows "store_ok s'"
proof -
  have "p \<notin> N" "p \<notin> Z" if "p \<ge> brk s" for p using assms(7) that by (meson UnI1 UnI2 leD)+
  then show ?thesis using assms(1-6) by (auto simp: store_ok_def same_outside_def)
qed

lemma distinct_members:
  assumes "zset_repr s z t"
  shows "distinct (map fst (members s t))" and "sorted (map mkey (members s t))" and "distinct (inorder t)"
proof -
  from zset_reprE [OF assms] have inj: "inj_on (name_of (zn_h s)) (set (inorder t))"
    and sorted: "sorted (map (\<lambda>x. mkey (member_of (zn_h s) x)) (inorder t))"
    by (auto simp: keyed_def)
  show d: "distinct (inorder t)" using assms by (auto simp: zset_repr_def avl_tree_def)
  then show "distinct (map fst (members s t))" using inj by (simp add: members_def distinct_map comp_def)
  show "sorted (map mkey (members s t))" using sorted by (simp add: members_def comp_def)
qed

lemma members_remove:
  assumes "zset_repr s z t" "p \<in> set_tree t"
  shows "spec_remove (name_of (zn_h s) p) (members s t) = map (member_of (zn_h s)) (remove1 p (inorder t))"
proof -
  note d = distinct_members [OF assms(1)]
  from assms(2) have "p \<in> set (inorder t)" by simp
  then obtain us vs where i: "inorder t = us @ p # vs" by (meson split_list)
  have r: "remove1 p (inorder t) = us @ vs" using d(3) unfolding i by (simp add: remove1_append)
  have m: "members s t = map (member_of (zn_h s)) us @ (name_of (zn_h s) p, snd (member_of (zn_h s) p)) # map (member_of (zn_h s)) vs"
    by (simp add: members_def i)
  have "distinct (map fst (map (member_of (zn_h s)) us @ (name_of (zn_h s) p, snd (member_of (zn_h s) p)) # map (member_of (zn_h s)) vs))"
    using d(1) unfolding m .
  from spec_remove_split [OF this] show ?thesis by (simp add: m r)
qed

lemma insort_members:
  assumes "sorted (map (\<lambda>x. mkey (f x)) (xs @ p # ys))" "fst (f p) \<notin> (\<lambda>x. fst (f x)) ` set (xs @ ys)"
  shows "insort_key mkey (f p) (map f xs @ map f ys) = map f (xs @ p # ys)"
proof -
  have "mkey (f p) \<notin> mkey ` set (map f xs)" using assms(2) by (auto simp: mkey_def)
  with assms(1) insort_key_split [of mkey "map f xs" "f p" "map f ys"] show ?thesis
    by (simp add: comp_def)
qed


section \<open>Adding and updating\<close>

lemma member_of_upd: "member_of (zh(x \<mapsto> n)) y = (if y = x then (zname n, zscore n) else member_of zh y)"
  by (simp add: member_of_def)

lemma zset_update_repr:
  assumes r: "zset_repr s z t" and p: "p \<in> set_tree t" and score: "\<not> dbl_is_nan score"
  shows "\<exists>s' t'. zset_update s z p score = Some s' \<and> zset_repr s' z t' \<and> set_tree t' = set_tree t \<and>
    members s' t' = spec_add (name_of (zn_h s) p) score (members s t) \<and>
    same_outside (set_tree t) (avl_h s) (avl_h s') \<and> hn_h s' = hn_h s \<and>
    same_outside (set_tree t) (zn_h s) (zn_h s') \<and> same_outside {z} (zs_h s) (zs_h s') \<and> brk s' = brk s"
proof -
  from zset_reprE [OF r] obtain zs where z: "z \<noteq> NULL" "zs_h s z = Some zs" "avl_tree (avl_h s) (ztree zs) t"
    "hm_repr (hn_h s) (zhmap zs) (set_tree t)" "keyed str_hash (name_of (zn_h s)) (hn_h s) (set_tree t)"
    "znodes_ok (zn_h s) (set_tree t)" "sorted (map (\<lambda>x. mkey (member_of (zn_h s) x)) (inorder t))" .
  from znodes_okD [OF z(6) p] obtain n where n: "zn_h s p = Some n" "znode_ok n" by blast
  have p0: "p \<noteq> NULL" by (rule avl_tree_nonnull [OF z(3) p])
  have name: "name_of (zn_h s) p = zname n" using n by simp
  have "node_for (name_of (zn_h s)) (set_tree t) (zname n) p" using p p0 name by (simp add: node_for_def)
  from node_for_score [OF r this p0] n have old: "map_of (members s t) (zname n) = Some (zscore n)" by auto
  show ?thesis
  proof (cases "dbl_eq (zscore n) score")
    case True
    then have "zset_update s z p score = Some s" using n p0 by (simp add: zset_update_def)
    with True old name r show ?thesis by (auto simp: spec_add_def)
  next
    case False
    from avl_tree_delete [OF z(3) p] obtain h1 rt1 t1 where d: "avl_del (avl_h s) p = Some (h1, rt1)"
      "avl_tree h1 rt1 t1" "inorder t1 = remove1 p (inorder t)" "same_outside (set_tree t) (avl_h s) h1" "h1 p \<noteq> None"
      by blast
    from d(5) obtain v where v: "h1 p = Some v" by auto
    let ?v = "v\<lparr>depth := 1, cnt := 1, left := NULL, right := NULL, parent := NULL\<rparr>"
    let ?zn = "(zn_h s)(p \<mapsto> n\<lparr>zscore := score\<rparr>)"
    define s1 where "s1 = s\<lparr>avl_h := h1(p \<mapsto> ?v), zs_h := (zs_h s)(z \<mapsto> zs\<lparr>ztree := rt1\<rparr>), zn_h := ?zn\<rparr>"
    have dist: "distinct (inorder t)" by (rule distinct_members(3) [OF r])
    have set1: "set_tree t1 = set_tree t - {p}"
      using arg_cong [OF d(3), of set] dist by simp
    have ok': "znode_ok (n\<lparr>zscore := score\<rparr>)" using n(2) score by (simp add: znode_ok_def)
    have m: "member_of ?zn x = member_of (zn_h s) x" if "x \<in> set_tree t1" for x
      using that set1 by (simp add: member_of_upd)
    have a1: "avl_tree (avl_h s1) (ztree (zs\<lparr>ztree := rt1\<rparr>)) t1"
      using avl_tree_same_outside [OF d(2), of "{p}" "h1(p \<mapsto> ?v)"] set1
      by (simp add: s1_def same_outside_def)
    have size: "size t1 + 1 < 2 ^ 31"
    proof -
      have "size t1 = size t - 1" using arg_cong [OF d(3), of length] p by (simp add: length_remove1)
      moreover have "0 < size t" using p by (cases t) simp_all
      moreover have "size t < 2 ^ 31" using z(3) unfolding avl_tree_def by blast
      ultimately show ?thesis by linarith
    qed
    have "map (\<lambda>x. mkey (member_of ?zn x)) (inorder t1) = map (\<lambda>x. mkey (member_of (zn_h s) x)) (inorder t1)"
      using m by (intro map_cong) simp_all
    moreover have "sorted (map (\<lambda>x. mkey (member_of (zn_h s) x)) (inorder t1))"
      unfolding d(3) using z(7) by (rule sorted_map_remove1)
    ultimately have "sorted (map (\<lambda>x. mkey (member_of ?zn x)) (inorder t1))" by (simp only:)
    then have sorted1: "sorted (map (\<lambda>x. mkey (member_of (zn_h s1) x)) (inorder t1))"
      by (simp add: s1_def)
    have "znodes_ok (zn_h s1) (set_tree t1)" using z(6) set1 by (auto simp: s1_def znodes_ok_def)
    from tree_add_repr [OF z(1) _ a1 size this sorted1, of p "n\<lparr>zscore := score\<rparr>"] p0 set1 ok'
    obtain h' rt' t' xs ys where add: "tree_add s1 z p = Some (s1\<lparr>avl_h := h', zs_h := (zs_h s1)(z \<mapsto> zs\<lparr>ztree := rt'\<rparr>)\<rparr>)"
      "avl_tree h' rt' t'" "sorted (map (\<lambda>x. mkey (member_of (zn_h s1) x)) (inorder t'))"
      "inorder t1 = xs @ ys" "inorder t' = xs @ p # ys" "same_outside (insert p (set_tree t1)) (avl_h s1) h'"
      by (auto simp: s1_def)
    define s' where "s' = s1\<lparr>avl_h := h', zs_h := (zs_h s1)(z \<mapsto> zs\<lparr>ztree := rt'\<rparr>)\<rparr>"
    have "set (inorder t') = insert p (set (inorder t1))" unfolding add(4,5) by auto
    then have set': "set_tree t' = set_tree t" using set1 p by auto
    have e: "zset_update s z p score = Some s'"
      using n p0 z(1,2) d(1) v False add(1) by (simp add: zset_update_def avl_init_def s1_def s'_def)
    have names: "name_of ?zn x = name_of (zn_h s) x" for x using n by (simp add: member_of_upd)
    have k': "keyed str_hash (name_of ?zn) (hn_h s) (set_tree t)"
      using z(5) unfolding keyed_def names .
    have "znodes_ok ?zn (set_tree t)" using z(6) ok' by (simp add: znodes_ok_def)
    then have "zset_repr s' z t'"
      using z(1,4) k' add(2,3) unfolding zset_repr_def set' s'_def s1_def by simp
    moreover have "members s' t' = spec_add (name_of (zn_h s) p) score (members s t)"
    proof -
      have f: "member_of ?zn p = (zname n, score)" by (simp add: member_of_upd)
      have "name_of (zn_h s) p \<notin> name_of (zn_h s) ` (set_tree t - {p})"
        using z(5) inj_on_image_set_diff [of "name_of (zn_h s)" "set_tree t" "set_tree t" "{p}"] p
        by (simp add: keyed_def)
      then have "fst (member_of ?zn p) \<notin> (\<lambda>x. fst (member_of ?zn x)) ` set (xs @ ys)"
        unfolding add(4) [symmetric] set_inorder set1 names .
      then have "insort_key mkey (member_of ?zn p) (map (member_of ?zn) xs @ map (member_of ?zn) ys) = map (member_of ?zn) (xs @ p # ys)"
        using add(3,5) by (intro insort_members) (simp_all add: s1_def)
      moreover have "map (member_of ?zn) xs @ map (member_of ?zn) ys = map (member_of (zn_h s)) (remove1 p (inorder t))"
        using m unfolding d(3) [symmetric] map_append [symmetric] add(4) [symmetric] by (intro map_cong) simp_all
      ultimately show ?thesis
        using False old members_remove [OF r p] name f
        by (simp add: members_def spec_add_def s'_def s1_def add(5))
    qed
    moreover have "same_outside (set_tree t) (avl_h s) (avl_h s')"
      using d(4) add(6) p set1 by (auto simp: s'_def s1_def same_outside_def)
    moreover have "same_outside (set_tree t) (zn_h s) (zn_h s')" "same_outside {z} (zs_h s) (zs_h s')"
      using p by (auto simp: s'_def s1_def same_outside_def)
    ultimately show ?thesis using e set' by (auto simp: s'_def s1_def)
  qed
qed


lemma zset_insert_new:
  assumes ok: "store_ok s" and r: "zset_repr s z t" and len: "length name < 2 ^ 32"
    and score: "\<not> dbl_is_nan score" and new: "name \<notin> name_of (zn_h s) ` set_tree t"
    and cap: "size t + 1 < 2 ^ 31"
  defines "x \<equiv> brk s"
  shows "\<exists>s1 h m zs s' t'. znode_new s name (len_of name) score = Some (s1, x) \<and>
    deref (zs_h s1) z = Some zs \<and> hm_insert (hn_h s1) (zhmap zs) x = Some (h, m) \<and>
    tree_add (s1\<lparr>hn_h := h, zs_h := (zs_h s1)(z \<mapsto> zs\<lparr>zhmap := m\<rparr>)\<rparr>) z x = Some s' \<and>
    zset_repr s' z t' \<and> members s' t' = insort_key mkey (name, score) (members s t) \<and>
    set_tree t' = insert x (set_tree t) \<and> store_ok s' \<and> brk s' = brk s + 1 \<and>
    frame_ok s s' (set_tree t) {z}"
proof -
  from zset_reprE [OF r] obtain zs where z: "z \<noteq> NULL" "zs_h s z = Some zs" "avl_tree (avl_h s) (ztree zs) t"
    "hm_repr (hn_h s) (zhmap zs) (set_tree t)" "keyed str_hash (name_of (zn_h s)) (hn_h s) (set_tree t)"
    "znodes_ok (zn_h s) (set_tree t)" "sorted (map (\<lambda>x. mkey (member_of (zn_h s) x)) (inorder t))" .
  have x: "x \<noteq> NULL" "x \<notin> set_tree t" "avl_h s x = None" "x \<noteq> z"
    using ok zset_below [OF ok r] by (auto simp: x_def store_ok_def)
  let ?n = "\<lparr>zscore = score, zlen = len_of name, zname = name\<rparr>"
  let ?zn = "(zn_h s)(x \<mapsto> ?n)"
  let ?a = "\<lparr>depth = 1, cnt = 1, left = NULL, right = NULL, parent = NULL\<rparr>"
  let ?hn = "(hn_h s)(x \<mapsto> \<lparr>hnext = NULL, hcode = str_hash name\<rparr>)"
  define s1 where "s1 = s\<lparr>avl_h := (avl_h s)(x \<mapsto> ?a), hn_h := ?hn, zn_h := ?zn, brk := x + 1\<rparr>"
  have e1: "znode_new s name (len_of name) score = Some (s1, x)"
    using x(1) slice_full [OF len] by (simp add: znode_new_def s1_def avl_init_def x_def [symmetric])
  have "avl_h s1 y = avl_h s y \<and> hn_h s1 y = hn_h s y \<and> zn_h s1 y = zn_h s y" if "y \<in> set_tree t" for y
    using that x(2) by (auto simp: s1_def)
  moreover have "zs_h s1 z = zs_h s z" by (simp add: s1_def)
  ultimately have r1: "zset_repr s1 z t" "members s1 t = members s t"
    using zset_repr_cong [OF r] by blast+
  from zset_reprE [OF r1(1)] z(2) have z1: "zs_h s1 z = Some zs" "avl_tree (avl_h s1) (ztree zs) t"
    "hm_repr (hn_h s1) (zhmap zs) (set_tree t)" "keyed str_hash (name_of (zn_h s1)) (hn_h s1) (set_tree t)"
    "znodes_ok (zn_h s1) (set_tree t)" "sorted (map (\<lambda>x. mkey (member_of (zn_h s1) x)) (inorder t))"
    by (auto simp: s1_def)
  have card: "card (set_tree t) + 1 < hm_capacity"
  proof -
    have "card (set_tree t) \<le> size t" by (metis card_length length_inorder set_inorder)
    then show ?thesis using cap by (simp add: hm_capacity_def)
  qed
  have fx: "member_of (zn_h s1) y = member_of (zn_h s) y" if "y \<in> set_tree t" for y
    using that x(2) by (auto simp: s1_def member_of_upd)
  have fx1: "member_of (zn_h s1) x = (name, score)" by (simp add: s1_def member_of_upd)
  have img: "name_of (zn_h s1) ` set_tree t = name_of (zn_h s) ` set_tree t"
    by (simp add: fx cong: image_cong_simp)
  have "map_option hcode (hn_h s1 x) = Some (str_hash (name_of (zn_h s1) x))"
    unfolding fx1 by (simp add: s1_def)
  moreover have "name_of (zn_h s1) x \<notin> name_of (zn_h s1) ` set_tree t"
    unfolding img fx1 using new by simp
  ultimately obtain h m where i: "hm_insert (hn_h s1) (zhmap zs) x = Some (h, m)"
    "hm_repr h m (insert x (set_tree t))" "keyed str_hash (name_of (zn_h s1)) h (insert x (set_tree t))"
    "same_outside (insert x (set_tree t)) (hn_h s1) h"
    using hm.add_key [OF z1(3,4) card] x(1,2) by blast
  define s2 where "s2 = s1\<lparr>hn_h := h, zs_h := (zs_h s1)(z \<mapsto> zs\<lparr>zhmap := m\<rparr>)\<rparr>"
  have z2: "zs_h s2 z = Some (zs\<lparr>zhmap := m\<rparr>)" "avl_tree (avl_h s2) (ztree (zs\<lparr>zhmap := m\<rparr>)) t"
    "znodes_ok (zn_h s2) (set_tree t)" "sorted (map (\<lambda>x. mkey (member_of (zn_h s2) x)) (inorder t))"
    using z1 by (simp_all add: s2_def)
  have nok: "znode_ok ?n" using len score by (simp add: znode_ok_def)
  have "avl_h s2 x \<noteq> None" "zn_h s2 x = Some ?n" by (simp_all add: s2_def s1_def)
  from tree_add_repr [OF z(1) z2(1,2) cap z2(3,4) this(1) x(1,2) this(2) nok]
  obtain h' rt' t' xs ys where add:
    "tree_add s2 z x = Some (s2\<lparr>avl_h := h', zs_h := (zs_h s2)(z \<mapsto> zs\<lparr>zhmap := m, ztree := rt'\<rparr>)\<rparr>)"
    "avl_tree h' rt' t'" "sorted (map (\<lambda>x. mkey (member_of (zn_h s2) x)) (inorder t'))"
    "inorder t = xs @ ys" "inorder t' = xs @ x # ys" "same_outside (insert x (set_tree t)) (avl_h s2) h'"
    by auto
  define s' where "s' = s2\<lparr>avl_h := h', zs_h := (zs_h s2)(z \<mapsto> zs\<lparr>zhmap := m, ztree := rt'\<rparr>)\<rparr>"
  have "set (inorder t') = insert x (set (inorder t))" unfolding add(4,5) by auto
  then have set': "set_tree t' = insert x (set_tree t)" by simp
  have "znodes_ok (zn_h s1) (insert x (set_tree t))" using z1(5) nok by (simp add: znodes_ok_def s1_def)
  then have "zset_repr s' z t'"
    using z(1) i(2,3) add(2,3) unfolding zset_repr_def set' s'_def s2_def by simp
  moreover have "members s' t' = insort_key mkey (name, score) (members s t)"
  proof -
    have "fst (member_of (zn_h s1) x) \<notin> (\<lambda>y. fst (member_of (zn_h s1) y)) ` set (xs @ ys)"
      unfolding add(4) [symmetric] set_inorder img fx1 using new by simp
    then have "insort_key mkey (member_of (zn_h s1) x) (map (member_of (zn_h s1)) xs @ map (member_of (zn_h s1)) ys) =
        map (member_of (zn_h s1)) (xs @ x # ys)"
      using add(3,5) by (intro insort_members) (simp_all add: s2_def)
    moreover have "members s' t' = map (member_of (zn_h s1)) (xs @ x # ys)"
      by (simp add: members_def s'_def s2_def add(5))
    moreover have "members s t = map (member_of (zn_h s1)) xs @ map (member_of (zn_h s1)) ys"
      unfolding r1(2) [symmetric] by (simp add: members_def add(4))
    ultimately show ?thesis unfolding fx1 by simp
  qed
  moreover have "frame_ok s s' (set_tree t) {z}"
    using i(4) add(6) by (auto simp: frame_ok_def same_outside_def s'_def s2_def s1_def x_def)
  moreover have "store_ok s'"
  proof -
    have "p \<notin> insert x (set_tree t) \<and> p \<noteq> z" if "x < p" for p
      using zset_below [OF ok r] that by (auto simp: x_def dest: order.strict_trans)
    then show ?thesis using ok i(4) add(6)
      by (auto simp: store_ok_def same_outside_def s'_def s2_def s1_def x_def Suc_le_eq)
  qed
  moreover have "brk s' = brk s + 1" by (simp add: s'_def s2_def s1_def x_def)
  moreover have "deref (zs_h s1) z = Some zs" using z(1) z1(1) by simp
  moreover have "tree_add (s1\<lparr>hn_h := h, zs_h := (zs_h s1)(z \<mapsto> zs\<lparr>zhmap := m\<rparr>)\<rparr>) z x = Some s'"
    using add(1) by (simp add: s'_def s2_def)
  ultimately show ?thesis using e1 i(1) set' by blast
qed

lemma map_of_members_None: "map_of (members s t) name = None \<longleftrightarrow> name \<notin> name_of (zn_h s) ` set_tree t"
  by (simp add: map_of_eq_None_iff members_def image_image)


theorem zset_add_repr:
  assumes ok: "store_ok s" and r: "zset_repr s z t" and len: "length name < 2 ^ 32"
    and score: "\<not> dbl_is_nan score" and cap: "size t + 1 < 2 ^ 31"
  shows "\<exists>s' t' b. zset_add s z name (len_of name) score = Some (s', b) \<and> zset_repr s' z t' \<and>
    members s' t' = spec_add name score (members s t) \<and>
    (b \<longleftrightarrow> map_of (members s t) name = None) \<and> store_ok s' \<and> frame_ok s s' (set_tree t) {z} \<and>
    set_tree t' \<subseteq> set_tree t \<union> {x. brk s \<le> x \<and> x < brk s'}"
proof -
  from zset_lookup_node [OF r len] obtain s1 p where l: "zset_lookup s z name (len_of name) = Some (s1, p)"
    "zset_repr s1 z t" "node_for (name_of (zn_h s)) (set_tree t) name p"
    "frame_ok s s1 (set_tree t) {z}" "zn_h s1 = zn_h s" "avl_h s1 = avl_h s"
    "same_outside (set_tree t) (hn_h s) (hn_h s1)" "same_outside {z} (zs_h s) (zs_h s1)" "brk s1 = brk s" by blast
  have below: "\<forall>x \<in> set_tree t \<union> {z}. x < brk s" using zset_below [OF ok r] by blast
  have ok1: "store_ok s1"
    using store_ok_frame [OF ok l(9) _ l(7) _ l(8) below] l(5,6) by simp
  have m1: "members s1 t = members s t" by (simp add: members_def l(5))
  show ?thesis
  proof (cases "p = NULL")
    case True
    then have new: "name \<notin> name_of (zn_h s1) ` set_tree t" using l(3,5) by (simp add: node_for_def)
    from zset_insert_new [OF ok1 l(2) len score new cap] obtain s2 h m zs s' t' where
      i: "znode_new s1 name (len_of name) score = Some (s2, brk s1)" "deref (zs_h s2) z = Some zs"
      "hm_insert (hn_h s2) (zhmap zs) (brk s1) = Some (h, m)"
      "tree_add (s2\<lparr>hn_h := h, zs_h := (zs_h s2)(z \<mapsto> zs\<lparr>zhmap := m\<rparr>)\<rparr>) z (brk s1) = Some s'"
      "zset_repr s' z t'" "members s' t' = insort_key mkey (name, score) (members s1 t)"
      "set_tree t' = insert (brk s1) (set_tree t)" "store_ok s'" "brk s' = brk s1 + 1"
      "frame_ok s1 s' (set_tree t) {z}" by (elim exE conjE) (rule that; assumption)
    have "zset_add s z name (len_of name) score = Some (s', True)"
      using l(1) True i(1-4) by (simp add: zset_add_def)
    moreover have none: "map_of (members s t) name = None"
      using new by (simp add: map_of_members_None l(5))
    moreover have "members s' t' = spec_add name score (members s t)"
      using i(6) m1 none by (simp add: spec_add_def spec_remove_absent [OF none [unfolded map_of_eq_None_iff]])
    moreover have "frame_ok s s' (set_tree t) {z}" using l(4) i(10) by (rule frame_ok_trans) auto
    moreover have "set_tree t' \<subseteq> set_tree t \<union> {x. brk s \<le> x \<and> x < brk s'}" using i(7,9) l(9) by auto
    ultimately show ?thesis using i(5,8) by blast
  next
    case False
    then have p: "p \<in> set_tree t" "name_of (zn_h s) p = name" using l(3) by (auto simp: node_for_def)
    from zset_update_repr [OF l(2) p(1) score] obtain s' t' where
      u: "zset_update s1 z p score = Some s'" "zset_repr s' z t'" "set_tree t' = set_tree t"
      "members s' t' = spec_add (name_of (zn_h s1) p) score (members s1 t)"
      "same_outside (set_tree t) (avl_h s1) (avl_h s')" "hn_h s' = hn_h s1"
      "same_outside (set_tree t) (zn_h s1) (zn_h s')" "same_outside {z} (zs_h s1) (zs_h s')" "brk s' = brk s1" by blast
    have ok2: "store_ok s'"
      using store_ok_frame [OF ok1 u(9,5) _ u(7,8)] u(6) below l(9) by simp
    have "frame_ok s1 s' (set_tree t) {z}"
      using u(5-9) by (auto simp: frame_ok_def same_outside_def)
    with l(4) have "frame_ok s s' (set_tree t) {z}" by (rule frame_ok_trans) auto
    moreover have "zset_add s z name (len_of name) score = Some (s', False)"
      using l(1) False u(1) by (simp add: zset_add_def)
    moreover have "map_of (members s t) name \<noteq> None"
      unfolding map_of_members_None p(2) [symmetric] using imageI [OF p(1), of "name_of (zn_h s)"] by (simp only: not_not)
    moreover have "members s' t' = spec_add name score (members s t)" using u(4) p(2) l(5) m1 by simp
    moreover have "set_tree t' \<subseteq> set_tree t \<union> {x. brk s \<le> x \<and> x < brk s'}" using u(3) by blast
    moreover have "False \<longleftrightarrow> map_of (members s t) name = None" using calculation(3) by blast
    ultimately show ?thesis using u(2) ok2 by (intro exI conjI) assumption+
  qed
qed


section \<open>Removal and queries\<close>

theorem zset_pop_repr:
  assumes ok: "store_ok s" and r: "zset_repr s z t" and len: "length name < 2 ^ 32"
  shows "\<exists>s' t' p. zset_pop s z name (len_of name) = Some (s', p) \<and> zset_repr s' z t' \<and>
    members s' t' = spec_remove name (members s t) \<and> zn_h s' = zn_h s \<and>
    node_for (name_of (zn_h s)) (set_tree t) name p \<and> set_tree t' = set_tree t - {p} \<and>
    store_ok s' \<and> frame_ok s s' (set_tree t) {z} \<and> brk s' = brk s"
proof -
  from zset_reprE [OF r] obtain zs where z: "z \<noteq> NULL" "zs_h s z = Some zs" "avl_tree (avl_h s) (ztree zs) t"
    "hm_repr (hn_h s) (zhmap zs) (set_tree t)" "keyed str_hash (name_of (zn_h s)) (hn_h s) (set_tree t)"
    "znodes_ok (zn_h s) (set_tree t)" "sorted (map (\<lambda>x. mkey (member_of (zn_h s) x)) (inorder t))" .
  have below: "\<forall>x \<in> set_tree t \<union> {z}. x < brk s" using zset_below [OF ok r] by blast
  show ?thesis
  proof (cases "ztree zs = NULL")
    case True
    then have "t = Leaf" using z(3) by (auto simp: avl_tree_def)
    moreover have "zset_pop s z name (len_of name) = Some (s, NULL)"
      using z(1,2) True by (simp add: zset_pop_def)
    ultimately show ?thesis using r ok
      by (intro exI [of _ s] exI [of _ Leaf] exI [of _ NULL])
        (simp add: node_for_def frame_ok_def spec_remove_def members_def)
  next
    case False
    have eq: "hcmp (zn_h s) name (len_of name) x = Some (name_of (zn_h s) x = name)" if "x \<in> set_tree t" for x
      using hcmp_total [OF z(6) _ len that] avl_tree_nonnull [OF z(3)] by blast
    from hm.take_key [OF z(4,5) eq] obtain h m p where
      f: "hm_pop (hn_h s) (zhmap zs) (str_hash name) (hcmp (zn_h s) name (len_of name)) = Some (h, m, p)"
        "hm_repr h m (set_tree t - {p})" "keyed str_hash (name_of (zn_h s)) h (set_tree t - {p})"
        "same_outside (set_tree t) (hn_h s) h" "node_for (name_of (zn_h s)) (set_tree t) name p" by blast
    define s1 where "s1 = s\<lparr>hn_h := h, zs_h := (zs_h s)(z \<mapsto> zs\<lparr>zhmap := m\<rparr>)\<rparr>"
    show ?thesis
    proof (cases "p = NULL")
      case True
      have Np: "set_tree t - {p} = set_tree t" using True avl_tree_nonnull [OF z(3)] by blast
      have "zset_pop s z name (len_of name) = Some (s1, p)"
        using z(1,2) False f(1) slice_full [OF len] True by (simp add: zset_pop_def s1_def)
      moreover have "zset_repr s1 z t"
        using z f(2,3) unfolding Np by (simp add: zset_repr_def s1_def)
      moreover have "members s1 t = spec_remove name (members s t)"
      proof -
        have "map_of (members s t) name = None" using members_map_of [OF r f(5)] True by simp
        then show ?thesis by (simp add: map_of_eq_None_iff spec_remove_absent) (simp add: members_def s1_def)
      qed
      moreover have "store_ok s1"
        using store_ok_frame [OF ok _ _ _ _ _ below, of s1] f(4) by (simp add: s1_def same_outside_def)
      moreover have "frame_ok s s1 (set_tree t) {z}" "zn_h s1 = zn_h s" "brk s1 = brk s"
        using f(4) by (auto simp: s1_def frame_ok_def same_outside_def)
      ultimately show ?thesis using f(5) Np by blast
    next
      case pnn: False
      then have p: "p \<in> set_tree t" "name_of (zn_h s) p = name" using f(5) by (auto simp: node_for_def)
      from avl_tree_delete [OF z(3) p(1)] obtain h1 rt1 t1 where d: "avl_del (avl_h s) p = Some (h1, rt1)"
        "avl_tree h1 rt1 t1" "inorder t1 = remove1 p (inorder t)" "same_outside (set_tree t) (avl_h s) h1" by blast
      define s2 where "s2 = s1\<lparr>avl_h := h1, zs_h := (zs_h s1)(z \<mapsto> zs\<lparr>ztree := rt1, zhmap := m\<rparr>)\<rparr>"
      have set1: "set_tree t1 = set_tree t - {p}"
        using arg_cong [OF d(3), of set] distinct_members(3) [OF r] by simp
      have "zset_pop s z name (len_of name) = Some (s2, p)"
        using z(1,2) False f(1) slice_full [OF len] pnn d(1) by (simp add: zset_pop_def s2_def s1_def)
      moreover have "sorted (map (\<lambda>x. mkey (member_of (zn_h s) x)) (inorder t1))"
        unfolding d(3) using z(7) by (rule sorted_map_remove1)
      then have "zset_repr s2 z t1"
        using z(1,6) f(2,3) d(2) unfolding zset_repr_def set1 by (simp add: s2_def s1_def znodes_ok_def)
      moreover have "members s2 t1 = spec_remove name (members s t)"
        using members_remove [OF r p(1)] p(2) by (simp add: members_def s2_def s1_def d(3))
      moreover have "store_ok s2"
        using store_ok_frame [OF ok _ _ _ _ _ below, of s2] f(4) d(4) by (simp add: s2_def s1_def same_outside_def)
      moreover have "frame_ok s s2 (set_tree t) {z}" "zn_h s2 = zn_h s" "brk s2 = brk s"
        using f(4) d(4) by (auto simp: s2_def s1_def frame_ok_def same_outside_def)
      ultimately show ?thesis using f(5) set1 by blast
    qed
  qed
qed

lemma find_append: "find P (xs @ ys) = (case find P xs of None \<Rightarrow> find P ys | Some x \<Rightarrow> Some x)"
  by (induction xs) simp_all

text \<open>The first member that is not below \<open>(score, name)\<close>.\<close>

lemma zset_query_loop_repr:
  assumes "repr h par t" "\<And>a. a \<in> set_tree t \<Longrightarrow> below a = Some (bl a)"
    and "sorted_wrt (\<lambda>a b. bl b \<longrightarrow> bl a) (inorder t)"
  shows "zset_query_loop h below (root_ptr t) best =
    Some (case find (\<lambda>a. \<not> bl a) (inorder t) of None \<Rightarrow> best | Some a \<Rightarrow> a)"
  using assms
proof (induction t arbitrary: par best)
  case Leaf
  then show ?case by (subst zset_query_loop.simps) simp
next
  case (Node l a r)
  have s: "sorted_wrt (\<lambda>a b. bl b \<longrightarrow> bl a) (inorder l)" "sorted_wrt (\<lambda>a b. bl b \<longrightarrow> bl a) (inorder r)"
    "\<forall>b \<in> set_tree l. bl a \<longrightarrow> bl b"
    using Node.prems(3) by (auto simp: sorted_wrt_append)
  have step: "zset_query_loop h below a best = (if bl a then zset_query_loop h below (root_ptr r) best
      else zset_query_loop h below (root_ptr l) a)"
    using Node.prems(1,2) by (subst zset_query_loop.simps) simp
  show ?case
  proof (cases "bl a")
    case True
    then have "find (\<lambda>a. \<not> bl a) (inorder l) = None" using s(3) by (auto simp: find_None_iff)
    then have "find (\<lambda>a. \<not> bl a) (inorder l @ a # inorder r) = find (\<lambda>a. \<not> bl a) (inorder r)"
      using True by (simp add: find_append)
    then show ?thesis using True step Node.IH(2) [of a best] Node.prems(1,2) s(2) by simp
  next
    case False
    then have "find (\<lambda>a. \<not> bl a) (inorder l @ a # inorder r) =
        (case find (\<lambda>a. \<not> bl a) (inorder l) of None \<Rightarrow> Some a | Some b \<Rightarrow> Some b)"
      by (simp add: find_append split: option.split)
    then show ?thesis using False step Node.IH(1) [of a a] Node.prems(1,2) s(1) by (simp split: option.splits)
  qed
qed

theorem zset_query_repr:
  assumes r: "zset_repr s z t" and len: "length name < 2 ^ 32" and score: "\<not> dbl_is_nan score"
  shows "\<exists>p. zset_query s z score name (len_of name) = Some p \<and>
    find (\<lambda>x. \<not> mkey (member_of (zn_h s) x) < mkey (name, score)) (inorder t) =
      (if p = NULL then None else Some p)"
proof -
  from zset_reprE [OF r] obtain zs where z: "z \<noteq> NULL" "zs_h s z = Some zs" "avl_tree (avl_h s) (ztree zs) t"
    "znodes_ok (zn_h s) (set_tree t)" "sorted (map (\<lambda>x. mkey (member_of (zn_h s) x)) (inorder t))" by metis
  let ?bl = "\<lambda>x. mkey (member_of (zn_h s) x) < mkey (name, score)"
  have below: "zless_key (zn_h s) a score name (len_of name) = Some (?bl a)" if "a \<in> set_tree t" for a
    using znodes_okD [OF z(4) that] zless_key_mkey [OF avl_tree_nonnull [OF z(3) that] _ _ score len] by blast
  have "sorted_wrt (\<lambda>a b. ?bl b \<longrightarrow> ?bl a) (inorder t)"
    using z(5) unfolding sorted_map by (rule sorted_wrt_mono_rel [rotated]) (auto intro: le_less_trans)
  from zset_query_loop_repr [of _ NULL t, OF _ below this, of "avl_h s" NULL] z
  have "zset_query s z score name (len_of name) =
      Some (case find (\<lambda>a. \<not> ?bl a) (inorder t) of None \<Rightarrow> NULL | Some a \<Rightarrow> a)"
    by (simp add: zset_query_def avl_tree_def)
  moreover have "a \<noteq> NULL" if "find (\<lambda>a. \<not> ?bl a) (inorder t) = Some a" for a
  proof -
    have "a \<in> set_tree t" using that by (auto simp: find_Some_iff in_set_conv_nth simp flip: set_inorder)
    then show ?thesis by (rule avl_tree_nonnull [OF z(3)])
  qed
  ultimately show ?thesis by (cases "find (\<lambda>a. \<not> ?bl a) (inorder t)") auto
qed


section \<open>Creation and disposal\<close>

lemma zset_new_repr:
  assumes "store_ok s"
  shows "zset_repr (fst (zset_new s)) (brk s) Leaf" and "store_ok (fst (zset_new s))"
    and "frame_ok s (fst (zset_new s)) {} {}" and "brk (fst (zset_new s)) = brk s + 1"
  using assms hm_repr_empty
  by (auto simp: zset_repr_def zset_new_def ZSet0_def avl_tree_def keyed_def znodes_ok_def store_ok_def
      frame_ok_def)

definition free_nodes :: "store \<Rightarrow> ptr set \<Rightarrow> store" where
  "free_nodes s N = s\<lparr>avl_h := avl_h s |` (- N), hn_h := hn_h s |` (- N), zn_h := zn_h s |` (- N)\<rparr>"

lemma restrict_map_UNIV [simp]: "f |` UNIV = f"
  by (simp add: restrict_map_def)

lemma free_nodes_empty [simp]: "free_nodes s {} = s"
  by (simp add: free_nodes_def)

lemma free_nodes_Un: "free_nodes (free_nodes s M) N = free_nodes s (M \<union> N)"
  by (simp add: free_nodes_def Int_commute Compl_Un)

lemma fun_upd_None_restrict: "f(x := None) = f |` (- {x})"
  by (auto simp: restrict_map_def)

lemma tree_dispose_repr:
  assumes "repr (avl_h s) par t" "distinct (inorder t)" "\<forall>x \<in> set_tree t. zn_h s x \<noteq> None"
  shows "tree_dispose s (root_ptr t) = Some (free_nodes s (set_tree t))"
  using assms
proof (induction t arbitrary: s par)
  case Leaf
  then show ?case by (subst tree_dispose.simps) simp
next
  case (Node l a r)
  have l: "tree_dispose s (root_ptr l) = Some (free_nodes s (set_tree l))"
    by (rule Node.IH(1) [where par = a]) (use Node.prems in auto)
  let ?s = "free_nodes s (set_tree l)"
  have dis: "a \<notin> set_tree l" "a \<notin> set_tree r" "set_tree l \<inter> set_tree r = {}" using Node.prems(2) by auto
  have "repr (avl_h ?s) a r = repr (avl_h s) a r"
    using dis(3) by (intro repr_cong) (auto simp: free_nodes_def restrict_map_def)
  then have r: "tree_dispose ?s (root_ptr r) = Some (free_nodes ?s (set_tree r))"
    using Node.prems dis(3)
    by (intro Node.IH(2) [where par = a]) (auto simp: free_nodes_def restrict_map_def)
  have "avl_h ?s a = Some (node_of par l r)" "zn_h (free_nodes ?s (set_tree r)) a \<noteq> None" "a \<noteq> NULL"
    using Node.prems dis by (auto simp: free_nodes_def restrict_map_def)
  then have "tree_dispose s a = znode_del (free_nodes ?s (set_tree r)) a"
    using Node.prems(1) l r by (subst tree_dispose.simps) simp
  also have "\<dots> = Some (free_nodes (free_nodes ?s (set_tree r)) {a})"
    using \<open>zn_h (free_nodes ?s (set_tree r)) a \<noteq> None\<close> \<open>a \<noteq> NULL\<close>
    by (auto simp: znode_del_def fun_upd_None_restrict free_nodes_def [of _ "{a}"])
  finally show ?case by (simp add: free_nodes_Un Un_ac)
qed

theorem zset_dispose_repr:
  assumes "zset_repr s z t"
  shows "\<exists>s'. zset_dispose s z = Some s' \<and> (\<forall>x \<in> set_tree t. avl_h s' x = None \<and> hn_h s' x = None \<and> zn_h s' x = None) \<and>
    frame_ok s s' (set_tree t) {z} \<and> brk s' = brk s"
proof -
  from zset_reprE [OF assms] obtain zs where z: "z \<noteq> NULL" "zs_h s z = Some zs" "avl_tree (avl_h s) (ztree zs) t"
    "znodes_ok (zn_h s) (set_tree t)" by metis
  have "\<forall>x \<in> set_tree t. zn_h s x \<noteq> None" using z(4) by (auto simp: znodes_ok_def)
  with z(3) have "tree_dispose s (ztree zs) = Some (free_nodes s (set_tree t))"
    using tree_dispose_repr [of s NULL t] by (simp add: avl_tree_def)
  then show ?thesis using z(1,2)
    by (simp add: zset_dispose_def) (auto simp: free_nodes_def frame_ok_def)
qed

theorem zset_lookup_repr:
  assumes ok: "store_ok s" and r: "zset_repr s z t" and len: "length name < 2 ^ 32"
  shows "\<exists>s' p. zset_lookup s z name (len_of name) = Some (s', p) \<and> zset_repr s' z t \<and>
    members s' t = members s t \<and> store_ok s' \<and> frame_ok s s' (set_tree t) {z} \<and>
    node_for (name_of (zn_h s)) (set_tree t) name p \<and> zn_h s' = zn_h s \<and>
    brk s' = brk s"
proof -
  from zset_lookup_node [OF r len] obtain s' p where l: "zset_lookup s z name (len_of name) = Some (s', p)"
    "zset_repr s' z t" "node_for (name_of (zn_h s)) (set_tree t) name p"
    "frame_ok s s' (set_tree t) {z}" "zn_h s' = zn_h s" "avl_h s' = avl_h s"
    "same_outside (set_tree t) (hn_h s) (hn_h s')" "same_outside {z} (zs_h s) (zs_h s')" "brk s' = brk s" by blast
  have "store_ok s'"
    using store_ok_frame [OF ok l(9) _ l(7) _ l(8)] l(5,6) zset_below [OF ok r] by simp
  then show ?thesis using l by (auto simp: members_def)
qed

section \<open>Properties of the sorted set\<close>

text \<open>An empty store with one empty set at address 1, the example of the witnesses.\<close>

definition store0 :: store where
  "store0 = \<lparr>avl_h = Map.empty, hn_h = Map.empty, zn_h = Map.empty, zs_h = Map.empty, brk = 1\<rparr>"

definition one_zset :: store where
  "one_zset = fst (zset_new store0)"

lemma store_ok_store0: "store_ok store0"
  by (simp add: store_ok_def store0_def)

lemma one_zset_ok: "store_ok one_zset" "zset_rep one_zset 1 []"
  using zset_new_repr [OF store_ok_store0]
  by (auto simp: one_zset_def zset_rep_def members_def store0_def intro!: exI [of _ Leaf])

text \<open>
  C12. \<open>zset_add\<close>, for a name with its length and a score that is not NaN, returns; the set has the member
  with that score afterwards, in its place in the (score, name) order, every other member is as before,
  and the result says whether the name was new.
\<close>

theorem zset_add_correct:
  assumes "store_ok s" "zset_rep s z ms" "length name < 2 ^ 32" "\<not> dbl_is_nan score" "length ms + 1 < 2 ^ 31"
  shows "\<exists>s' b. zset_add s z name (of_nat (length name)) score = Some (s', b) \<and>
    store_ok s' \<and> zset_rep s' z (spec_add name score ms) \<and> (b \<longleftrightarrow> name \<notin> fst ` set ms)"
proof -
  from assms(2) obtain t where t: "zset_repr s z t" "ms = members s t" by (auto simp: zset_rep_def)
  have "size t + 1 < 2 ^ 31" using assms(5) t(2) by (simp add: members_def)
  from zset_add_repr [OF assms(1) t(1) assms(3,4) this] obtain s' t' b where
    f: "zset_add s z name (of_nat (length name)) score = Some (s', b)" "zset_repr s' z t'"
      "members s' t' = spec_add name score ms" "b \<longleftrightarrow> map_of ms name = None" "store_ok s'"
    unfolding t(2) by blast
  have "b \<longleftrightarrow> name \<notin> fst ` set ms" using f(4) by (simp add: map_of_eq_None_iff)
  moreover have "zset_rep s' z (spec_add name score ms)" using f(2,3) unfolding zset_rep_def by metis
  ultimately show ?thesis using f(1,5) by blast
qed

theorem zset_add_correct_witness:
  "\<exists>s' b. zset_add one_zset 1 [97] 1 0x3FF0000000000000 = Some (s', b) \<and> b \<and>
    zset_rep s' 1 [([97], 0x3FF0000000000000)]"
  using zset_add_correct [OF one_zset_ok, of "[97]" "0x3FF0000000000000"]
  by (auto simp: spec_add_def spec_remove_def dbl_is_nan_def)

lemma one_member:
  "\<exists>s. store_ok s \<and> zset_rep s 1 [([97], 0x3FF0000000000000)]"
proof -
  from one_zset_ok(2) obtain t where t: "zset_repr one_zset 1 t" "members one_zset t = []" by (auto simp: zset_rep_def)
  then have "t = Leaf" by (cases t) (auto simp: members_def)
  with zset_add_repr [OF one_zset_ok(1) t(1), of "[97]" "0x3FF0000000000000"] t(2) obtain s' t' where
    "store_ok s'" "zset_repr s' 1 t'" "members s' t' = [([97], 0x3FF0000000000000)]"
    by (auto simp: spec_add_def spec_remove_def dbl_is_nan_def)
  then show ?thesis unfolding zset_rep_def by metis
qed

text \<open>
  C13. \<open>zset_pop\<close> takes the member of the name out of both indexes and returns its node, still allocated,
  or \<open>NULL\<close> when there is no such member; the others keep their order.
\<close>

theorem zset_pop_correct:
  assumes "store_ok s" "zset_rep s z ms" "length name < 2 ^ 32"
  shows "\<exists>s' p. zset_pop s z name (of_nat (length name)) = Some (s', p) \<and>
    store_ok s' \<and> zset_rep s' z (spec_remove name ms) \<and>
    (if p = NULL then name \<notin> fst ` set ms
     else \<exists>n. zn_h s' p = Some n \<and> zname n = name \<and> map_of ms name = Some (zscore n))"
proof -
  from assms(2) obtain t where t: "zset_repr s z t" "ms = members s t" by (auto simp: zset_rep_def)
  from zset_pop_repr [OF assms(1) t(1) assms(3)] obtain s' t' p where
    f: "zset_pop s z name (of_nat (length name)) = Some (s', p)" "zset_repr s' z t'"
      "members s' t' = spec_remove name (members s t)" "zn_h s' = zn_h s"
      "node_for (name_of (zn_h s)) (set_tree t) name p" "store_ok s'" by blast
  have "if p = NULL then name \<notin> fst ` set ms
     else \<exists>n. zn_h s' p = Some n \<and> zname n = name \<and> map_of ms name = Some (zscore n)"
    using members_map_of [OF t(1) f(5)] node_for_score [OF t(1) f(5)] f(4) t(2)
    by (cases "p = NULL") (simp add: map_of_eq_None_iff, fastforce)
  with f show ?thesis unfolding zset_rep_def t(2) by metis
qed

theorem zset_pop_correct_witness:
  "\<exists>s s' p. zset_rep s 1 [([97], 0x3FF0000000000000)] \<and> zset_pop s 1 [97] 1 = Some (s', p) \<and> p \<noteq> 0 \<and>
    zset_rep s' 1 []"
proof -
  from one_member obtain s where s: "store_ok s" "zset_rep s 1 [([97], 0x3FF0000000000000)]" by blast
  from zset_pop_correct [OF s, of "[97]"] s(2) show ?thesis
    by (auto simp: spec_remove_def split: if_splits)
qed

text \<open>
  \<open>zset_lookup\<close> finds the node of a name exactly when the set has such a member, and its stored
  score is the member's; the set is unchanged, although its hash map may have moved nodes.
\<close>

theorem zset_lookup_correct:
  assumes "store_ok s" "zset_rep s z ms" "length name < 2 ^ 32"
  shows "\<exists>s' p. zset_lookup s z name (of_nat (length name)) = Some (s', p) \<and> store_ok s' \<and> zset_rep s' z ms \<and>
    (if p = NULL then name \<notin> fst ` set ms
     else \<exists>n. zn_h s' p = Some n \<and> zname n = name \<and> map_of ms name = Some (zscore n))"
proof -
  from assms(2) obtain t where t: "zset_repr s z t" "ms = members s t" by (auto simp: zset_rep_def)
  from zset_lookup_repr [OF assms(1) t(1) assms(3)] obtain s' p where
    f: "zset_lookup s z name (of_nat (length name)) = Some (s', p)" "zset_repr s' z t"
      "members s' t = members s t" "store_ok s'" "node_for (name_of (zn_h s)) (set_tree t) name p"
      "zn_h s' = zn_h s" by blast
  have "if p = NULL then name \<notin> fst ` set ms
     else \<exists>n. zn_h s' p = Some n \<and> zname n = name \<and> map_of ms name = Some (zscore n)"
    using members_map_of [OF t(1) f(5)] node_for_score [OF t(1) f(5)] f(6) t(2)
    by (cases "p = NULL") (simp add: map_of_eq_None_iff, fastforce)
  with f show ?thesis unfolding zset_rep_def t(2) by metis
qed

theorem zset_lookup_correct_witness:
  "\<exists>s s' p n. zset_rep s 1 [([97], 0x3FF0000000000000)] \<and> zset_lookup s 1 [97] 1 = Some (s', p) \<and>
    zn_h s' p = Some n \<and> zscore n = 0x3FF0000000000000"
proof -
  from one_member obtain s where s: "store_ok s" "zset_rep s 1 [([97], 0x3FF0000000000000)]" by blast
  from zset_lookup_correct [OF s, of "[97]"] s(2) show ?thesis by (auto split: if_splits)
qed

text \<open>
  C14. \<open>zset_query\<close> returns the first node in the (score, name) order that is not below the pair it is
  called with, \<open>NULL\<close> when all are.
\<close>

theorem zset_query_correct:
  assumes "zset_rep s z ms" "length name < 2 ^ 32" "\<not> dbl_is_nan score"
  shows "\<exists>p. zset_query s z score name (of_nat (length name)) = Some p \<and>
    (case spec_query name score ms of None \<Rightarrow> p = NULL | Some m \<Rightarrow> p \<noteq> NULL \<and> member_of (zn_h s) p = m)"
proof -
  from assms(1) obtain t where t: "zset_repr s z t" "ms = members s t" by (auto simp: zset_rep_def)
  from zset_query_repr [OF t(1) assms(2,3)] obtain p where
    f: "zset_query s z score name (of_nat (length name)) = Some p"
      "find (\<lambda>x. \<not> mkey (member_of (zn_h s) x) < mkey (name, score)) (inorder t) = (if p = NULL then None else Some p)"
    by blast
  have "find P (map g xs) = map_option g (find (\<lambda>x. P (g x)) xs)" for P and g :: "ptr \<Rightarrow> member" and xs
    by (induction xs) auto
  with f t(2) show ?thesis by (auto simp: spec_query_def members_def)
qed

theorem zset_query_correct_witness:
  "\<exists>s p. zset_rep s 1 [([97], 0x3FF0000000000000)] \<and> zset_query s 1 0 [] 0 = Some p \<and>
    member_of (zn_h s) p = ([97], 0x3FF0000000000000)"
proof -
  from one_member obtain s where s: "store_ok s" "zset_rep s 1 [([97], 0x3FF0000000000000)]" by blast
  from zset_query_correct [OF s(2), of "[]" 0] s(2) show ?thesis
    by (auto simp: spec_query_def dbl_is_nan_def mkey_def dbl_key_def split: if_splits)
qed

text \<open>
  The members are always strictly ordered by (score, name) and no name is there twice: what
  \<open>zset_rep\<close> promises of the list, and so what all operations keep.
\<close>

theorem zset_add_sorted:
  assumes "store_ok s" "zset_rep s z ms" "length name < 2 ^ 32" "\<not> dbl_is_nan score" "length ms + 1 < 2 ^ 31"
  shows "\<exists>s' b ms'. zset_add s z name (of_nat (length name)) score = Some (s', b) \<and> zset_rep s' z ms' \<and>
    sorted_wrt (<) (map mkey ms') \<and> distinct (map fst ms')"
proof -
  from assms(2) obtain t where t: "zset_repr s z t" "ms = members s t" by (auto simp: zset_rep_def)
  have "size t + 1 < 2 ^ 31" using assms(5) t(2) by (simp add: members_def)
  from zset_add_repr [OF assms(1) t(1) assms(3,4) this] obtain s' t' b where
    f: "zset_add s z name (of_nat (length name)) score = Some (s', b)" "zset_repr s' z t'" by blast
  have r: "inj_on (name_of (zn_h s')) (set (inorder t'))" "distinct (inorder t')"
    "sorted (map (\<lambda>x. mkey (member_of (zn_h s') x)) (inorder t'))"
    using f(2) by (auto simp: zset_repr_def keyed_def avl_tree_def)
  have d: "distinct (map fst (members s' t'))"
    using r(1,2) by (simp add: members_def distinct_map comp_def)
  have "map fst ys = map snd (map mkey ys)" for ys by (simp add: mkey_def)
  then have "distinct (map mkey (members s' t'))" using d distinct_map by metis
  then have "sorted_wrt (<) (map mkey (members s' t'))"
    using r(3) by (simp add: strict_sorted_iff members_def comp_def)
  with f d show ?thesis unfolding zset_rep_def by blast
qed

theorem zset_add_sorted_witness:
  "\<exists>s' b ms'. zset_add one_zset 1 [97] 1 0 = Some (s', b) \<and> zset_rep s' 1 ms' \<and> sorted_wrt (<) (map mkey ms')"
  using zset_add_sorted [OF one_zset_ok, of "[97]" 0] by (auto simp: dbl_is_nan_def)

text \<open>
  \<open>zless\<close> on two nodes is the strict lexicographic order on score and name, the names compared
  byte by byte as unsigned numbers; the order is total, so two members are equal only when both agree.
\<close>

theorem zless_lexicographic:
  assumes "a \<noteq> NULL" "zh a = Some n" "znode_ok n" "b \<noteq> NULL" "zh b = Some m" "znode_ok m"
  shows "zless zh a b = Some (dbl_lt (zscore n) (zscore m) \<or> dbl_eq (zscore n) (zscore m) \<and> zname n < zname m)"
  using zless_mkey [of a zh n b m] assms
  by (simp add: mkey_def less_prod_def dbl_trichotomy znode_ok_def) linarith?

theorem zless_lexicographic_witness:
  "zless [1 \<mapsto> \<lparr>zscore = 0, zlen = 1, zname = [97]\<rparr>, 2 \<mapsto> \<lparr>zscore = 0, zlen = 1, zname = [98]\<rparr>] 1 2 = Some True"
proof -
  let ?a = "\<lparr>zscore = 0, zlen = 1, zname = [97]\<rparr>" and ?b = "\<lparr>zscore = 0, zlen = 1, zname = [98]\<rparr>"
  have "znode_ok ?a" "znode_ok ?b" by (simp_all add: znode_ok_def dbl_is_nan_def)
  with zless_lexicographic [of 1 "[1 \<mapsto> ?a, 2 \<mapsto> ?b]" ?a 2 ?b] show ?thesis
    by (simp add: dbl_is_nan_def dbl_eq_def dbl_lt_def)
qed

text \<open>
  C29. \<open>zset_dispose\<close> frees every node of the set, in both indexes, and touches no object that is
  neither the set nor one of its nodes.
\<close>

theorem zset_dispose_correct:
  assumes "zset_repr s z t"
  shows "\<exists>s'. zset_dispose s z = Some s' \<and>
    (\<forall>x \<in> set_tree t. avl_h s' x = None \<and> hn_h s' x = None \<and> zn_h s' x = None) \<and>
    frame_ok s s' (set_tree t) {z} \<and> brk s' = brk s"
  using assms by (rule zset_dispose_repr)

theorem zset_dispose_correct_witness:
  "\<exists>s t x s'. zset_repr s 1 t \<and> set_tree t = {x} \<and> zset_dispose s 1 = Some s' \<and>
    avl_h s' x = None \<and> hn_h s' x = None \<and> zn_h s' x = None"
proof -
  from one_member obtain s t where t: "zset_repr s 1 t" "[([97], 0x3FF0000000000000)] = members s t"
    unfolding zset_rep_def by blast
  then have "length (inorder t) = 1" by (metis length_Cons length_map list.size(3) members_def One_nat_def)
  then obtain x where "inorder t = [x]" by (auto simp del: length_inorder simp: length_Suc_conv)
  then have "set_tree t = {x}" by (simp flip: set_inorder)
  with zset_dispose_correct [OF t(1)] t(1) show ?thesis by auto
qed

end
