(* ===== verification/ZSet_Balance.thy ===== *)
theory ZSet_Balance
  imports ZSet_Refine
begin

text \<open>
  Sorted sets stay balanced: what any sequence of insertions and removals on a new set leaves in the fields
  \<open>depth\<close> and \<open>cnt\<close> of the tree.
\<close>

section \<open>Sequences of operations\<close>

text \<open>The calls of a client of the sorted set; \<open>zset_new\<close> starts with none.\<close>

datatype zset_op = Zadd "byte list" u64 | Zpop "byte list"

fun zset_ops :: "zset_op list \<Rightarrow> store \<Rightarrow> ptr \<Rightarrow> store option" where
  "zset_ops [] s z = Some s"
| "zset_ops (Zadd name score # ops) s z = do {
     (s, _) \<leftarrow> zset_add s z name (of_nat (length name)) score;
     zset_ops ops s z }"
| "zset_ops (Zpop name # ops) s z = do {
     (s, _) \<leftarrow> zset_pop s z name (of_nat (length name));
     zset_ops ops s z }"

fun spec_ops :: "zset_op list \<Rightarrow> member list \<Rightarrow> member list" where
  "spec_ops [] ms = ms"
| "spec_ops (Zadd name score # ops) ms = spec_ops ops (spec_add name score ms)"
| "spec_ops (Zpop name # ops) ms = spec_ops ops (spec_remove name ms)"

fun op_ok :: "zset_op \<Rightarrow> bool" where
  "op_ok (Zadd name score) \<longleftrightarrow> length name < 2 ^ 32 \<and> \<not> dbl_is_nan score"
| "op_ok (Zpop name) \<longleftrightarrow> length name < 2 ^ 32"

lemma zset_ops_repr:
  assumes "store_ok s" "zset_repr s z t" "\<forall>x \<in> set ops. op_ok x" "length (members s t) + length ops < 2 ^ 31"
  shows "\<exists>s' t'. zset_ops ops s z = Some s' \<and> zset_repr s' z t' \<and> members s' t' = spec_ops ops (members s t)"
  using assms
proof (induction ops arbitrary: s t)
  case Nil
  then show ?case by auto
next
  case (Cons op ops)
  have small: "length (members s t) + 1 + length ops < 2 ^ 31" using Cons.prems(4) by simp
  show ?case
  proof (cases op)
    case (Zadd name score)
    have "size t + 1 < 2 ^ 31" using small by (simp add: members_def)
    with zset_add_repr [OF Cons.prems(1,2), of name score] Zadd Cons.prems(3) obtain s' t' b where
      a: "zset_add s z name (of_nat (length name)) score = Some (s', b)" "zset_repr s' z t'"
        "members s' t' = spec_add name score (members s t)" "store_ok s'" by auto
    have "length (members s' t') + length ops < 2 ^ 31"
      using small length_spec_add [of name score "members s t"] a(3) by simp
    with Cons.IH [OF a(4,2)] Cons.prems(3) a(1,3) Zadd show ?thesis by simp
  next
    case (Zpop name)
    with zset_pop_repr [OF Cons.prems(1,2), of name] Cons.prems(3) obtain s' t' p where
      a: "zset_pop s z name (of_nat (length name)) = Some (s', p)" "zset_repr s' z t'"
        "members s' t' = spec_remove name (members s t)" "store_ok s'" by auto
    have "length (members s' t') + length ops < 2 ^ 31"
      using small length_spec_remove [of name "members s t"] a(3) by simp
    with Cons.IH [OF a(4,2)] Cons.prems(3) a(1,3) Zpop show ?thesis by simp
  qed
qed

text \<open>The fields of the root count and bound the tree.\<close>

lemma root_fields:
  assumes "avl_tree h rt t" "rt \<noteq> NULL"
  shows "\<exists>n. h rt = Some n \<and> unat (depth n) = height t \<and> unat (cnt n) = size t \<and>
    2 ^ (unat (depth n) div 2) \<le> unat (cnt n) + 1"
proof -
  from assms obtain l r where t: "t = Node l rt r" by (cases t) (auto simp: avl_tree_def)
  have w: "repr h NULL t" "avl t" "size t < 2 ^ 31" using assms(1) by (auto simp: avl_tree_def)
  have "height t \<le> size t" by (rule height_le_size)
  then have "unat (of_nat (height t) :: u32) = height t" "unat (of_nat (size t) :: u32) = size t"
    using w(3) by (simp_all add: unsigned_of_nat take_bit_nat_eq_self_iff)
  then show ?thesis using w(1) avl_size_height [OF w(2)] t by (simp add: node_of_def size1_size)
qed

text \<open>
  C17. Sorted sets stay balanced.  Any sequence of less than \<open>2 ^ 31\<close> calls of \<open>zset_add\<close> and \<open>zset_pop\<close> on
  a new set returns, and afterwards the fields the code keeps in the root of the tree are right: \<open>cnt\<close> is
  the number of members, \<open>depth\<close> the height of the tree of pointers, that is the longest way a search can
  go, and a tree of depth \<open>d\<close> has at least \<open>2 ^ (d / 2) - 1\<close> members; the tree is \<open>NULL\<close> when there are none.
\<close>

theorem zset_depth_logarithmic:
  assumes "\<forall>x \<in> set ops. op_ok x" "length ops < 2 ^ 31"
  shows "\<exists>s zs t. zset_ops ops (fst (zset_new store0)) (snd (zset_new store0)) = Some s \<and>
    zs_h s (snd (zset_new store0)) = Some zs \<and> avl_tree (avl_h s) (ztree zs) t \<and>
    members s t = spec_ops ops [] \<and>
    (if spec_ops ops [] = [] then ztree zs = NULL
     else \<exists>n. avl_h s (ztree zs) = Some n \<and> unat (cnt n) = length (spec_ops ops []) \<and>
       unat (depth n) = height t \<and> 2 ^ (unat (depth n) div 2) \<le> length (spec_ops ops []) + 1)"
proof -
  have z: "snd (zset_new store0) = 1" by (simp add: zset_new_def store0_def)
  from one_zset_ok(2) obtain t0 where t0: "zset_repr one_zset 1 t0" "members one_zset t0 = []"
    by (auto simp: zset_rep_def)
  from zset_ops_repr [OF one_zset_ok(1) t0(1) assms(1)] assms(2) t0(2) obtain s t where
    s: "zset_ops ops one_zset 1 = Some s" "zset_repr s 1 t" "members s t = spec_ops ops []" by auto
  from s(2) obtain zs where zs: "zs_h s 1 = Some zs" "avl_tree (avl_h s) (ztree zs) t"
    by (elim zset_reprE) simp
  have len: "size t = length (spec_ops ops [])" using s(3) by (simp add: members_def flip: s(3))
  have "ztree zs = NULL \<longleftrightarrow> t = Leaf" using zs(2) by (cases t) (auto simp: avl_tree_def)
  then have "ztree zs = NULL \<longleftrightarrow> spec_ops ops [] = []" using s(3) by (auto simp: members_def)
  with root_fields [OF zs(2)] s zs len show ?thesis
    unfolding z one_zset_def [symmetric] by (intro exI [of _ s] exI [of _ zs] exI [of _ t]) auto
qed

theorem zset_depth_logarithmic_witness:
  "\<exists>s zs n. zset_ops [Zadd [97] 0, Zadd [98] 0, Zpop [97]] (fst (zset_new store0)) (snd (zset_new store0)) = Some s \<and>
    zs_h s (snd (zset_new store0)) = Some zs \<and> avl_h s (ztree zs) = Some n \<and> unat (cnt n) = 1 \<and>
    2 ^ (unat (depth n) div 2) \<le> (2 :: nat)"
proof -
  let ?ops = "[Zadd [97] 0, Zadd [98] 0, Zpop [97]]"
  have "\<forall>x \<in> set ?ops. op_ok x" by (simp add: dbl_is_nan_def)
  moreover have "length ?ops < 2 ^ 31" by simp
  moreover have "length (spec_ops ?ops []) = 1" by (simp add: spec_add_def spec_remove_def)
  ultimately show ?thesis using zset_depth_logarithmic [of ?ops] by (auto split: if_splits)
qed

end
