(* ===== verification/Wire.thy ===== *)
theory Wire
  imports CLib
begin

text \<open>
  The wire format of the server side of \<open>src/src/server.cpp\<close>: the serialisation of replies
  (\<open>out_nil\<close> ... \<open>end_arr\<close>), with the codes of \<open>src/include/common.h\<close>, and the parser of requests.
  A \<open>std::string\<close> that is appended to is passed in and returned.
\<close>

section \<open>Replies\<close>

definition SER_NIL :: byte where "SER_NIL = 0"
definition SER_ERR :: byte where "SER_ERR = 1"
definition SER_STR :: byte where "SER_STR = 2"
definition SER_INT :: byte where "SER_INT = 3"
definition SER_DBL :: byte where "SER_DBL = 4"
definition SER_ARR :: byte where "SER_ARR = 5"

lemmas ser_codes = SER_NIL_def SER_ERR_def SER_STR_def SER_INT_def SER_DBL_def SER_ARR_def

definition ERR_UNKNOWN :: u32 where "ERR_UNKNOWN = 1"
definition ERR_2BIG :: u32 where "ERR_2BIG = 2"
definition ERR_TYPE :: u32 where "ERR_TYPE = 3"
definition ERR_ARG :: u32 where "ERR_ARG = 4"

definition out_nil :: "byte list \<Rightarrow> byte list" where
  "out_nil out = out @ [SER_NIL]"

definition out_str :: "byte list \<Rightarrow> byte list \<Rightarrow> byte list" where
  "out_str out val = out @ [SER_STR] @ bytes32 (of_nat (length val)) @ val"

text \<open>The overload with a pointer and a size: only the low 32 bits of the size count.\<close>

definition out_str_n :: "byte list \<Rightarrow> byte list \<Rightarrow> u64 \<Rightarrow> byte list option" where
  "out_str_n out s sz = do {
     let len = (ucast sz :: u32);
     bs \<leftarrow> slice_opt s 0 (unat len);
     Some (out @ [SER_STR] @ bytes32 len @ bs)
   }"

definition out_dbl :: "byte list \<Rightarrow> u64 \<Rightarrow> byte list" where
  "out_dbl out val = out @ [SER_DBL] @ bytes64 val"

definition out_int :: "byte list \<Rightarrow> int \<Rightarrow> byte list" where
  "out_int out val = out @ [SER_INT] @ bytes64 (of_int val)"

definition out_err :: "byte list \<Rightarrow> u32 \<Rightarrow> byte list \<Rightarrow> byte list" where
  "out_err out code m = out @ [SER_ERR] @ bytes32 code @ bytes32 (of_nat (length m)) @ m"

definition out_arr :: "byte list \<Rightarrow> u32 \<Rightarrow> byte list" where
  "out_arr out n = out @ [SER_ARR] @ bytes32 n"

text \<open>\<open>begin_arr\<close> reserves the four bytes of the length and returns their position.\<close>

definition begin_arr :: "byte list \<Rightarrow> byte list \<times> nat" where
  "begin_arr out = (let out = out @ [SER_ARR] @ [0, 0, 0, 0] in (out, length out - 4))"

definition end_arr :: "byte list \<Rightarrow> nat \<Rightarrow> u32 \<Rightarrow> byte list option" where
  "end_arr out pos n = do {
     b \<leftarrow> nth_opt out (pos - 1);
     _ \<leftarrow> slice_opt out pos 4;
     if b = SER_ARR then Some (take pos out @ bytes32 n @ drop (pos + 4) out) else None
   }"

lemma end_begin_arr:
  assumes "begin_arr out = (out', pos)"
  shows "end_arr (out' @ items) pos n = Some (out_arr out n @ items)"
  using assms by (auto simp: begin_arr_def end_arr_def out_arr_def nth_append)

section \<open>Requests\<close>

definition k_max_args :: u32 where
  "k_max_args = 1024"

datatype parsed = Bad_req | Cmd "byte list list"

text \<open>
  The loop of \<open>parse_req\<close>, \<open>n\<close> arguments from \<open>pos\<close> on.  \<open>data\<close> extends to the end of the read
  buffer, \<open>len\<close> is the length of the message; a read behind the buffer is \<open>None\<close>, a read behind the
  message is not.
\<close>

fun parse_args :: "byte list \<Rightarrow> nat \<Rightarrow> nat \<Rightarrow> nat \<Rightarrow> byte list list \<Rightarrow> parsed option" where
  "parse_args data len 0 pos out = Some (if pos \<noteq> len then Bad_req else Cmd out)"
| "parse_args data len (Suc n) pos out =
     (if pos + 4 > len then Some Bad_req
      else do {
        sz \<leftarrow> read32 data pos;
        if pos + unat sz > len then Some Bad_req
        else do {
          s \<leftarrow> slice_opt data (pos + 4) (unat sz);
          parse_args data len n (pos + unat (4 + sz)) (out @ [s]) } })"

definition parse_req :: "byte list \<Rightarrow> nat \<Rightarrow> parsed option" where
  "parse_req data len = do {
     n \<leftarrow> read32 data 0;
     if n > k_max_args then Some Bad_req else parse_args data len (unat n) 4 []
   }"

end
