(* ===== verification/Socket.thy ===== *)
theory Socket
  imports CLib
begin

text \<open>
  What server and client share: the limit on messages, writing into a fixed buffer, and the calls
  \<open>send\<close> and \<open>recv\<close>.  A socket is the list of the results its calls give, in order: \<open>Sent n\<close> and \<open>Got bs\<close>
  for a call that moved bytes, \<open>Eof\<close>, \<open>Intr\<close> (\<open>EINTR\<close>), \<open>Again\<close> (\<open>EAGAIN\<close>) and \<open>Fail\<close> for the others.
  \<open>send\<close> takes at most the bytes it is offered, \<open>recv\<close> leaves in the socket what it was not asked for.
\<close>

definition k_max_msg :: nat where
  "k_max_msg = 4096"

datatype io_result = Sent nat | Got "byte list" | Eof | Intr | Again | Fail

text \<open>\<open>memcpy\<close> of \<open>bs\<close> to \<open>&buf[pos]\<close>; \<open>None\<close> is a write past the end.\<close>

definition put_at :: "byte list \<Rightarrow> nat \<Rightarrow> byte list \<Rightarrow> byte list option" where
  "put_at buf pos bs =
     (if pos + length bs \<le> length buf then Some (take pos buf @ bs @ drop (pos + length bs) buf) else None)"

lemma length_put_at: "put_at buf pos bs = Some buf' \<Longrightarrow> length buf' = length buf"
  by (auto simp: put_at_def split: if_splits)

lemma put_at_full:
  assumes "length bs \<le> length rest"
  shows "put_at (pre @ rest) (length pre) bs = Some ((pre @ bs) @ drop (length bs) rest)"
  using assms by (simp add: put_at_def)

end
