(* ===== verification/Client.thy ===== *)
theory Client
  imports Wire Socket
begin

text \<open>
  The client, \<open>src/src/client.cpp\<close>: the encoding of a command, the loops that write and read a whole
  message, and the decoder of replies.  The sockets of the client block: running out of results means
  that the call never returns.
\<close>

section \<open>Sending a command\<close>

text \<open>\<open>uint32_t len\<close> is summed at 32 bits, \<open>4 + s.size()\<close> at 64 bits.\<close>

definition req_len :: "byte list list \<Rightarrow> u32" where
  "req_len cmd = foldl (\<lambda>len s. len + of_nat (4 + length s)) 4 cmd"

text \<open>
  The buffer of \<open>send_req\<close> after its \<open>memcpy\<close>s; \<open>margin\<close> is the write position.
\<close>

fun put_args :: "byte list \<Rightarrow> nat \<Rightarrow> byte list list \<Rightarrow> byte list option" where
  "put_args buf margin [] = Some buf"
| "put_args buf margin (s # cmd) = do {
     buf \<leftarrow> put_at buf margin (bytes32 (of_nat (length s)));
     buf \<leftarrow> put_at buf (margin + 4) s;
     put_args buf (margin + 4 + length s) cmd
   }"

text \<open>\<open>Inl (- 1)\<close> when the command is too long, \<open>Inr\<close> the bytes passed to \<open>write_all\<close>.\<close>

definition send_req_buf :: "byte list \<Rightarrow> byte list list \<Rightarrow> (int + byte list) option" where
  "send_req_buf wbuf cmd = do {
     let len = req_len cmd;
     if unat len > k_max_msg then Some (Inl (- 1))
     else do {
       wbuf \<leftarrow> put_at wbuf 0 (bytes32 len);
       wbuf \<leftarrow> put_at wbuf 4 (bytes32 (of_nat (length cmd)));
       wbuf \<leftarrow> put_args wbuf 8 cmd;
       bs \<leftarrow> slice_opt wbuf 0 (unat (4 + len));
       Some (Inr bs) } }"

text \<open>
  \<open>write_all\<close>: the bytes the peer receives and the return value.  \<open>send\<close> takes at most the bytes
  offered; every failure ends the loop.
\<close>

fun write_all :: "io_result list \<Rightarrow> byte list \<Rightarrow> (byte list \<times> int) option" where
  "write_all rs [] = Some ([], 0)"
| "write_all [] (b # bs) = None"
| "write_all (r # rs) (b # bs) = (case r of
     Sent k \<Rightarrow> (let k = min k (Suc (length bs)) in
       map_option (\<lambda>(out, rv). (take k (b # bs) @ out, rv)) (write_all rs (drop k (b # bs))))
   | _ \<Rightarrow> Some ([], - 1))"

definition send_req :: "io_result list \<Rightarrow> byte list \<Rightarrow> byte list list \<Rightarrow> (byte list \<times> int) option" where
  "send_req rs wbuf cmd = do {
     r \<leftarrow> send_req_buf wbuf cmd;
     case r of Inl e \<Rightarrow> Some ([], e) | Inr bs \<Rightarrow> write_all rs bs
   }"

section \<open>Receiving\<close>

text \<open>
  \<open>read_full\<close> of \<open>n\<close> bytes: the bytes read, the rest of the results and the return value.  What
  \<open>recv\<close> returned beyond the \<open>n\<close> bytes it was asked for stays in the socket.
\<close>

fun read_full :: "io_result list \<Rightarrow> nat \<Rightarrow> (byte list \<times> io_result list \<times> int) option" where
  "read_full rs 0 = Some ([], rs, 0)"
| "read_full [] (Suc n) = None"
| "read_full (r # rs) (Suc n) = (case r of
     Got bs \<Rightarrow>
       (if bs = [] then Some ([], rs, - 2)
        else if length bs > Suc n then Some (take (Suc n) bs, Got (drop (Suc n) bs) # rs, 0)
        else map_option (\<lambda>(out, rest, rv). (bs @ out, rest, rv)) (read_full rs (Suc n - length bs)))
   | Intr \<Rightarrow> read_full rs (Suc n)
   | Eof \<Rightarrow> Some ([], rs, - 2)
   | _ \<Rightarrow> Some ([], rs, - 1))"

section \<open>Decoding a reply\<close>

datatype shown =
    Nil_line | Err_line int "byte list" | Str_line "byte list" | Int_line int | Dbl_line u64
  | Arr_line u32 | Arr_end | Len_line int

text \<open>
  \<open>printf("%.*s", len, p)\<close>: at most \<open>len\<close> characters up to a NUL; a negative precision counts as none.
  Reading past the buffer before either end is met is \<open>None\<close>.
\<close>

definition print_str :: "byte list \<Rightarrow> nat \<Rightarrow> u32 \<Rightarrow> byte list option" where
  "print_str data pos len =
     (let p = drop pos data; q = (if sint len < 0 then p else take (unat len) p)
      in if 0 \<in> set q \<or> 0 \<le> sint len \<and> unat len \<le> length p then Some (c_str q) else None)"

text \<open>
  \<open>on_response\<close> on \<open>Inl sz\<close> with \<open>data\<close> from the item on, its loop over \<open>k\<close> remaining elements from
  \<open>pos\<close> on \<open>Inr (k, pos, sz)\<close>.  The result is what was printed and the returned count; \<open>1 + 8 + len\<close>
  and \<open>1 + 4 + len\<close> are computed at 32 bits.
\<close>

partial_function (option) on_response_at ::
  "byte list \<Rightarrow> nat + nat \<times> nat \<times> nat \<Rightarrow> (shown list \<times> int) option" where
  "on_response_at data arg = (case arg of
     Inl sz \<Rightarrow>
       (if sz < 1 then Some ([], - 1)
        else do {
          code \<leftarrow> nth_opt data 0;
          if code = SER_NIL then Some ([Nil_line], 1)
          else if code = SER_ERR then
            (if sz < 9 then Some ([], - 1)
             else do {
               c \<leftarrow> read32 data 1;
               len \<leftarrow> read32 data 5;
               if sz < unat (9 + len) then Some ([], - 1)
               else do {
                 s \<leftarrow> print_str data 9 len;
                 Some ([Err_line (sint c) s], sint (9 + len)) } })
          else if code = SER_STR then
            (if sz < 5 then Some ([], - 1)
             else do {
               len \<leftarrow> read32 data 1;
               if sz < unat (5 + len) then Some ([], - 1)
               else do {
                 s \<leftarrow> print_str data 5 len;
                 Some ([Str_line s], sint (5 + len)) } })
          else if code = SER_INT then
            (if sz < 9 then Some ([], - 1)
             else do { v \<leftarrow> read64 data 1; Some ([Int_line (sint v)], 9) })
          else if code = SER_DBL then
            (if sz < 9 then Some ([], - 1)
             else do { v \<leftarrow> read64 data 1; Some ([Dbl_line v], 9) })
          else if code = SER_ARR then
            (if sz < 5 then Some ([], - 1)
             else do {
               n \<leftarrow> read32 data 1;
               (out, rv) \<leftarrow> on_response_at data (Inr (unat n, 5, sz));
               Some (Arr_line n # out, rv) })
          else Some ([], - 1) })
   | Inr (k, pos, sz) \<Rightarrow>
       (if k = 0 then Some ([Arr_end], sint (of_nat pos :: u32))
        else do {
          (out, rv) \<leftarrow> on_response_at (drop pos data) (Inl (sz - pos));
          if rv < 0 then Some (out, rv)
          else do {
            (out', rv') \<leftarrow> on_response_at data (Inr (k - 1, pos + nat rv, sz));
            Some (out @ out', rv') } }))"

declare on_response_at.simps [code]

definition on_response :: "byte list \<Rightarrow> nat \<Rightarrow> (shown list \<times> int) option" where
  "on_response data sz = on_response_at data (Inl sz)"

text \<open>
  \<open>read_res\<close>; \<open>junk\<close> is the content of the uninitialised stack buffer behind the bytes that were read.
\<close>

definition read_res :: "io_result list \<Rightarrow> byte list \<Rightarrow> (shown list \<times> int) option" where
  "read_res rs junk = do {
     (hd4, rs, err) \<leftarrow> read_full rs 4;
     if err \<noteq> 0 then Some ([], err)
     else do {
       len \<leftarrow> read32 hd4 0;
       if unat len > k_max_msg then Some ([Len_line (sint len)], - 1)
       else do {
         (body, rs, err) \<leftarrow> read_full rs (unat len);
         if err \<noteq> 0 then Some ([], err)
         else do {
           (out, rv) \<leftarrow> on_response (body @ drop (length body) (take (k_max_msg + 1) junk)) (unat len);
           if rv > 0 \<and> rv \<noteq> int (unat len) then Some (out, - 1) else Some (out, 0) } } } }"

section \<open>The program\<close>

text \<open>
  The loop over the addresses of \<open>getaddrinfo\<close>: what \<open>socket\<close> and \<open>connect\<close> do for each of them.
\<close>

datatype attempt = No_socket | No_connect | Connected

fun connect_first :: "attempt list \<Rightarrow> bool" where
  "connect_first [] = False"
| "connect_first (a # as) = (case a of Connected \<Rightarrow> True | _ \<Rightarrow> connect_first as)"

text \<open>
  \<open>main\<close>: the exit code, the bytes the server receives and what is shown.  The addresses are \<open>None\<close>
  when \<open>getaddrinfo\<close> fails; \<open>ws\<close> and \<open>rs\<close> are the results of \<open>send\<close> and \<open>recv\<close>, \<open>wbuf\<close> and \<open>junk\<close> the
  uninitialised buffers.
\<close>

definition client_main ::
  "attempt list option \<Rightarrow> byte list list \<Rightarrow> io_result list \<Rightarrow> byte list \<Rightarrow> io_result list \<Rightarrow> byte list \<Rightarrow>
    (int \<times> byte list \<times> shown list) option" where
  "client_main addrs argv ws wbuf rs junk = (case addrs of
     None \<Rightarrow> Some (1, [], [])
   | Some attempts \<Rightarrow>
       if \<not> connect_first attempts then Some (2, [], [])
       else do {
         (sent, err) \<leftarrow> send_req ws wbuf (drop 1 argv);
         if err \<noteq> 0 then Some (1, sent, [])
         else do {
           (out, err) \<leftarrow> read_res rs junk;
           if err \<noteq> 0 then Some (1, sent, out) else Some (0, sent, out) } })"

end
