(* ===== verification/Protocol.thy ===== *)
theory Protocol
  imports Client
begin

text \<open>
  The two ends of the protocol against each other: what the client encodes the server parses, what
  the server serialises the client decodes, and what the parser accepts is an encoding.
\<close>

section \<open>Requests\<close>

definition arg_bytes :: "byte list \<Rightarrow> byte list" where
  "arg_bytes s = bytes32 (of_nat (length s)) @ s"

definition payload :: "byte list list \<Rightarrow> byte list" where
  "payload cmd = bytes32 (of_nat (length cmd)) @ concat (map arg_bytes cmd)"

lemma length_arg_bytes [simp]: "length (arg_bytes s) = 4 + length s"
  by (simp add: arg_bytes_def)

lemma unat_of_nat_32: "n < 2 ^ 32 \<Longrightarrow> unat (of_nat n :: u32) = n"
  by (simp add: unsigned_of_nat take_bit_nat_eq_self_iff)

lemma parse_args_encode:
  assumes "\<forall>s \<in> set cmd. length s < 2 ^ 30"
  shows "parse_args (pre @ concat (map arg_bytes cmd) @ rest) (length pre + length (concat (map arg_bytes cmd)))
      (length cmd) (length pre) out = Some (Cmd (out @ cmd))"
  using assms
proof (induction cmd arbitrary: pre out)
  case (Cons s cmd)
  let ?tl = "concat (map arg_bytes cmd)"
  have s: "unat (of_nat (length s) :: u32) = length s" using Cons.prems by (intro unat_of_nat_32) simp
  have s4: "unat (4 + of_nat (length s) :: u32) = 4 + length s"
    using Cons.prems by (subst unat_add_small) (simp_all add: s)
  have r: "read32 (pre @ (arg_bytes s @ ?tl) @ rest) (length pre) = Some (of_nat (length s))"
    using read_bytes32 [of pre "of_nat (length s)" "s @ ?tl @ rest"] by (simp add: arg_bytes_def)
  have sl: "slice_opt (pre @ (arg_bytes s @ ?tl) @ rest) (length pre + 4) (length s) = Some s"
    by (simp add: arg_bytes_def slice_opt_def)
  have "parse_args (pre @ (arg_bytes s @ ?tl) @ rest) (length pre + (4 + length s + length ?tl)) (Suc (length cmd))
      (length pre) out =
      parse_args ((pre @ arg_bytes s) @ ?tl @ rest) (length (pre @ arg_bytes s) + length ?tl) (length cmd)
        (length (pre @ arg_bytes s)) (out @ [s])"
    using r sl s s4 by (simp del: length_concat add: add.assoc)
  also have "\<dots> = Some (Cmd ((out @ [s]) @ cmd))" using Cons.prems by (intro Cons.IH) simp
  finally show ?case by (simp del: length_concat add: add.assoc)
qed simp

lemma length_payload: "length (payload cmd) = 4 + (\<Sum>s \<leftarrow> cmd. 4 + length s)"
  by (simp add: payload_def length_concat comp_def)

lemma length_le_sum: "s \<in> set cmd \<Longrightarrow> 4 + length s \<le> (\<Sum>s \<leftarrow> cmd. 4 + length s)"
  by (induction cmd) auto

lemma length_cmd_sum: "4 * length cmd \<le> (\<Sum>s \<leftarrow> cmd. 4 + length s)"
  by (induction cmd) auto

lemma parse_req_payload:
  assumes "length (payload cmd) \<le> k_max_msg" "length cmd \<le> 1024"
  shows "parse_req (payload cmd @ rest) (length (payload cmd)) = Some (Cmd cmd)"
proof -
  have n: "unat (of_nat (length cmd) :: u32) = length cmd"
    using assms(2) by (intro unat_of_nat_32) simp
  have "\<forall>s \<in> set cmd. length s < 2 ^ 30"
    using assms(1) length_le_sum [of _ cmd] by (force simp: length_payload k_max_msg_def)
  from parse_args_encode [OF this, of "bytes32 (of_nat (length cmd))" rest "[]"]
  have "parse_args (payload cmd @ rest) (length (payload cmd)) (length cmd) 4 [] = Some (Cmd cmd)"
    by (simp add: payload_def del: length_concat)
  moreover have "read32 (payload cmd @ rest) 0 = Some (of_nat (length cmd))"
    using read_bytes32 [of "[]" "of_nat (length cmd)"] by (simp add: payload_def)
  moreover have "\<not> k_max_args < of_nat (length cmd)"
    using assms(2) n by (simp add: k_max_args_def word_less_nat_alt)
  ultimately show ?thesis using n by (simp add: parse_req_def)
qed

text \<open>
  The parser accepts nothing else: an accepted message is the encoding of the command it returns,
  even though an argument may be copied from behind the end of the message before the last check.
\<close>

lemma read32_bytes:
  assumes "read32 data pos = Some w"
  shows "take 4 (drop pos data) = bytes32 w \<and> pos + 4 \<le> length data"
proof -
  have l: "length b = n \<Longrightarrow> le_encode n (le_decode b) = b" for b n
  proof (induction b arbitrary: n)
    case (Cons x b)
    have "(unat x + 256 * le_decode b) div 256 = le_decode b" using unat_less_pow2 [of x] by simp
    moreover have "of_nat (unat x + 256 * le_decode b) = x"
    proof -
      have "(of_nat (unat x + 256 * le_decode b) :: byte) =
          of_nat (unat x) + of_nat 256 * of_nat (le_decode b)"
        by (simp only: of_nat_add of_nat_mult)
      moreover have "of_nat 256 = (0 :: byte)" by simp
      ultimately show ?thesis by (simp only: mult_zero_left add_0_right) simp
    qed
    ultimately show ?case using Cons by (cases n) auto
  qed simp
  have bound: "le_decode b < 256 ^ length b" for b
  proof (induction b)
    case (Cons x b)
    have "unat x < 256" using unat_less_pow2 [of x] by simp
    then show ?case using Cons by simp
  qed simp
  from assms have p: "pos + 4 \<le> length data" and w: "w = of_nat (le_decode (take 4 (drop pos data)))"
    by (auto simp: read32_def slice_opt_def split: if_splits)
  let ?b = "take 4 (drop pos data)"
  have "length ?b = 4" using p by simp
  moreover from this have "unat w = le_decode ?b"
    unfolding w using bound [of ?b] by (intro unat_of_nat_32) simp
  ultimately show ?thesis using l [of ?b 4] p by (simp add: bytes32_def)
qed

lemma parse_args_past: "len < pos \<Longrightarrow> parse_args data len n pos out \<noteq> Some (Cmd cmd)"
  by (cases n) auto

lemma parse_args_sound:
  assumes "parse_args data len n pos out = Some (Cmd cmd)" "pos \<le> len" "len < 2 ^ 31"
  shows "\<exists>args. cmd = out @ args \<and> length args = n \<and> len = pos + length (concat (map arg_bytes args)) \<and>
    take (len - pos) (drop pos data) = concat (map arg_bytes args)"
  using assms
proof (induction n arbitrary: pos out)
  case 0
  then show ?case by (auto split: if_splits)
next
  case (Suc n)
  from Suc.prems(1) obtain sz s where sz: "read32 data pos = Some sz" "pos + unat sz \<le> len"
    "slice_opt data (pos + 4) (unat sz) = Some s"
    "parse_args data len n (pos + unat (4 + sz)) (out @ [s]) = Some (Cmd cmd)"
    by (auto split: if_splits simp: bind_eq_Some_conv not_less)
  have s4: "unat (4 + sz) = 4 + unat sz"
    using sz(2) Suc.prems(3) by (subst unat_add_small) simp_all
  have le: "pos + unat (4 + sz) \<le> len" using sz(4) parse_args_past by (metis not_le)
  from Suc.IH [OF sz(4) le Suc.prems(3)] obtain args where a: "cmd = (out @ [s]) @ args" "length args = n"
    "len = pos + unat (4 + sz) + length (concat (map arg_bytes args))"
    "take (len - (pos + unat (4 + sz))) (drop (pos + unat (4 + sz)) data) = concat (map arg_bytes args)"
    by blast
  note r = read32_bytes [OF sz(1)]
  have s: "s = take (unat sz) (drop (pos + 4) data)" "length s = unat sz"
    using sz(3) by (auto simp: slice_opt_def split: if_splits)
  have "take (4 + unat sz) (drop pos data) = take 4 (drop pos data) @ take (unat sz) (drop 4 (drop pos data))"
    by (rule take_add)
  also have "\<dots> = bytes32 sz @ s" using r s by (simp add: add.commute)
  also have "\<dots> = arg_bytes s" using s(2) by (simp add: arg_bytes_def)
  finally have "take (4 + unat sz) (drop pos data) = arg_bytes s" .
  moreover have "len - pos = (4 + unat sz) + (len - (pos + unat (4 + sz)))" using le s4 by simp
  then have "take (len - pos) (drop pos data) =
      take (4 + unat sz) (drop pos data) @ take (len - (pos + unat (4 + sz))) (drop (pos + unat (4 + sz)) data)"
    using take_add [of "4 + unat sz" "len - (pos + unat (4 + sz))" "drop pos data"] s4
    by (simp only: drop_drop add.commute [of _ pos])
  ultimately have "take (len - pos) (drop pos data) = concat (map arg_bytes (s # args))"
    using a(4) by simp
  moreover have "len = pos + length (concat (map arg_bytes (s # args)))"
    using a(3) s4 s(2) by (simp del: length_concat)
  ultimately show ?case using a(1,2) by (intro exI [of _ "s # args"]) simp
qed

lemma parse_req_sound:
  assumes "parse_req data len = Some (Cmd cmd)" "len < 2 ^ 31"
  shows "len = length (payload cmd) \<and> take len data = payload cmd \<and> length cmd \<le> 1024"
proof -
  from assms(1) obtain n where n: "read32 data 0 = Some n" "\<not> n > k_max_args"
    "parse_args data len (unat n) 4 [] = Some (Cmd cmd)"
    by (auto simp: parse_req_def bind_eq_Some_conv split: if_splits)
  have le: "4 \<le> len" using n(3) parse_args_past by (metis not_le)
  from parse_args_sound [OF n(3) le assms(2)] have a: "length cmd = unat n"
    "len = 4 + length (concat (map arg_bytes cmd))" "take (len - 4) (drop 4 data) = concat (map arg_bytes cmd)"
    by auto
  have "take 4 data = bytes32 n" using read32_bytes [OF n(1)] by simp
  moreover have "take len data = take 4 data @ take (len - 4) (drop 4 data)"
    using le by (metis le_add_diff_inverse take_add)
  ultimately have "take len data = payload cmd" using a by (simp add: payload_def)
  moreover have "len = length (payload cmd)" using a(2) by (simp add: payload_def del: length_concat)
  moreover have "length cmd \<le> 1024"
    using n(2) a(1) by (simp add: k_max_args_def not_less word_le_nat_alt)
  ultimately show ?thesis by blast
qed

section \<open>The client's encoder\<close>

lemma req_len_sum:
  assumes "4 + (\<Sum>s \<leftarrow> cmd. 4 + length s) < 2 ^ 32"
  shows "unat (req_len cmd) = 4 + (\<Sum>s \<leftarrow> cmd. 4 + length s)"
proof -
  have "unat (foldl (\<lambda>len s. len + of_nat (4 + length s)) a cmd) = unat a + (\<Sum>s \<leftarrow> cmd. 4 + length s)"
    if "unat a + (\<Sum>s \<leftarrow> cmd. 4 + length s) < 2 ^ 32" for a :: u32
    using that
  proof (induction cmd arbitrary: a)
    case (Cons s cmd)
    have s: "unat (of_nat (4 + length s) :: u32) = 4 + length s"
      using Cons.prems by (intro unat_of_nat_32) simp
    have "unat (a + of_nat (4 + length s)) = unat a + (4 + length s)"
      using Cons.prems s by (subst unat_add_small) simp_all
    then show ?case using Cons by simp
  qed simp
  from this [of 4] assms show ?thesis by (simp add: req_len_def)
qed

lemma put_args_encode:
  assumes "length (concat (map arg_bytes cmd)) \<le> length rest"
  shows "put_args (pre @ rest) (length pre) cmd =
    Some (pre @ concat (map arg_bytes cmd) @ drop (length (concat (map arg_bytes cmd))) rest)"
  using assms
proof (induction cmd arbitrary: pre rest)
  case (Cons s cmd)
  let ?b = "bytes32 (of_nat (length s))"
  have l: "4 \<le> length rest" "length s \<le> length (drop 4 rest)"
    "length (concat (map arg_bytes cmd)) \<le> length (drop (length s) (drop 4 rest))"
    using Cons.prems by (simp_all del: length_concat)
  have 1: "put_at (pre @ rest) (length pre) ?b = Some ((pre @ ?b) @ drop 4 rest)"
    using l(1) put_at_full [of ?b rest pre] by simp
  have 2: "put_at ((pre @ ?b) @ drop 4 rest) (length (pre @ ?b)) s =
      Some (((pre @ ?b) @ s) @ drop (length s) (drop 4 rest))"
    by (rule put_at_full [OF l(2)])
  have "put_args (pre @ rest) (length pre) (s # cmd) =
      put_args (((pre @ ?b) @ s) @ drop (length s) (drop 4 rest)) (length ((pre @ ?b) @ s)) cmd"
    using 1 2 by (simp add: add.assoc)
  also have "\<dots> = Some (((pre @ ?b) @ s) @ concat (map arg_bytes cmd) @
      drop (length (concat (map arg_bytes cmd))) (drop (length s) (drop 4 rest)))"
    by (rule Cons.IH [OF l(3)])
  finally have "put_args (pre @ rest) (length pre) (s # cmd) =
      Some (((pre @ ?b) @ s) @ concat (map arg_bytes cmd) @
        drop (length (concat (map arg_bytes cmd))) (drop (length s) (drop 4 rest)))" .
  moreover have e: "concat (map arg_bytes (s # cmd)) = ?b @ s @ concat (map arg_bytes cmd)"
    by (simp only: list.map concat.simps arg_bytes_def append.assoc)
  ultimately show ?case unfolding e by (simp add: add_ac del: length_concat)
qed simp

lemma send_req_buf_payload:
  assumes "length wbuf = 4 + k_max_msg" "length (payload cmd) < 2 ^ 32"
  shows "send_req_buf wbuf cmd =
    (if length (payload cmd) \<le> k_max_msg
     then Some (Inr (bytes32 (of_nat (length (payload cmd))) @ payload cmd)) else Some (Inl (- 1)))"
proof -
  have len: "unat (req_len cmd) = length (payload cmd)"
    using assms(2) req_len_sum [of cmd] by (simp add: length_payload)
  have rl: "req_len cmd = of_nat (length (payload cmd))" by (simp flip: len)
  show ?thesis
  proof (cases "length (payload cmd) \<le> k_max_msg")
    case True
    let ?n = "bytes32 (of_nat (length cmd))" and ?l = "bytes32 (req_len cmd)"
    let ?args = "concat (map arg_bytes cmd)"
    have 1: "put_at wbuf 0 ?l = Some (?l @ drop 4 wbuf)"
      using assms(1) by (simp add: put_at_def)
    have 2: "put_at (?l @ drop 4 wbuf) 4 ?n = Some ((?l @ ?n) @ drop 8 wbuf)"
      using assms(1) put_at_full [of ?n "drop 4 wbuf" ?l] by (simp add: k_max_msg_def)
    have "length ?args \<le> length (drop 8 wbuf)"
      using assms(1) True by (simp add: payload_def del: length_concat)
    then have 3: "put_args ((?l @ ?n) @ drop 8 wbuf) 8 cmd =
        Some ((?l @ ?n) @ ?args @ drop (length ?args) (drop 8 wbuf))"
      using put_args_encode [of cmd "drop 8 wbuf" "?l @ ?n"] by simp
    have 4: "unat (4 + req_len cmd) = 4 + length (payload cmd)"
      using True len by (subst unat_add_small) (simp_all add: k_max_msg_def)
    have "slice_opt ((?l @ ?n) @ ?args @ drop (length ?args) (drop 8 wbuf)) 0 (4 + length (payload cmd)) =
        Some (?l @ payload cmd)"
      by (simp add: slice_opt_def payload_def del: length_concat)
    with 1 2 3 4 True len show ?thesis by (simp add: send_req_buf_def rl)
  qed (simp add: send_req_buf_def len)
qed


section \<open>Replies\<close>

text \<open>What the server serialises, as a tree, and the calls of the \<open>out_*\<close> functions that emit it.\<close>

datatype reply =
    R_nil | R_err u32 "byte list" | R_str "byte list" | R_int u64 | R_dbl u64 | R_arr "reply list"

fun emit :: "byte list \<Rightarrow> reply \<Rightarrow> byte list" where
  "emit out R_nil = out_nil out"
| "emit out (R_err c m) = out_err out c m"
| "emit out (R_str s) = out_str out s"
| "emit out (R_int v) = out_int out (sint v)"
| "emit out (R_dbl v) = out_dbl out v"
| "emit out (R_arr rs) = foldl emit (out_arr out (of_nat (length rs))) rs"

fun reply_bytes :: "reply \<Rightarrow> byte list" where
  "reply_bytes R_nil = [SER_NIL]"
| "reply_bytes (R_err c m) = SER_ERR # bytes32 c @ bytes32 (of_nat (length m)) @ m"
| "reply_bytes (R_str s) = SER_STR # bytes32 (of_nat (length s)) @ s"
| "reply_bytes (R_int v) = SER_INT # bytes64 v"
| "reply_bytes (R_dbl v) = SER_DBL # bytes64 v"
| "reply_bytes (R_arr rs) = SER_ARR # bytes32 (of_nat (length rs)) @ concat (map reply_bytes rs)"

fun shown_of :: "reply \<Rightarrow> shown list" where
  "shown_of R_nil = [Nil_line]"
| "shown_of (R_err c m) = [Err_line (sint c) (c_str m)]"
| "shown_of (R_str s) = [Str_line (c_str s)]"
| "shown_of (R_int v) = [Int_line (sint v)]"
| "shown_of (R_dbl v) = [Dbl_line v]"
| "shown_of (R_arr rs) = Arr_line (of_nat (length rs)) # concat (map shown_of rs) @ [Arr_end]"

lemma emit_bytes: "emit out r = out @ reply_bytes r"
proof (induction r arbitrary: out)
  case (R_arr rs)
  have "foldl emit o' rs = o' @ concat (map reply_bytes rs)" for o'
    using R_arr by (induction rs arbitrary: o') simp_all
  then show ?case by (simp add: out_arr_def)
qed (simp_all add: out_nil_def out_err_def out_str_def out_int_def out_dbl_def)

lemma reply_bytes_pos: "0 < length (reply_bytes r)"
  by (cases r) simp_all

lemma length_replies: "length rs \<le> length (concat (map reply_bytes rs))"
proof (induction rs)
  case (Cons r rs)
  then show ?case using reply_bytes_pos [of r] by (simp del: length_concat length_greater_0_conv)
qed simp

lemma sint_small: "n < 2 ^ 31 \<Longrightarrow> sint (of_nat n :: u32) = int n"
  by (subst sint_eq_unat) (simp_all add: unat_of_nat_32)

lemma print_str_full:
  assumes "length s < 2 ^ 31" "drop pos data = s @ rest"
  shows "print_str data pos (of_nat (length s)) = Some (c_str s)"
  using assms by (simp add: print_str_def sint_small unat_of_nat_32)

lemma read32_at: "drop pos data = bytes32 w @ rest \<Longrightarrow> pos \<le> length data \<Longrightarrow> read32 data pos = Some w"
  using read_bytes32 [of "take pos data" w rest] by (metis append_take_drop_id length_take min.absorb2)

lemma on_response_loop:
  assumes "\<And>r rest sz. r \<in> set rs \<Longrightarrow> length (reply_bytes r) \<le> sz \<Longrightarrow>
      on_response_at (reply_bytes r @ rest) (Inl sz) = Some (shown_of r, int (length (reply_bytes r)))"
    and "drop pos data = concat (map reply_bytes rs) @ rest" "pos + length (concat (map reply_bytes rs)) \<le> sz"
    and "pos + length (concat (map reply_bytes rs)) < 2 ^ 31"
  shows "on_response_at data (Inr (length rs, pos, sz)) =
    Some (concat (map shown_of rs) @ [Arr_end], int (pos + length (concat (map reply_bytes rs))))"
  using assms
proof (induction rs arbitrary: pos)
  case Nil
  then show ?case by (subst on_response_at.simps) (simp add: sint_small)
next
  case (Cons r rs)
  let ?n = "length (reply_bytes r)"
  have one: "on_response_at (drop pos data) (Inl (sz - pos)) = Some (shown_of r, int ?n)"
    using Cons.prems(1) [of r "sz - pos" "concat (map reply_bytes rs) @ rest"] Cons.prems(2,3)
    by (simp del: length_concat)
  have "drop (pos + ?n) data = concat (map reply_bytes rs) @ rest"
    using arg_cong [OF Cons.prems(2), of "drop ?n"] by (simp add: add.commute)
  then have "on_response_at data (Inr (length rs, pos + ?n, sz)) =
      Some (concat (map shown_of rs) @ [Arr_end], int (pos + ?n + length (concat (map reply_bytes rs))))"
    using Cons.prems by (intro Cons.IH) (simp_all del: length_concat)
  then show ?case using one
    by (subst on_response_at.simps) (simp del: length_concat)
qed

lemma on_response_emit:
  assumes "length (reply_bytes r) \<le> sz" "length (reply_bytes r) < 2 ^ 31"
  shows "on_response_at (reply_bytes r @ rest) (Inl sz) = Some (shown_of r, int (length (reply_bytes r)))"
  using assms
proof (induction r arbitrary: sz rest)
  case R_nil
  then show ?case by (subst on_response_at.simps) (simp add: ser_codes)
next
  case (R_err c m)
  let ?d = "reply_bytes (R_err c m) @ rest"
  have "read32 ?d 1 = Some c" "read32 ?d 5 = Some (of_nat (length m))"
    by (rule read32_at; simp)+
  moreover have l: "unat (9 + of_nat (length m) :: u32) = 9 + length m" "length m < 2 ^ 31"
    using R_err by (simp_all add: unat_add_small unat_of_nat_32)
  moreover have "print_str ?d 9 (of_nat (length m)) = Some (c_str m)"
    using l(2) by (rule print_str_full [where rest = rest]) simp
  moreover have "sint (9 + of_nat (length m) :: u32) = int (9 + length m)"
    using R_err l by (subst sint_eq_unat) simp_all
  ultimately show ?case using R_err by (subst on_response_at.simps) (simp add: ser_codes)
next
  case (R_str s)
  let ?d = "reply_bytes (R_str s) @ rest"
  have "read32 ?d 1 = Some (of_nat (length s))"
    by (rule read32_at; simp)
  moreover have l: "unat (5 + of_nat (length s) :: u32) = 5 + length s" "length s < 2 ^ 31"
    using R_str by (simp_all add: unat_add_small unat_of_nat_32)
  moreover have "print_str ?d 5 (of_nat (length s)) = Some (c_str s)"
    using l(2) by (rule print_str_full [where rest = rest]) simp
  moreover have "sint (5 + of_nat (length s) :: u32) = int (5 + length s)"
    using R_str l by (subst sint_eq_unat) simp_all
  ultimately show ?case using R_str by (subst on_response_at.simps) (simp add: ser_codes)
next
  case (R_int v)
  have "read64 (reply_bytes (R_int v) @ rest) 1 = Some v"
    using read_bytes64 [of "[SER_INT]" v rest] by simp
  then show ?case using R_int by (subst on_response_at.simps) (simp add: ser_codes)
next
  case (R_dbl v)
  have "read64 (reply_bytes (R_dbl v) @ rest) 1 = Some v"
    using read_bytes64 [of "[SER_DBL]" v rest] by simp
  then show ?case using R_dbl by (subst on_response_at.simps) (simp add: ser_codes)
next
  case (R_arr rs)
  let ?d = "reply_bytes (R_arr rs) @ rest"
  let ?b = "concat (map reply_bytes rs)"
  have len: "5 + length ?b \<le> sz" "5 + length ?b < 2 ^ 31" using R_arr.prems by (simp_all del: length_concat)
  have one: "length (reply_bytes r) \<le> length ?b" if "r \<in> set rs" for r
    using that by (induction rs) auto
  have "read32 ?d 1 = Some (of_nat (length rs))"
    by (rule read32_at; simp)
  moreover have "unat (of_nat (length rs) :: u32) = length rs"
    using length_replies [of rs] len(2) by (intro unat_of_nat_32) (simp del: length_concat)
  moreover have "on_response_at ?d (Inr (length rs, 5, sz)) = Some (concat (map shown_of rs) @ [Arr_end], int (5 + length ?b))"
  proof (rule on_response_loop)
    show "on_response_at (reply_bytes r @ rest') (Inl sz') = Some (shown_of r, int (length (reply_bytes r)))"
      if "r \<in> set rs" "length (reply_bytes r) \<le> sz'" for r rest' sz'
      using R_arr.IH [OF that] one [OF that(1)] len(2) by simp
  qed (use len in \<open>simp_all del: length_concat\<close>)
  ultimately show ?case using len by (subst on_response_at.simps) (simp add: ser_codes del: length_concat)
qed

section \<open>Whole frames over a socket\<close>

text \<open>A socket that takes \<open>n\<close> bytes, in pieces of any size.\<close>

fun accepts :: "io_result list \<Rightarrow> nat \<Rightarrow> bool" where
  "accepts rs 0 \<longleftrightarrow> True"
| "accepts (Sent k # rs) (Suc n) \<longleftrightarrow> accepts rs (Suc n - k)"
| "accepts _ (Suc n) \<longleftrightarrow> False"

lemma write_all_accepts: "accepts rs (length bs) \<Longrightarrow> write_all rs bs = Some (bs, 0)"
proof (induction rs bs rule: write_all.induct)
  case (3 r rs b bs)
  then obtain k where r: "r = Sent k" by (cases r) auto
  let ?k = "min k (Suc (length bs))"
  have "Suc (length bs) - k = length (drop ?k (b # bs))" by auto
  then have "accepts rs (length (drop ?k (b # bs)))" using 3(2) r by (metis accepts.simps(2) length_Cons)
  from 3(1) [OF r refl this] show ?case using r by (simp only: write_all.simps io_result.case Let_def option.map prod.case append_take_drop_id)
qed auto

text \<open>
  The ways a socket can deliver a byte string to \<open>read_full\<close>: pieces of any positive size, calls
  interrupted in between.
\<close>

fun delivers :: "io_result list \<Rightarrow> byte list \<Rightarrow> bool" where
  "delivers [] bs \<longleftrightarrow> bs = []"
| "delivers (Got p # rs) bs \<longleftrightarrow> p \<noteq> [] \<and> p = take (length p) bs \<and> delivers rs (drop (length p) bs)"
| "delivers (Intr # rs) bs \<longleftrightarrow> delivers rs bs"
| "delivers (_ # rs) bs \<longleftrightarrow> False"

lemma read_full_delivers:
  assumes "delivers rs (bs @ rest)"
  shows "\<exists>rs'. read_full rs (length bs) = Some (bs, rs', 0) \<and> delivers rs' rest"
  using assms
proof (induction rs "length bs" arbitrary: bs rule: read_full.induct)
  case (1 rs)
  then show ?case by simp
next
  case (2 n)
  then show ?case by (metis append_is_Nil_conv delivers.simps(1) length_0_conv nat.distinct(1))
next
  case (3 r rs n)
  show ?case
  proof (cases r)
    case (Got p)
    with 3 have p: "p \<noteq> []" "p = take (length p) (bs @ rest)" "delivers rs (drop (length p) (bs @ rest))" by auto
    show ?thesis
    proof (cases "length p > length bs")
      case True
      define q where "q = drop (length bs) p"
      have pq: "p = bs @ q"
        using p(2) True unfolding q_def by (metis append_eq_conv_conj append_take_drop_id less_imp_le take_all_iff take_append take_take min.absorb1)
      then have "q = take (length q) rest" "q \<noteq> []" "delivers rs (drop (length q) rest)"
        using p(2,3) True by simp_all
      then show ?thesis using Got p(1) True pq 3(3) [symmetric] by simp
    next
      case False
      then have e: "p = take (length p) bs" "drop (length p) (bs @ rest) = drop (length p) bs @ rest" using p(2) by simp_all
      have l: "Suc n - length p = length (drop (length p) bs)" using 3(3) by simp
      from 3(1) [OF Got p(1) _ l] False p(3) e(2) 3(3) obtain rs' where
        "read_full rs (length (drop (length p) bs)) = Some (drop (length p) bs, rs', 0)" "delivers rs' rest" by auto
      with Got p(1) False 3(3) [symmetric] e(1) l show ?thesis by (auto) (metis append_take_drop_id)
    qed
  next
    case Intr
    with 3(2) [OF Intr 3(3)] 3(4) show ?thesis by (simp flip: 3(3))
  qed (use 3 in simp_all)
qed


lemma read_res_reply:
  assumes "delivers rs (bytes32 (of_nat (length (reply_bytes r))) @ reply_bytes r @ rest)"
    and "length (reply_bytes r) \<le> k_max_msg"
  shows "read_res rs junk = Some (shown_of r, 0)"
proof -
  let ?n = "length (reply_bytes r)"
  have n: "unat (of_nat ?n :: u32) = ?n" using assms(2) by (intro unat_of_nat_32) (simp add: k_max_msg_def)
  from read_full_delivers [OF assms(1)] obtain rs1 where
    r1: "read_full rs 4 = Some (bytes32 (of_nat ?n), rs1, 0)" "delivers rs1 (reply_bytes r @ rest)" by auto
  from read_full_delivers [OF r1(2)] obtain rs2 where
    r2: "read_full rs1 ?n = Some (reply_bytes r, rs2, 0)" by blast
  have "read32 (bytes32 (of_nat ?n)) 0 = Some (of_nat ?n)" using read_bytes32 [of "[]" _ "[]"] by simp
  then show ?thesis
    using r1(1) r2 n assms(2) on_response_emit [of r ?n] reply_bytes_pos [of r]
    by (simp add: read_res_def on_response_def k_max_msg_def)
qed

text \<open>
  \<open>read_res\<close> drops a negative result of \<open>on_response\<close>: a reply that is cut off in its frame is not
  reported.
\<close>

lemma truncated_reply_accepted: "read_res [Got [1, 0, 0, 0, SER_STR]] [] = Some ([], 0)"
  by code_simp

section \<open>Properties of the protocol\<close>

text \<open>
  C22. Requests round trip.  What \<open>send_req\<close> puts in its buffer for a command of at most 1024 arguments
  that fits in a message is the length followed by a payload that \<open>parse_req\<close> parses back to the same
  arguments, whatever bytes come behind it in the server's buffer.
\<close>

theorem request_roundtrip:
  assumes "length wbuf = 4 + k_max_msg" "length (payload cmd) \<le> k_max_msg" "length cmd \<le> 1024"
  shows "\<exists>bs. send_req_buf wbuf cmd = Some (Inr (bytes32 (of_nat (length bs)) @ bs)) \<and>
    parse_req (bs @ rest) (length bs) = Some (Cmd cmd)"
  using send_req_buf_payload [of wbuf cmd] parse_req_payload [OF assms(2,3)] assms
  by (simp add: k_max_msg_def)

theorem request_roundtrip_witness:
  "\<exists>bs. send_req_buf (replicate 4100 0) [ascii ''get'', [107]] = Some (Inr (bytes32 (of_nat (length bs)) @ bs)) \<and>
    parse_req (bs @ [7, 7]) (length bs) = Some (Cmd [ascii ''get'', [107]])"
  by (rule request_roundtrip) (simp_all add: k_max_msg_def length_payload ascii_def)

text \<open>
  A command that does not fit is refused by \<open>send_req\<close> before a byte is written: the result is
  \<open>-1\<close>, and no write goes past the end of \<open>wbuf\<close>.
\<close>

theorem send_req_too_long:
  assumes "length wbuf = 4 + k_max_msg" "k_max_msg < length (payload cmd)" "length (payload cmd) < 2 ^ 32"
  shows "send_req rs wbuf cmd = Some ([], - 1)"
  using send_req_buf_payload [OF assms(1,3)] assms(2) by (simp add: send_req_def)

theorem send_req_too_long_witness:
  "send_req [] (replicate 4100 0) [replicate 4096 97] = Some ([], - 1)"
  by (rule send_req_too_long) (simp_all add: k_max_msg_def length_payload)

text \<open>
  C24. \<open>parse_req\<close> accepts nothing but encodings: when it returns a command, the message is exactly the
  payload of that command, with at most 1024 arguments and no trailing bytes.
\<close>

theorem parse_req_accepts_only_payloads:
  assumes "parse_req data len = Some (Cmd cmd)" "len < 2 ^ 31"
  shows "len = length (payload cmd) \<and> take len data = payload cmd \<and> length cmd \<le> 1024"
  using assms by (rule parse_req_sound)

theorem parse_req_accepts_only_payloads_witness:
  "parse_req (payload [[107]] @ [1]) 9 = Some (Cmd [[107]]) \<and> take 9 (payload [[107]] @ [1]) = payload [[107]]"
proof -
  have "parse_req (payload [[107]] @ [1]) 9 = Some (Cmd [[107]])"
    using parse_req_payload [of "[[107]]" "[1]"] by (simp add: length_payload k_max_msg_def)
  from this parse_req_accepts_only_payloads [OF this] show ?thesis by simp
qed

text \<open>
  C23. Replies round trip.  A reply that fits in a message, framed with its length and cut into pieces by
  the socket in any way, is shown by \<open>read_res\<close> as what the server serialised (strings up to their first
  NUL), and \<open>read_res\<close> returns 0.
\<close>

theorem reply_roundtrip:
  assumes "delivers rs (bytes32 (of_nat (length (reply_bytes r))) @ reply_bytes r @ rest)"
    and "length (reply_bytes r) \<le> k_max_msg"
  shows "read_res rs junk = Some (shown_of r, 0)"
  using assms by (rule read_res_reply)

theorem reply_roundtrip_witness:
  "read_res [Got [9, 0], Intr, Got [0, 0, 3, 5, 0], Got (replicate 6 0)] [] = Some ([Int_line 5], 0)"
proof -
  have "reply_bytes (R_int 5) = [3, 5, 0, 0, 0, 0, 0, 0, 0]"
    and "bytes32 9 = [9, 0, 0, 0]" by code_simp+
  then show ?thesis
    using reply_roundtrip [of "[Got [9, 0], Intr, Got [0, 0, 3, 5, 0], Got (replicate 6 0)]" "R_int 5" "[]" "[]"]
    by (simp add: k_max_msg_def numeral_eq_Suc)
qed

text \<open>
  C36. The bound check of an argument forgets the four bytes of its length: a message whose only
  argument claims the four bytes too many passes the check, and \<open>parse_req\<close> reads past the end of the
  message, out of the buffer when the message ends there.
\<close>

theorem parse_req_overreads:
  assumes "4 \<le> length bs" "length bs < 2 ^ 31"
  shows "parse_req (bytes32 1 @ bytes32 (of_nat (length bs + 4)) @ bs) (length bs + 8) = None"
proof -
  let ?d = "bytes32 1 @ bytes32 (of_nat (length bs + 4)) @ bs"
  have n: "unat (of_nat (length bs + 4) :: u32) = length bs + 4" using assms(2) by (intro unat_of_nat_32) simp
  have "read32 ?d 0 = Some 1" "read32 ?d 4 = Some (of_nat (length bs + 4))"
    using read_bytes32 [of "[]"] read_bytes32 [of "bytes32 1" _ bs] by simp_all
  with n show ?thesis by (simp add: parse_req_def k_max_args_def slice_opt_def)
qed

theorem parse_req_overreads_witness:
  "parse_req (bytes32 1 @ bytes32 8 @ [1, 2, 3, 4]) 12 = None"
  using parse_req_overreads [of "[1, 2, 3, 4]"] by simp

end
