(* ===== verification/Client_Safe.thy ===== *)
theory Client_Safe
  imports Protocol
begin

text \<open>
  The client against any server.  Whatever bytes a reply frame holds, the decoder stays inside it and
  returns, and what is printed depends on these bytes alone, as long as no length in it is so large that
  \<open>1 + 8 + len\<close> wraps at 32 bits.  A length that wraps makes the client print its stack.
\<close>

section \<open>Lengths that do not wrap\<close>

definition tame :: "byte list \<Rightarrow> bool" where
  "tame bs \<longleftrightarrow> (\<forall>i w. read32 bs i = Some w \<longrightarrow> unat w < 2 ^ 32 - 9)"

lemma read32_in: "i + 4 \<le> length bs \<Longrightarrow> \<exists>w. read32 bs i = Some w"
  by (simp add: read32_def slice_opt_def)

lemma read64_in: "i + 8 \<le> length bs \<Longrightarrow> \<exists>w. \<forall>junk. read64 (bs @ junk) i = Some w"
  by (simp add: read64_def slice_opt_def)

lemma tame_field:
  assumes "tame bs" "i + 4 \<le> length bs"
  obtains w where "unat w < 2 ^ 32 - 9" "\<And>junk. read32 (bs @ junk) i = Some w"
  using assms read32_in [OF assms(2)] read32_append unfolding tame_def by blast

lemma tame_drop: "tame bs \<Longrightarrow> tame (drop i bs)"
  unfolding tame_def read32_def slice_opt_def
  by (auto simp: add.commute split: if_splits)

lemma print_str_in:
  assumes "pos + unat len \<le> length bs" "length bs < 2 ^ 31"
  shows "print_str (bs @ junk) pos len = Some (c_str (take (unat len) (drop pos bs)))"
proof -
  have "sint len = int (unat len)" using assms by (subst sint_eq_unat) simp_all
  then show ?thesis using assms by (auto simp: print_str_def Let_def)
qed

section \<open>The decoder\<close>

text \<open>The decoder on a message \<open>bs\<close>: the same result for whatever lies behind it, and a count within it.\<close>

definition decodes :: "(byte list \<Rightarrow> (shown list \<times> int) option) \<Rightarrow> nat \<Rightarrow> nat \<Rightarrow> bool" where
  "decodes f lo hi \<longleftrightarrow> (\<exists>out rv. (\<forall>junk. f junk = Some (out, rv)) \<and> (rv < 0 \<or> int lo \<le> rv \<and> rv \<le> int hi))"

lemma elements_decode:
  assumes "\<And>p. 5 \<le> p \<Longrightarrow> p \<le> length bs \<Longrightarrow>
      decodes (\<lambda>junk. on_response_at (drop p bs @ junk) (Inl (length bs - p))) 1 (length bs - p)"
    and "5 \<le> pos" "pos \<le> length bs" "length bs < 2 ^ 31"
  shows "decodes (\<lambda>junk. on_response_at (bs @ junk) (Inr (k, pos, length bs))) 5 (length bs)"
  using assms(2,3)
proof (induction k arbitrary: pos)
  case 0
  have "sint (of_nat pos :: u32) = int pos" using 0 assms(4) by (intro sint_small) simp
  then show ?case using 0 unfolding decodes_def by (subst on_response_at.simps) simp
next
  case (Suc k)
  have drop: "drop pos (bs @ junk) = drop pos bs @ junk" for junk using Suc.prems by simp
  from assms(1) [OF Suc.prems] obtain out rv where
    e: "\<And>junk. on_response_at (drop pos bs @ junk) (Inl (length bs - pos)) = Some (out, rv)"
      "rv < 0 \<or> 1 \<le> rv \<and> rv \<le> int (length bs - pos)" unfolding decodes_def by auto
  show ?case
  proof (cases "rv < 0")
    case True
    then show ?thesis using e(1) unfolding decodes_def
      by (subst on_response_at.simps) (simp add: drop)
  next
    case False
    with e(2) Suc.prems have "5 \<le> pos + nat rv" "pos + nat rv \<le> length bs" by auto
    from Suc.IH [OF this] obtain out' rv' where
      l: "\<And>junk. on_response_at (bs @ junk) (Inr (k, pos + nat rv, length bs)) = Some (out', rv')"
        "rv' < 0 \<or> int 5 \<le> rv' \<and> rv' \<le> int (length bs)" unfolding decodes_def by auto
    have "on_response_at (bs @ junk) (Inr (Suc k, pos, length bs)) = Some (out @ out', rv')" for junk
      using e(1) l(1) False by (subst on_response_at.simps) (simp add: drop)
    then show ?thesis using l(2) unfolding decodes_def by blast
  qed
qed

lemma str_field:
  assumes "unat len < 2 ^ 32 - 9" "length bs < 2 ^ 31" "pos \<in> {5, 9}" "unat (of_nat pos + len) \<le> length bs"
  shows "\<exists>s. \<forall>junk. print_str (bs @ junk) pos len = Some s"
    and "int pos \<le> sint (of_nat pos + len) \<and> sint (of_nat pos + len) \<le> int (length bs)"
proof -
  have "unat (of_nat pos + len) = pos + unat len" using assms(1,3) by (auto simp: unat_word_ariths)
  with assms(4) have l: "pos + unat len \<le> length bs" by simp
  then show "\<exists>s. \<forall>junk. print_str (bs @ junk) pos len = Some s" using print_str_in assms(2) by blast
  have "of_nat pos + len = of_nat (pos + unat len)" by simp
  moreover have "sint (of_nat (pos + unat len) :: u32) = int (pos + unat len)" using l assms(2) by (intro sint_small) simp
  ultimately have "sint (of_nat pos + len) = int (pos + unat len)" by (simp only:)
  then show "int pos \<le> sint (of_nat pos + len) \<and> sint (of_nat pos + len) \<le> int (length bs)"
    using l by (simp only: of_nat_le_iff le_add1 simp_thms)
qed

lemma decodesI: "(\<And>junk. f junk = Some (out, rv)) \<Longrightarrow> rv < 0 \<or> int lo \<le> rv \<and> rv \<le> int hi \<Longrightarrow> decodes f lo hi"
  unfolding decodes_def by blast

text \<open>The message \<open>bs\<close> is decoded within its bounds.\<close>

abbreviation decoded :: "byte list \<Rightarrow> bool" where
  "decoded bs \<equiv> decodes (\<lambda>junk. on_response_at (bs @ junk) (Inl (length bs))) 1 (length bs)"

lemma decoded_bad:
  assumes "\<And>junk. on_response_at (bs @ junk) (Inl (length bs)) = Some ([], - 1)"
  shows "decoded bs"
  using assms by (rule decodesI) simp

lemma first_code: "bs = code # rest \<Longrightarrow> nth_opt (bs @ junk) 0 = Some code"
  by (simp add: nth_opt_def)

lemma decoded_err:
  assumes "bs = SER_ERR # rest" "tame bs" "length bs < 2 ^ 31"
  shows "decoded bs"
proof (cases "length bs < 9")
  case True
  then show ?thesis using assms(1) first_code by (intro decoded_bad, subst on_response_at.simps) (simp add: ser_codes)
next
  case False
  then obtain c where c: "\<And>junk. read32 (bs @ junk) 1 = Some c" using tame_field [OF assms(2), of 1] by auto
  from False obtain len where len: "unat len < 2 ^ 32 - 9" "\<And>junk. read32 (bs @ junk) 5 = Some len"
    using tame_field [OF assms(2), of 5] by auto
  have "bs \<noteq> []" using assms(1) by simp
  note step = this first_code [OF assms(1)] c len(2) False
  show ?thesis
  proof (cases "length bs < unat (9 + len)")
    case True
    then show ?thesis using step by (intro decoded_bad, subst on_response_at.simps) (simp add: ser_codes)
  next
    case fits: False
    with str_field [OF len(1) assms(3), of 9] obtain s where
      s: "\<And>junk. print_str (bs @ junk) 9 len = Some s"
        "9 \<le> sint (9 + len)" "sint (9 + len) \<le> int (length bs)" by auto
    then have "on_response_at (bs @ junk) (Inl (length bs)) = Some ([Err_line (sint c) s], sint (9 + len))" for junk
      using step fits by (subst on_response_at.simps) (simp add: ser_codes)
    then show ?thesis using s(2,3) by (intro decodesI) auto
  qed
qed

lemma decoded_str:
  assumes "bs = SER_STR # rest" "tame bs" "length bs < 2 ^ 31"
  shows "decoded bs"
proof (cases "length bs < 5")
  case True
  then show ?thesis using assms(1) first_code by (intro decoded_bad, subst on_response_at.simps) (simp add: ser_codes)
next
  case False
  then obtain len where len: "unat len < 2 ^ 32 - 9" "\<And>junk. read32 (bs @ junk) 1 = Some len"
    using tame_field [OF assms(2), of 1] by auto
  have "bs \<noteq> []" using assms(1) by simp
  note step = this first_code [OF assms(1)] len(2) False
  show ?thesis
  proof (cases "length bs < unat (5 + len)")
    case True
    then show ?thesis using step by (intro decoded_bad, subst on_response_at.simps) (simp add: ser_codes)
  next
    case fits: False
    with str_field [OF len(1) assms(3), of 5] obtain s where
      s: "\<And>junk. print_str (bs @ junk) 5 len = Some s"
        "5 \<le> sint (5 + len)" "sint (5 + len) \<le> int (length bs)" by auto
    then have "on_response_at (bs @ junk) (Inl (length bs)) = Some ([Str_line s], sint (5 + len))" for junk
      using step fits by (subst on_response_at.simps) (simp add: ser_codes)
    then show ?thesis using s(2,3) by (intro decodesI) auto
  qed
qed

lemma decoded_number:
  assumes "bs = code # rest" "code = SER_INT \<or> code = SER_DBL"
  shows "decoded bs"
proof (cases "length bs < 9")
  case True
  then show ?thesis using assms(2) first_code [OF assms(1)] assms(1)
    by (intro decoded_bad, subst on_response_at.simps) (auto simp: ser_codes)
next
  case False
  then obtain v where "\<And>junk. read64 (bs @ junk) 1 = Some v" using read64_in [of 1 bs] by auto
  then have "on_response_at (bs @ junk) (Inl (length bs)) =
      Some ([if code = SER_INT then Int_line (sint v) else Dbl_line v], 9)" for junk
    using assms(2) first_code [OF assms(1)] False by (subst on_response_at.simps) (auto simp: ser_codes)
  then show ?thesis using False by (intro decodesI) auto
qed

lemma decoded_arr:
  assumes "bs = SER_ARR # rest" "tame bs" "length bs < 2 ^ 31" "\<And>p. 5 \<le> p \<Longrightarrow> p \<le> length bs \<Longrightarrow> decoded (drop p bs)"
  shows "decoded bs"
proof (cases "length bs < 5")
  case True
  then show ?thesis using assms(1) first_code by (intro decoded_bad, subst on_response_at.simps) (simp add: ser_codes)
next
  case False
  then obtain n where n: "\<And>junk. read32 (bs @ junk) 1 = Some n" using tame_field [OF assms(2), of 1] by auto
  have "decodes (\<lambda>junk. on_response_at (bs @ junk) (Inr (unat n, 5, length bs))) 5 (length bs)"
    using False assms(3) assms(4) by (intro elements_decode) simp_all
  then obtain out rv where
    l: "\<And>junk. on_response_at (bs @ junk) (Inr (unat n, 5, length bs)) = Some (out, rv)"
      "rv < 0 \<or> int 5 \<le> rv \<and> rv \<le> int (length bs)" unfolding decodes_def by auto
  have "on_response_at (bs @ junk) (Inl (length bs)) = Some (Arr_line n # out, rv)" for junk
    using first_code [OF assms(1)] False n l(1) by (subst on_response_at.simps) (auto simp: ser_codes)
  then show ?thesis using l(2) by (intro decodesI) auto
qed

lemma on_response_decodes: "tame bs \<Longrightarrow> length bs < 2 ^ 31 \<Longrightarrow> decoded bs"
proof (induction "length bs" arbitrary: bs rule: less_induct)
  case less
  show ?case
  proof (cases bs)
    case Nil
    then show ?thesis by (intro decoded_bad, subst on_response_at.simps) simp
  next
    case (Cons code rest)
    consider (nil) "code = SER_NIL" | (err) "code = SER_ERR" | (str) "code = SER_STR"
      | (number) "code = SER_INT \<or> code = SER_DBL" | (arr) "code = SER_ARR"
      | (other) "code \<notin> {SER_NIL, SER_ERR, SER_STR, SER_INT, SER_DBL, SER_ARR}" by auto
    then show ?thesis
    proof cases
      case nil
      then have "on_response_at (bs @ junk) (Inl (length bs)) = Some ([Nil_line], 1)" for junk
        using first_code [OF Cons] Cons by (subst on_response_at.simps) simp
      then show ?thesis using Cons by (intro decodesI) auto
    next
      case arr
      have "decoded (drop p bs)" if "5 \<le> p" "p \<le> length bs" for p
        using less.hyps [of "drop p bs"] that tame_drop [OF less.prems(1)] less.prems(2) by simp
      with decoded_arr [OF _ less.prems] Cons arr show ?thesis by blast
    next
      case other
      then show ?thesis using first_code [OF Cons] Cons by (intro decoded_bad, subst on_response_at.simps) simp
    qed (use Cons less.prems decoded_err decoded_str decoded_number in blast)+
  qed
qed

lemma read_res_decodes:
  assumes "delivers rs (bytes32 (of_nat (length bs)) @ bs)" "length bs \<le> k_max_msg" "tame bs"
  shows "\<exists>out code. (\<forall>junk. read_res rs junk = Some (out, code)) \<and> code \<in> {0, - 1}"
proof -
  let ?n = "length bs"
  have small: "?n < 2 ^ 31" using assms(2) by (simp add: k_max_msg_def)
  then have n: "unat (of_nat ?n :: u32) = ?n" by (intro unat_of_nat_32) simp
  from read_full_delivers [OF assms(1)] obtain rs1 where
    r1: "read_full rs 4 = Some (bytes32 (of_nat ?n), rs1, 0)" "delivers rs1 (bs @ [])" by auto
  from read_full_delivers [OF r1(2)] obtain rs2 where r2: "read_full rs1 ?n = Some (bs, rs2, 0)" by blast
  have l: "read32 (bytes32 (of_nat ?n)) 0 = Some (of_nat ?n)" using read_bytes32 [of "[]" _ "[]"] by simp
  from on_response_decodes [OF assms(3) small] obtain out rv where
    d: "\<And>junk. on_response_at (bs @ junk) (Inl ?n) = Some (out, rv)" unfolding decodes_def by blast
  have "read_res rs junk = Some (out, if rv > 0 \<and> rv \<noteq> int ?n then - 1 else 0)" for junk
    using r1(1) r2 n l assms(2) d by (simp add: read_res_def on_response_def)
  then show ?thesis by (intro exI [of _ out] exI [of _ "if rv > 0 \<and> rv \<noteq> int ?n then - 1 else 0"]) auto
qed

section \<open>Properties of the client\<close>

text \<open>
  C25. The client is safe against malformed replies.  Whatever a server sends as a frame of at most
  \<open>k_max_msg\<close> bytes, cut off, nested, with wrong codes or counts, \<open>read_res\<close> returns 0 or -1 without reading
  outside the frame: what it prints does not depend on the rest of its buffer.  The only replies left
  out are those with four bytes that, read as a length, are within 9 of \<open>2 ^ 32\<close>.
\<close>

theorem client_survives_any_reply:
  assumes "delivers rs (bytes32 (of_nat (length bs)) @ bs)" "length bs \<le> k_max_msg" "tame bs"
  shows "\<exists>out code. (\<forall>junk. read_res rs junk = Some (out, code)) \<and> code \<in> {0, - 1}"
  using assms by (rule read_res_decodes)

lemma tame_short: "length bs < 4 \<Longrightarrow> tame bs"
  by (simp add: tame_def read32_def slice_opt_def)

theorem client_survives_any_reply_witness:
  "\<exists>out code. (\<forall>junk. read_res [Got [2, 0], Intr, Got [0, 0, SER_ARR, 77]] junk = Some (out, code)) \<and> code \<in> {0, - 1}"
proof -
  have "bytes32 (of_nat (length [SER_ARR, 77])) = [2, 0, 0, 0]" by code_simp
  then have "delivers [Got [2, 0], Intr, Got [0, 0, SER_ARR, 77]] (bytes32 (of_nat (length [SER_ARR, 77])) @ [SER_ARR, 77])"
    by simp
  moreover have "length [SER_ARR, 77] \<le> k_max_msg" by (simp add: k_max_msg_def)
  moreover have "tame [SER_ARR, 77]" by (rule tame_short) simp
  ultimately show ?thesis by (rule client_survives_any_reply)
qed

lemma wrapped_string:
  "on_response_at ([SER_STR, 0xFB, 0xFF, 0xFF, 0xFF] @ junk) (Inl 5) =
     (if 0 \<in> set junk then Some ([Str_line (c_str junk)], 0) else None)"
proof -
  have "read32 (SER_STR # 0xFB # 0xFF # 0xFF # 0xFF # junk) 1 = Some 0xFFFFFFFB" by (simp add: read32_def slice_opt_def)
  moreover have "sint (0xFFFFFFFB :: u32) < 0" "unat (5 + 0xFFFFFFFB :: u32) = 0" "sint (5 + 0xFFFFFFFB :: u32) = 0"
    by code_simp+
  moreover from this have "print_str (SER_STR # 0xFB # 0xFF # 0xFF # 0xFF # junk) 5 0xFFFFFFFB =
      (if 0 \<in> set junk then Some (c_str junk) else None)" by (simp add: print_str_def)
  ultimately show ?thesis by (subst on_response_at.simps) (simp add: nth_opt_def ser_codes)
qed

text \<open>
  C37. A length that wraps.  A reply of five bytes, a string with the length \<open>2 ^ 32 - 5\<close>, passes the check
  \<open>size < 1 + 4 + len\<close>, whose right side is 0 at 32 bits.  The precision of \<open>printf\<close> is then negative, and
  the client prints the uninitialised bytes of its buffer up to a zero and exits as if nothing had
  happened; without a zero in the buffer it reads on behind it.
\<close>

theorem client_prints_stack:
  "read_res [Got [5, 0, 0, 0, SER_STR, 0xFB, 0xFF, 0xFF, 0xFF]] junk =
     (if 0 \<in> set (drop 5 (take (k_max_msg + 1) junk))
      then Some ([Str_line (c_str (drop 5 (take (k_max_msg + 1) junk)))], 0) else None)"
proof -
  let ?bs = "[SER_STR, 0xFB, 0xFF, 0xFF, 0xFF]"
  have r: "read_full [Got ([5, 0, 0, 0] @ ?bs)] 4 = Some ([5, 0, 0, 0], [Got ?bs], 0)"
    "read_full [Got ?bs] 5 = Some (?bs, [], 0)" by (simp_all add: numeral_eq_Suc)
  have l: "read32 [5, 0, 0, 0] 0 = Some 5" by code_simp
  have n: "unat (5 :: u32) = 5" "int (unat (5 :: u32)) = 5" "length ?bs = 5" "\<not> 5 > k_max_msg" by (simp_all add: k_max_msg_def)
  show ?thesis
    using r(1) unfolding read_res_def on_response_def
    by (simp only: append.simps bind.simps prod.case l n r(2) simp_thms if_False if_True)
      (simp add: wrapped_string [unfolded append.simps] del: One_nat_def)
qed

end
