(* ===== verification/Commands.thy ===== *)
theory Commands
  imports ZSet Wire
begin

text \<open>
  The keyspace and the commands of \<open>src/src/server.cpp\<close>: \<open>Entry\<close> objects in the hash map \<open>g_data.db\<close>,
  and \<open>do_get\<close> ... \<open>do_zquery\<close> with their dispatcher \<open>do_request\<close>.  A command takes the parsed request
  and the response string and returns the new state and the response.  An \<open>Entry\<close> embeds an \<open>HNode\<close>
  at its address; its \<open>ZSet\<close> is a separate object.
\<close>

section \<open>The keyspace\<close>

definition T_STR :: u32 where "T_STR = 0"
definition T_ZSET :: u32 where "T_ZSET = 1"

record entry =
  ekey :: "byte list"
  evalue :: "byte list"
  etype :: u32
  ezset :: ptr

record gdata =
  mem :: store
  en_h :: "ptr \<rightharpoonup> entry"
  db :: hmap

definition entry_eq :: "(ptr \<rightharpoonup> entry) \<Rightarrow> byte list \<Rightarrow> ptr \<Rightarrow> bool option" where
  "entry_eq eh key node = do { le \<leftarrow> deref eh node; Some (ekey le = key) }"

text \<open>
  \<open>hm_lookup\<close> and \<open>hm_pop\<close> on \<open>g_data.db\<close> with a stack entry that has the key and its hash.
\<close>

definition db_lookup :: "gdata \<Rightarrow> byte list \<Rightarrow> (gdata \<times> ptr) option" where
  "db_lookup g key = do {
     (h, m, p) \<leftarrow> hm_lookup (hn_h (mem g)) (db g) (str_hash key) (entry_eq (en_h g) key);
     Some (g\<lparr>mem := (mem g)\<lparr>hn_h := h\<rparr>, db := m\<rparr>, p)
   }"

definition db_pop :: "gdata \<Rightarrow> byte list \<Rightarrow> (gdata \<times> ptr) option" where
  "db_pop g key = do {
     (h, m, p) \<leftarrow> hm_pop (hn_h (mem g)) (db g) (str_hash key) (entry_eq (en_h g) key);
     Some (g\<lparr>mem := (mem g)\<lparr>hn_h := h\<rparr>, db := m\<rparr>, p)
   }"

text \<open>\<open>new Entry(...)\<close> with its hash code, then \<open>hm_insert\<close>.\<close>

definition entry_new :: "gdata \<Rightarrow> entry \<Rightarrow> u64 \<Rightarrow> gdata \<times> ptr" where
  "entry_new g e hash =
     (let p = brk (mem g)
      in (g\<lparr>mem := (mem g)\<lparr>hn_h := (hn_h (mem g))(p \<mapsto> \<lparr>hnext = NULL, hcode = hash\<rparr>), brk := p + 1\<rparr>,
            en_h := (en_h g)(p \<mapsto> e)\<rparr>, p))"

definition db_insert :: "gdata \<Rightarrow> ptr \<Rightarrow> gdata option" where
  "db_insert g node = do {
     (h, m) \<leftarrow> hm_insert (hn_h (mem g)) (db g) node;
     Some (g\<lparr>mem := (mem g)\<lparr>hn_h := h\<rparr>, db := m\<rparr>)
   }"

text \<open>\<open>delete\<close> of the \<open>Entry\<close> object: the strings go with it, the sorted set does not.\<close>

definition entry_free :: "gdata \<Rightarrow> ptr \<Rightarrow> gdata option" where
  "entry_free g p = do {
     _ \<leftarrow> deref (en_h g) p;
     Some (g\<lparr>mem := (mem g)\<lparr>hn_h := (hn_h (mem g))(p := None)\<rparr>, en_h := (en_h g)(p := None)\<rparr>)
   }"

definition entry_del :: "gdata \<Rightarrow> ptr \<Rightarrow> gdata option" where
  "entry_del g p = do {
     e \<leftarrow> deref (en_h g) p;
     g \<leftarrow> (if etype e = T_ZSET then do {
              s \<leftarrow> zset_dispose (mem g) (ezset e);
              Some (g\<lparr>mem := s\<lparr>zs_h := (zs_h s)(ezset e := None)\<rparr>\<rparr>) }
            else Some g);
     entry_free g p
   }"

text \<open>
  \<open>std::move\<close> of a string into another: the value moved, and what is left behind.  The standard leaves the
  value of the source unspecified; it is empty in libstdc++ and libc++.
\<close>

definition move_string :: "byte list \<Rightarrow> byte list \<times> byte list" where
  "move_string s = (s, [])"

section \<open>String commands\<close>

definition do_get :: "gdata \<Rightarrow> byte list list \<Rightarrow> byte list \<Rightarrow> (gdata \<times> byte list) option" where
  "do_get g cmd out = do {
     key \<leftarrow> nth_opt cmd 1;
     (g, node) \<leftarrow> db_lookup g key;
     if node = NULL then Some (g, out_nil out)
     else do {
       e \<leftarrow> deref (en_h g) node;
       Some (g, out_str out (evalue e)) } }"

definition do_set :: "gdata \<Rightarrow> byte list list \<Rightarrow> byte list \<Rightarrow> (gdata \<times> byte list) option" where
  "do_set g cmd out = do {
     c1 \<leftarrow> nth_opt cmd 1;
     let (key, c1) = move_string c1;
     cmd \<leftarrow> put_opt cmd 1 c1;
     c2 \<leftarrow> nth_opt cmd 2;
     let (val, c2) = move_string c2;
     cmd \<leftarrow> put_opt cmd 2 c2;
     (g, node) \<leftarrow> db_lookup g key;
     if node = NULL then do {
       let (g, p) = entry_new g \<lparr>ekey = key, evalue = val, etype = T_STR, ezset = NULL\<rparr> (str_hash key);
       g \<leftarrow> db_insert g p;
       Some (g, out_nil out) }
     else do {
       c2 \<leftarrow> nth_opt cmd 2;
       eh \<leftarrow> modify (en_h g) node (\<lambda>e. e\<lparr>evalue := c2\<rparr>);
       Some (g\<lparr>en_h := eh\<rparr>, out_nil out) } }"

definition do_del :: "gdata \<Rightarrow> byte list list \<Rightarrow> byte list \<Rightarrow> (gdata \<times> byte list) option" where
  "do_del g cmd out = do {
     key \<leftarrow> nth_opt cmd 1;
     (g, node) \<leftarrow> db_pop g key;
     g \<leftarrow> (if node \<noteq> NULL then entry_free g node else Some g);
     Some (g, out_int out (if node \<noteq> NULL then 1 else 0))
   }"

section \<open>Scanning the keys\<close>

partial_function (option) h_scan_chain ::
  "hnode_heap \<Rightarrow> (ptr \<Rightarrow> byte list \<Rightarrow> byte list option) \<Rightarrow> ptr \<Rightarrow> byte list \<Rightarrow> byte list option" where
  "h_scan_chain h f node out =
     (if node = NULL then Some out
      else do {
        out \<leftarrow> f node out;
        n \<leftarrow> deref h node;
        h_scan_chain h f (hnext n) out })"

declare h_scan_chain.simps [code]

text \<open>The buckets from \<open>i\<close> on; \<open>n\<close> is \<open>tab->mask + 1 - i\<close>.\<close>

fun h_scan_buckets ::
  "hnode_heap \<Rightarrow> (ptr \<Rightarrow> byte list \<Rightarrow> byte list option) \<Rightarrow> ptr list \<Rightarrow> nat \<Rightarrow> nat \<Rightarrow> byte list \<Rightarrow> byte list option" where
  "h_scan_buckets h f t i 0 out = Some out"
| "h_scan_buckets h f t i (Suc n) out = do {
     node \<leftarrow> nth_opt t i;
     out \<leftarrow> h_scan_chain h f node out;
     h_scan_buckets h f t (i + 1) n out
   }"

definition h_scan ::
  "hnode_heap \<Rightarrow> htab \<Rightarrow> (ptr \<Rightarrow> byte list \<Rightarrow> byte list option) \<Rightarrow> byte list \<Rightarrow> byte list option" where
  "h_scan h ht f out =
     (if hsize ht = 0 then Some out
      else do {
        t \<leftarrow> tab ht;
        h_scan_buckets h f t 0 (unat (mask ht + 1)) out })"

definition cb_scan :: "(ptr \<rightharpoonup> entry) \<Rightarrow> ptr \<Rightarrow> byte list \<Rightarrow> byte list option" where
  "cb_scan eh node out = do { e \<leftarrow> deref eh node; Some (out_str out (ekey e)) }"

definition do_keys :: "gdata \<Rightarrow> byte list list \<Rightarrow> byte list \<Rightarrow> (gdata \<times> byte list) option" where
  "do_keys g cmd out = do {
     let out = out_arr out (ucast (hm_size (db g)));
     out \<leftarrow> h_scan (hn_h (mem g)) (ht1 (db g)) (cb_scan (en_h g)) out;
     out \<leftarrow> h_scan (hn_h (mem g)) (ht2 (db g)) (cb_scan (en_h g)) out;
     Some (g, out)
   }"

section \<open>Sorted set commands\<close>

definition do_zadd :: "gdata \<Rightarrow> byte list list \<Rightarrow> byte list \<Rightarrow> (gdata \<times> byte list) option" where
  "do_zadd g cmd out = do {
     c2 \<leftarrow> nth_opt cmd 2;
     case str2dbl c2 of
       None \<Rightarrow> Some (g, out_err out ERR_ARG (ascii ''expect fp number''))
     | Some score \<Rightarrow> do {
         key \<leftarrow> nth_opt cmd 1;
         (g, hnode) \<leftarrow> db_lookup g key;
         (g, ent) \<leftarrow> (if hnode = NULL then do {
             let (s, z) = zset_new (mem g);
             let (g, p) = entry_new (g\<lparr>mem := s\<rparr>) \<lparr>ekey = key, evalue = [], etype = T_ZSET, ezset = z\<rparr> (str_hash key);
             g \<leftarrow> db_insert g p;
             Some (g, Some p) }
           else do {
             e \<leftarrow> deref (en_h g) hnode;
             Some (g, if etype e \<noteq> T_ZSET then None else Some hnode) });
         case ent of
           None \<Rightarrow> Some (g, out_err out ERR_TYPE (ascii ''expect zset''))
         | Some ent \<Rightarrow> do {
             name \<leftarrow> nth_opt cmd 3;
             e \<leftarrow> deref (en_h g) ent;
             (s, added) \<leftarrow> zset_add (mem g) (ezset e) name (of_nat (length name)) score;
             Some (g\<lparr>mem := s\<rparr>, out_int out (if added then 1 else 0)) } } }"

text \<open>\<open>None\<close> in the third place when the function returned \<open>false\<close>.\<close>

definition expect_zset :: "gdata \<Rightarrow> byte list \<Rightarrow> byte list \<Rightarrow> (gdata \<times> byte list \<times> entry option) option" where
  "expect_zset g out key = do {
     (g, hnode) \<leftarrow> db_lookup g key;
     if hnode = NULL then Some (g, out_nil out, None)
     else do {
       e \<leftarrow> deref (en_h g) hnode;
       if etype e \<noteq> T_ZSET then Some (g, out_err out ERR_TYPE (ascii ''expect zset''), None)
       else Some (g, out, Some e) } }"

definition do_zrem :: "gdata \<Rightarrow> byte list list \<Rightarrow> byte list \<Rightarrow> (gdata \<times> byte list) option" where
  "do_zrem g cmd out = do {
     key \<leftarrow> nth_opt cmd 1;
     (g, out, ent) \<leftarrow> expect_zset g out key;
     case ent of
       None \<Rightarrow> Some (g, out)
     | Some e \<Rightarrow> do {
         name \<leftarrow> nth_opt cmd 2;
         (s, znode) \<leftarrow> zset_pop (mem g) (ezset e) name (of_nat (length name));
         s \<leftarrow> (if znode \<noteq> NULL then znode_del s znode else Some s);
         Some (g\<lparr>mem := s\<rparr>, out_int out (if znode \<noteq> NULL then 1 else 0)) } }"

definition do_zscore :: "gdata \<Rightarrow> byte list list \<Rightarrow> byte list \<Rightarrow> (gdata \<times> byte list) option" where
  "do_zscore g cmd out = do {
     key \<leftarrow> nth_opt cmd 1;
     (g, out, ent) \<leftarrow> expect_zset g out key;
     case ent of
       None \<Rightarrow> Some (g, out)
     | Some e \<Rightarrow> do {
         name \<leftarrow> nth_opt cmd 2;
         (s, znode) \<leftarrow> zset_lookup (mem g) (ezset e) name (of_nat (length name));
         if znode = NULL then Some (g\<lparr>mem := s\<rparr>, out_nil out)
         else do {
           n \<leftarrow> deref (zn_h s) znode;
           Some (g\<lparr>mem := s\<rparr>, out_dbl out (zscore n)) } } }"

text \<open>The output loop of \<open>do_zquery\<close>; \<open>n\<close> counts two values per member.\<close>

partial_function (option) zquery_loop ::
  "store \<Rightarrow> ptr \<Rightarrow> int \<Rightarrow> u32 \<Rightarrow> byte list \<Rightarrow> (byte list \<times> u32) option" where
  "zquery_loop s znode limit n out =
     (if znode \<noteq> NULL \<and> int (unat n) < limit then do {
        zn \<leftarrow> deref (zn_h s) znode;
        out \<leftarrow> out_str_n out (zname zn) (zlen zn);
        let out = out_dbl out (zscore zn);
        znode \<leftarrow> znode_offset s znode 1;
        zquery_loop s znode limit (n + 2) out }
      else Some (out, n))"

declare zquery_loop.simps [code]

definition do_zquery :: "gdata \<Rightarrow> byte list list \<Rightarrow> byte list \<Rightarrow> (gdata \<times> byte list) option" where
  "do_zquery g cmd out = do {
     c2 \<leftarrow> nth_opt cmd 2;
     c4 \<leftarrow> nth_opt cmd 4;
     c5 \<leftarrow> nth_opt cmd 5;
     case str2dbl c2 of
       None \<Rightarrow> Some (g, out_err out ERR_ARG (ascii ''expect fp number''))
     | Some score \<Rightarrow>
     (case str2int c4 of
       None \<Rightarrow> Some (g, out_err out ERR_ARG (ascii ''expect int''))
     | Some offset \<Rightarrow>
     (case str2int c5 of
       None \<Rightarrow> Some (g, out_err out ERR_ARG (ascii ''expect int''))
     | Some limit \<Rightarrow> do {
         name \<leftarrow> nth_opt cmd 3;
         key \<leftarrow> nth_opt cmd 1;
         (g, out, ent) \<leftarrow> expect_zset g out key;
         case ent of
           None \<Rightarrow> do {
             b \<leftarrow> nth_opt out 0;
             Some (g, if b = SER_NIL then out_arr [] 0 else out) }
         | Some e \<Rightarrow>
             if limit \<le> 0 then Some (g, out_arr out 0)
             else do {
               znode \<leftarrow> zset_query (mem g) (ezset e) score name (of_nat (length name));
               znode \<leftarrow> znode_offset (mem g) znode offset;
               let (out, arr) = begin_arr out;
               (out, n) \<leftarrow> zquery_loop (mem g) znode limit 0 out;
               out \<leftarrow> end_arr out arr n;
               Some (g, out) } })) }"

section \<open>The dispatcher\<close>

definition do_request :: "gdata \<Rightarrow> byte list list \<Rightarrow> byte list \<Rightarrow> (gdata \<times> byte list) option" where
  "do_request g cmd out =
     (let is = (\<lambda>n w. length cmd = n \<and> cmd_is (cmd ! 0) (ascii w))
      in if is 1 ''keys'' then do_keys g cmd out
         else if is 2 ''get'' then do_get g cmd out
         else if is 3 ''set'' then do_set g cmd out
         else if is 2 ''del'' then do_del g cmd out
         else if is 4 ''zadd'' then do_zadd g cmd out
         else if is 3 ''zrem'' then do_zrem g cmd out
         else if is 3 ''zscore'' then do_zscore g cmd out
         else if is 6 ''zquery'' then do_zquery g cmd out
         else Some (g, out_err out ERR_UNKNOWN (ascii ''Unknown cmd'')))"

end
