(* ===== verification/Commands_Refine.thy ===== *)
theory Commands_Refine
  imports Commands ZSet_Refine Protocol
begin

text \<open>
  The keyspace as an abstract map from keys to values, a string or a sorted member list.  Each
  command is shown to return and to act on the map as its specification says, over any contents of
  the keyspace; the invariant says which objects the entries own and that they share none.
\<close>

section \<open>The invariant of the keyspace\<close>

definition key_of :: "(ptr \<rightharpoonup> entry) \<Rightarrow> ptr \<Rightarrow> byte list" where
  "key_of eh x = (case eh x of Some e \<Rightarrow> ekey e | None \<Rightarrow> [])"

lemma key_of_Some [simp]: "eh x = Some e \<Longrightarrow> key_of eh x = ekey e"
  by (simp add: key_of_def)

text \<open>\<open>T x\<close> is the tree of the sorted set of entry \<open>x\<close>, \<open>Leaf\<close> for a string.\<close>

definition entry_ok :: "store \<Rightarrow> ptr tree \<Rightarrow> entry \<Rightarrow> bool" where
  "entry_ok s t e \<longleftrightarrow>
     etype e = T_STR \<and> t = Leaf \<or>
     etype e = T_ZSET \<and> evalue e = [] \<and> zset_repr s (ezset e) t"

definition entries_ok :: "store \<Rightarrow> (ptr \<rightharpoonup> entry) \<Rightarrow> ptr set \<Rightarrow> (ptr \<Rightarrow> ptr tree) \<Rightarrow> bool" where
  "entries_ok s eh E T \<longleftrightarrow> (\<forall>x \<in> E. \<exists>e. eh x = Some e \<and> entry_ok s (T x) e)"

definition zset_entry :: "(ptr \<rightharpoonup> entry) \<Rightarrow> ptr \<Rightarrow> ptr option" where
  "zset_entry eh x = (case eh x of Some e \<Rightarrow> if etype e = T_ZSET then Some (ezset e) else None | None \<Rightarrow> None)"

definition separate :: "(ptr \<rightharpoonup> entry) \<Rightarrow> ptr set \<Rightarrow> (ptr \<Rightarrow> ptr tree) \<Rightarrow> bool" where
  "separate eh E T \<longleftrightarrow>
     (\<forall>x \<in> E. set_tree (T x) \<inter> E = {}) \<and>
     (\<forall>x \<in> E. \<forall>y \<in> E. x \<noteq> y \<longrightarrow> set_tree (T x) \<inter> set_tree (T y) = {} \<and>
        (zset_entry eh x \<noteq> None \<longrightarrow> zset_entry eh x \<noteq> zset_entry eh y))"

definition db_repr :: "gdata \<Rightarrow> ptr set \<Rightarrow> (ptr \<Rightarrow> ptr tree) \<Rightarrow> bool" where
  "db_repr g E T \<longleftrightarrow> store_ok (mem g) \<and> (\<forall>p \<ge> brk (mem g). en_h g p = None) \<and>
     hm_repr (hn_h (mem g)) (db g) E \<and>
     keyed str_hash (key_of (en_h g)) (hn_h (mem g)) E \<and>
     entries_ok (mem g) (en_h g) E T \<and> separate (en_h g) E T"

section \<open>The abstract keyspace\<close>

datatype val = Str "byte list" | Zset "member list"

type_synonym keyspace = "byte list \<rightharpoonup> val"

definition val_of :: "gdata \<Rightarrow> (ptr \<Rightarrow> ptr tree) \<Rightarrow> ptr \<Rightarrow> val" where
  "val_of g T x = (case en_h g x of
     Some e \<Rightarrow> if etype e = T_ZSET then Zset (members (mem g) (T x)) else Str (evalue e)
   | None \<Rightarrow> Str [])"

definition kv_of :: "gdata \<Rightarrow> ptr set \<Rightarrow> (ptr \<Rightarrow> ptr tree) \<Rightarrow> keyspace \<Rightarrow> bool" where
  "kv_of g E T kv \<longleftrightarrow> dom kv = key_of (en_h g) ` E \<and> (\<forall>x \<in> E. kv (key_of (en_h g) x) = Some (val_of g T x))"

definition db_rep :: "gdata \<Rightarrow> keyspace \<Rightarrow> bool" where
  "db_rep g kv \<longleftrightarrow> (\<exists>E T. db_repr g E T \<and> kv_of g E T kv)"

lemma db_repI: "db_repr g E T \<Longrightarrow> kv_of g E T kv \<Longrightarrow> db_rep g kv"
  unfolding db_rep_def by blast

lemma db_reprD:
  assumes "db_repr g E T"
  shows "store_ok (mem g)" "hm_repr (hn_h (mem g)) (db g) E"
    "keyed str_hash (key_of (en_h g)) (hn_h (mem g)) E"
    "entries_ok (mem g) (en_h g) E T" "separate (en_h g) E T" "\<forall>p \<ge> brk (mem g). en_h g p = None"
  using assms by (simp_all add: db_repr_def)

lemma entries_okD: "entries_ok s eh E T \<Longrightarrow> x \<in> E \<Longrightarrow> \<exists>e. eh x = Some e \<and> entry_ok s (T x) e"
  by (simp add: entries_ok_def)

lemma T_ZSET_neq [simp]: "T_STR \<noteq> T_ZSET" "T_ZSET \<noteq> T_STR"
  by (simp_all add: T_STR_def T_ZSET_def)

lemma db_repr_below:
  assumes "db_repr g E T" "x \<in> E"
  shows "x \<noteq> NULL" "x < brk (mem g)"
proof -
  note d = db_reprD [OF assms(1)]
  show "x \<noteq> NULL" using hm_repr_mem [OF d(2) assms(2)] by blast
  show "x < brk (mem g)" using entries_okD [OF d(4) assms(2)] d(6) by (metis not_le option.distinct(1))
qed

text \<open>An entry stays good while its own sorted set is untouched.\<close>

lemma entry_ok_cong:
  assumes "entry_ok s t e"
    and "\<And>y. y \<in> set_tree t \<Longrightarrow> avl_h s' y = avl_h s y \<and> hn_h s' y = hn_h s y \<and> zn_h s' y = zn_h s y"
    and "etype e = T_ZSET \<Longrightarrow> zs_h s' (ezset e) = zs_h s (ezset e)"
  shows "entry_ok s' t e" and "members s' t = members s t"
proof -
  show "entry_ok s' t e"
    using assms(1) zset_repr_cong(1) [OF _ assms(3) assms(2)] unfolding entry_ok_def by blast
  show "members s' t = members s t"
    using assms(2) by (simp add: members_def member_of_def)
qed

lemma entry_eq_total:
  "entries_ok s eh E T \<Longrightarrow> (\<And>x. x \<in> E \<Longrightarrow> x \<noteq> NULL) \<Longrightarrow> x \<in> E \<Longrightarrow> entry_eq eh k x = Some (key_of eh x = k)"
  using entries_okD by (fastforce simp: entry_eq_def)

section \<open>Looking up an entry\<close>

lemma db_lookup_repr:
  assumes r: "db_repr g E T"
  shows "\<exists>g' p. db_lookup g k = Some (g', p) \<and> db_repr g' E T \<and> node_for (key_of (en_h g)) E k p \<and>
    en_h g' = en_h g \<and> (\<forall>kv. kv_of g' E T kv = kv_of g E T kv)"
proof -
  note d = db_reprD [OF r]
  have eq: "entry_eq (en_h g) k x = Some (key_of (en_h g) x = k)" if "x \<in> E" for x
    using entry_eq_total [OF d(4) _ that] db_repr_below(1) [OF r] by blast
  from hm.find_key [OF d(2,3) eq] obtain h m p where
    f: "hm_lookup (hn_h (mem g)) (db g) (str_hash k) (entry_eq (en_h g) k) = Some (h, m, p)"
      "hm_repr h m E" "keyed str_hash (key_of (en_h g)) h E" "same_outside E (hn_h (mem g)) h"
      "node_for (key_of (en_h g)) E k p" by blast
  let ?g = "g\<lparr>mem := (mem g)\<lparr>hn_h := h\<rparr>, db := m\<rparr>"
  have "entries_ok (mem ?g) (en_h g) E T"
    unfolding entries_ok_def
  proof
    fix x assume x: "x \<in> E"
    from entries_okD [OF d(4) x] obtain e where e: "en_h g x = Some e" "entry_ok (mem g) (T x) e" by blast
    have "set_tree (T x) \<inter> E = {}" using d(5) x by (simp add: separate_def)
    then have "h y = hn_h (mem g) y" if "y \<in> set_tree (T x)" for y
      using f(4) that unfolding same_outside_def by blast
    then have "entry_ok (mem ?g) (T x) e" by (intro entry_ok_cong(1) [OF e(2)]) simp_all
    with e(1) show "\<exists>e. en_h g x = Some e \<and> entry_ok (mem ?g) (T x) e" by blast
  qed
  moreover have "store_ok (mem ?g)"
    using store_ok_frame [OF d(1), of "mem ?g" E "{}"] f(4) db_repr_below(2) [OF r] by simp
  ultimately have "db_repr ?g E T" using d f(2,3) by (simp add: db_repr_def)
  moreover have "val_of ?g T x = val_of g T x" for x
    by (simp add: val_of_def members_def split: option.split)
  then have "\<forall>kv. kv_of ?g E T kv = kv_of g E T kv" by (simp add: kv_of_def)
  ultimately show ?thesis using f(1,5) by (simp add: db_lookup_def)
qed

text \<open>What the abstract keyspace says about a lookup.\<close>

lemma kv_lookup:
  assumes "kv_of g E T kv" "node_for (key_of (en_h g)) E k p"
  shows "kv k = (if p = NULL then None else Some (val_of g T p))"
  using assms by (auto simp: kv_of_def node_for_def domIff split: if_splits)

lemma kv_node:
  assumes "db_repr g E T" "node_for (key_of (en_h g)) E k p" "p \<noteq> NULL"
  shows "p \<in> E" "\<exists>e. en_h g p = Some e \<and> entry_ok (mem g) (T p) e \<and> ekey e = k"
proof -
  show p: "p \<in> E" using assms(2,3) by (simp add: node_for_def)
  from entries_okD [OF db_reprD(4) [OF assms(1)] p] obtain e where
    "en_h g p = Some e" "entry_ok (mem g) (T p) e" by blast
  with assms(2,3) show "\<exists>e. en_h g p = Some e \<and> entry_ok (mem g) (T p) e \<and> ekey e = k"
    by (simp add: node_for_def)
qed


section \<open>Changing one sorted set\<close>

lemma frame_hn:
  assumes "frame_ok s s' N Z" "x < brk s" "x \<notin> N"
  shows "avl_h s' x = avl_h s x \<and> hn_h s' x = hn_h s x \<and> zn_h s' x = zn_h s x"
  using assms by (simp add: frame_ok_def)

lemma db_update_zset:
  assumes r: "db_repr g E T" and x: "x \<in> E" "en_h g x = Some e" "etype e = T_ZSET"
    and s: "zset_repr s' (ezset e) t'" "store_ok s'" "frame_ok (mem g) s' (set_tree (T x)) {ezset e}"
      "set_tree t' \<subseteq> set_tree (T x) \<union> {y. brk (mem g) \<le> y \<and> y < brk s'}"
    and ev: "evalue e = []"
  shows "db_repr (g\<lparr>mem := s'\<rparr>) E (T(x := t'))"
    and "kv_of g E T kv \<Longrightarrow> kv_of (g\<lparr>mem := s'\<rparr>) E (T(x := t')) (kv(ekey e \<mapsto> Zset (members s' t')))"
proof -
  note d = db_reprD [OF r]
  have brk: "brk (mem g) \<le> brk s'" using s(3) by (simp add: frame_ok_def)
  have E: "hn_h s' y = hn_h (mem g) y" if "y \<in> E" for y
    using frame_hn [OF s(3) db_repr_below(2) [OF r that]] d(5) x(1) that by (auto simp: separate_def)
  have sep: "set_tree (T y) \<inter> set_tree (T x) = {}" "zset_entry (en_h g) y \<noteq> Some (ezset e)" if "y \<in> E" "y \<noteq> x" for y
  proof -
    show "set_tree (T y) \<inter> set_tree (T x) = {}" using d(5) x(1) that by (simp add: separate_def)
    have "zset_entry (en_h g) x = Some (ezset e)" using x(2,3) by (simp add: zset_entry_def)
    moreover have "zset_entry (en_h g) x \<noteq> None \<longrightarrow> zset_entry (en_h g) x \<noteq> zset_entry (en_h g) y"
      using d(5) x(1) that by (simp add: separate_def)
    ultimately show "zset_entry (en_h g) y \<noteq> Some (ezset e)" by auto
  qed
  have below: "z < brk (mem g)" if "y \<in> E" "z \<in> set_tree (T y)" for y z
  proof -
    from entries_okD [OF d(4) that(1)] obtain ey where "entry_ok (mem g) (T y) ey" by blast
    with that(2) show ?thesis using zset_below(2) [OF d(1)] by (auto simp: entry_ok_def)
  qed
  have other: "entry_ok s' (T y) ey \<and> members s' (T y) = members (mem g) (T y)"
    if y: "y \<in> E" "y \<noteq> x" and ey: "en_h g y = Some ey" "entry_ok (mem g) (T y) ey" for y ey
  proof -
    have "avl_h s' z = avl_h (mem g) z \<and> hn_h s' z = hn_h (mem g) z \<and> zn_h s' z = zn_h (mem g) z"
      if "z \<in> set_tree (T y)" for z
      using frame_hn [OF s(3) below [OF y(1) that]] sep(1) [OF y] that by blast
    moreover have "zs_h s' (ezset ey) = zs_h (mem g) (ezset ey)" if "etype ey = T_ZSET"
    proof -
      have "ezset ey \<noteq> ezset e" using sep(2) [OF y] ey(1) that by (simp add: zset_entry_def)
      moreover have "ezset ey < brk (mem g)"
        using ey(2) that zset_below(1) [OF d(1)] by (auto simp: entry_ok_def)
      ultimately show ?thesis using s(3) by (simp add: frame_ok_def)
    qed
    ultimately show ?thesis using entry_ok_cong [OF ey(2)] by blast
  qed
  have "entries_ok s' (en_h g) E (T(x := t'))"
    unfolding entries_ok_def
  proof
    fix y assume y: "y \<in> E"
    show "\<exists>e. en_h g y = Some e \<and> entry_ok s' ((T(x := t')) y) e"
    proof (cases "y = x")
      case True
      with x(2,3) s(1) ev show ?thesis by (simp add: entry_ok_def)
    next
      case False
      from entries_okD [OF d(4) y] obtain ey where "en_h g y = Some ey" "entry_ok (mem g) (T y) ey" by blast
      with other [OF y False this] False show ?thesis by simp
    qed
  qed
  moreover have "separate (en_h g) E (T(x := t'))"
  proof -
    have tE: "set_tree t' \<inter> E = {}"
      using s(4) d(5) x(1) db_repr_below(2) [OF r] unfolding separate_def by (fastforce simp: not_le)
    have tT: "set_tree t' \<inter> set_tree (T y) = {}" if "y \<in> E" "y \<noteq> x" for y
      using s(4) sep(1) [OF that] below [OF that(1)] by (fastforce simp: not_le)
    have "set_tree ((T(x := t')) y) \<inter> E = {}" if "y \<in> E" for y
      using d(5) tE that by (simp add: separate_def)
    moreover have "set_tree ((T(x := t')) y) \<inter> set_tree ((T(x := t')) y') = {}" if "y \<in> E" "y' \<in> E" "y \<noteq> y'" for y y'
      using d(5) tT that by (cases "y = x"; cases "y' = x") (simp_all add: separate_def Int_commute)
    ultimately show ?thesis using d(5) by (simp add: separate_def)
  qed
  moreover have "hm_repr (hn_h s') (db g) E" using hm_repr_cong [OF d(2)] E by blast
  moreover have "keyed str_hash (key_of (en_h g)) (hn_h s') E"
    using d(3) keyed_heap_cong [of E "hn_h s'" "hn_h (mem g)"] E by blast
  ultimately show "db_repr (g\<lparr>mem := s'\<rparr>) E (T(x := t'))"
    using s(2) d(6) brk by (simp add: db_repr_def)
  assume kv: "kv_of g E T kv"
  have "val_of (g\<lparr>mem := s'\<rparr>) (T(x := t')) y = val_of g T y" if "y \<in> E" "y \<noteq> x" for y
  proof -
    from entries_okD [OF d(4) that(1)] obtain ey where ey: "en_h g y = Some ey" "entry_ok (mem g) (T y) ey" by blast
    from other [OF that ey] ey(1) that(2) show ?thesis by (simp add: val_of_def)
  qed
  moreover have "val_of (g\<lparr>mem := s'\<rparr>) (T(x := t')) x = Zset (members s' t')"
    using x(2,3) by (simp add: val_of_def)
  moreover have "key_of (en_h g) y \<noteq> ekey e" if "y \<in> E" "y \<noteq> x" for y
    using d(3) that x(1,2) by (auto simp: keyed_def inj_on_def)
  moreover have "ekey e \<in> key_of (en_h g) ` E" using x(1,2) by (metis imageI key_of_Some)
  ultimately have "(kv(ekey e \<mapsto> Zset (members s' t'))) (key_of (en_h g) y) =
      Some (val_of (g\<lparr>mem := s'\<rparr>) (T(x := t')) y)" if "y \<in> E" for y
    using kv x(2) that unfolding kv_of_def by (cases "y = x") simp_all
  moreover have "dom (kv(ekey e \<mapsto> Zset (members s' t'))) = key_of (en_h g) ` E"
    using kv \<open>ekey e \<in> key_of (en_h g) ` E\<close> unfolding kv_of_def by (simp add: insert_absorb)
  ultimately show "kv_of (g\<lparr>mem := s'\<rparr>) E (T(x := t')) (kv(ekey e \<mapsto> Zset (members s' t')))"
    by (simp add: kv_of_def)
qed

section \<open>Adding an entry\<close>

lemma db_add_entry:
  assumes r: "db_repr g E T" and new: "ekey e \<notin> key_of (en_h g) ` E" and cap: "card E + 1 < hm_capacity"
    and ok: "entry_ok (mem g) Leaf e"
    and own: "etype e = T_ZSET \<Longrightarrow> \<forall>x \<in> E. zset_entry (en_h g) x \<noteq> Some (ezset e)"
  defines "p \<equiv> brk (mem g)"
  shows "\<exists>g1 g'. entry_new g e (str_hash (ekey e)) = (g1, p) \<and> db_insert g1 p = Some g' \<and>
    db_repr g' (insert p E) (T(p := Leaf)) \<and> en_h g' = (en_h g)(p \<mapsto> e) \<and>
    (\<forall>kv. kv_of g E T kv \<longrightarrow> kv_of g' (insert p E) (T(p := Leaf))
       (kv(ekey e \<mapsto> (if etype e = T_ZSET then Zset [] else Str (evalue e)))))"
proof -
  note d = db_reprD [OF r]
  have p: "p \<noteq> NULL" "p \<notin> E" using d(1) db_repr_below(2) [OF r] by (auto simp: p_def store_ok_def)
  define g1 where "g1 = g\<lparr>mem := (mem g)\<lparr>hn_h := (hn_h (mem g))(p \<mapsto> \<lparr>hnext = NULL, hcode = str_hash (ekey e)\<rparr>), brk := p + 1\<rparr>,
            en_h := (en_h g)(p \<mapsto> e)\<rparr>"
  have n: "entry_new g e (str_hash (ekey e)) = (g1, p)" by (simp add: entry_new_def g1_def p_def Let_def)
  have E: "hn_h (mem g1) y = hn_h (mem g) y" "en_h g1 y = en_h g y" if "y \<in> E" for y
    using that p(2) by (auto simp: g1_def)
  have keyE: "key_of (en_h g1) y = key_of (en_h g) y" if "y \<in> E" for y
    using E(2) [OF that] by (simp add: key_of_def)
  have keyp: "key_of (en_h g1) p = ekey e" by (simp add: g1_def)
  have img: "key_of (en_h g1) ` E = key_of (en_h g) ` E" using keyE by (intro image_cong) simp_all
  have m: "hm_repr (hn_h (mem g1)) (db g) E" using hm_repr_cong [OF d(2)] E(1) by blast
  have k: "keyed str_hash (key_of (en_h g1)) (hn_h (mem g1)) E"
    using d(3) keyed_cong [of E "key_of (en_h g1)" "key_of (en_h g)" str_hash "hn_h (mem g1)"] keyE
      keyed_heap_cong [of E "hn_h (mem g1)" "hn_h (mem g)" str_hash "key_of (en_h g)"] E(1) by simp
  have hp: "map_option hcode (hn_h (mem g1) p) = Some (str_hash (key_of (en_h g1) p))"
    unfolding keyp by (simp add: g1_def)
  have "key_of (en_h g1) p \<notin> key_of (en_h g1) ` E" unfolding img keyp by (rule new)
  from hm.add_key [OF m k cap hp p this] obtain h m' where
    i: "hm_insert (hn_h (mem g1)) (db g) p = Some (h, m')" "hm_repr h m' (insert p E)"
      "keyed str_hash (key_of (en_h g1)) h (insert p E)" "same_outside (insert p E) (hn_h (mem g1)) h" by blast
  define g' where "g' = g1\<lparr>mem := (mem g1)\<lparr>hn_h := h\<rparr>, db := m'\<rparr>"
  have db: "db_insert g1 p = Some g'" using i(1) by (simp add: db_insert_def g'_def) (simp add: g1_def)
  have below: "z < p" if "y \<in> E" "z \<in> set_tree (T y)" for y z
  proof -
    from entries_okD [OF d(4) that(1)] obtain ey where "entry_ok (mem g) (T y) ey" by blast
    with that(2) show ?thesis using zset_below(2) [OF d(1)] by (auto simp: entry_ok_def p_def)
  qed
  have other: "entry_ok (mem g') (T y) ey \<and> members (mem g') (T y) = members (mem g) (T y)"
    if y: "y \<in> E" and ey: "entry_ok (mem g) (T y) ey" for y ey
  proof -
    have "avl_h (mem g') z = avl_h (mem g) z \<and> hn_h (mem g') z = hn_h (mem g) z \<and> zn_h (mem g') z = zn_h (mem g) z"
      if z: "z \<in> set_tree (T y)" for z
    proof -
      have "z \<notin> insert p E" using below [OF y z] d(5) y z by (auto simp: separate_def)
      then show ?thesis using i(4) by (auto simp: g'_def g1_def same_outside_def)
    qed
    moreover have "zs_h (mem g') (ezset ey) = zs_h (mem g) (ezset ey)" by (simp add: g'_def g1_def)
    ultimately show ?thesis using entry_ok_cong [OF ey] by blast
  qed
  have "entry_ok (mem g') Leaf e"
    by (rule entry_ok_cong(1) [OF ok]) (simp_all add: g'_def g1_def)
  then have "entries_ok (mem g') (en_h g') (insert p E) (T(p := Leaf))"
    using other entries_okD [OF d(4)] E(2) p(2) unfolding entries_ok_def
    by (fastforce simp: g'_def g1_def)
  moreover have "store_ok (mem g')"
  proof -
    have "hn_h (mem g') y = None" if "y > p" for y
    proof -
      have "y \<notin> E" using db_repr_below(2) [OF r, of y] that by (auto simp: p_def)
      then show ?thesis using that i(4) d(1) by (auto simp: g'_def g1_def same_outside_def p_def store_ok_def)
    qed
    then show ?thesis using d(1) by (auto simp: store_ok_def g'_def g1_def p_def)
  qed
  moreover have "separate (en_h g') (insert p E) (T(p := Leaf))"
  proof -
    have z: "zset_entry (en_h g') y = zset_entry (en_h g) y" if "y \<in> E" for y
      using E(2) [OF that] by (simp add: g'_def zset_entry_def)
    have zp: "zset_entry (en_h g') p = (if etype e = T_ZSET then Some (ezset e) else None)"
      by (simp add: g'_def g1_def zset_entry_def)
    have "p \<notin> set_tree (T y)" if "y \<in> E" for y using below [OF that] by blast
    then show ?thesis using d(5) own z zp p(2) unfolding separate_def by (auto split: if_splits)
  qed
  moreover have "\<forall>q \<ge> brk (mem g'). en_h g' q = None" using d(6) by (auto simp: g'_def g1_def p_def)
  ultimately have "db_repr g' (insert p E) (T(p := Leaf))"
    using i(2,3) by (simp add: db_repr_def g'_def)
  moreover have "kv_of g' (insert p E) (T(p := Leaf))
       (kv(ekey e \<mapsto> (if etype e = T_ZSET then Zset [] else Str (evalue e))))" if kv: "kv_of g E T kv" for kv
  proof -
    have "val_of g' (T(p := Leaf)) y = val_of g T y" if y: "y \<in> E" for y
    proof -
      from entries_okD [OF d(4) y] obtain ey where ey: "en_h g y = Some ey" "entry_ok (mem g) (T y) ey" by blast
      with other [OF y ey(2)] E(2) [OF y] p(2) y show ?thesis by (auto simp: val_of_def g'_def)
    qed
    moreover have "val_of g' (T(p := Leaf)) p = (if etype e = T_ZSET then Zset [] else Str (evalue e))"
      by (simp add: val_of_def g'_def g1_def members_def)
    moreover have "key_of (en_h g') = key_of (en_h g1)" by (simp add: g'_def)
    moreover have "key_of (en_h g) y \<noteq> ekey e" if "y \<in> E" for y using new that by (metis imageI)
    ultimately show ?thesis using kv keyE keyp new img unfolding kv_of_def by auto
  qed
  ultimately show ?thesis using n db by (auto simp: g'_def g1_def)
qed


section \<open>String commands\<close>

text \<open>
  The specification of each command: the new keyspace and the reply.  A lookup by \<open>get\<close> does not
  check the type: the string of a sorted set is empty.
\<close>

definition spec_get :: "keyspace \<Rightarrow> byte list \<Rightarrow> reply" where
  "spec_get kv k = (case kv k of None \<Rightarrow> R_nil | Some (Str v) \<Rightarrow> R_str v | Some (Zset ms) \<Rightarrow> R_str [])"

text \<open>
  \<open>set\<close> stores the value for a new key.  For an existing string it stores what is left in the argument
  after the value was moved out of it, the empty string; a sorted set stays as it is.
\<close>

definition spec_set :: "keyspace \<Rightarrow> byte list \<Rightarrow> byte list \<Rightarrow> keyspace" where
  "spec_set kv k v = (case kv k of None \<Rightarrow> kv(k \<mapsto> Str v) | Some (Str w) \<Rightarrow> kv(k \<mapsto> Str []) | Some (Zset ms) \<Rightarrow> kv)"

definition spec_del :: "keyspace \<Rightarrow> byte list \<Rightarrow> keyspace \<times> reply" where
  "spec_del kv k = (kv(k := None), R_int (if kv k = None then 0 else 1))"

lemma val_of_cases:
  assumes "en_h g p = Some e" "entry_ok (mem g) (T p) e"
  obtains (str) "etype e = T_STR" "T p = Leaf" "val_of g T p = Str (evalue e)"
  | (zset) "etype e = T_ZSET" "evalue e = []" "zset_repr (mem g) (ezset e) (T p)"
      "val_of g T p = Zset (members (mem g) (T p))"
  using assms by (auto simp: entry_ok_def val_of_def)

lemma do_get_repr:
  assumes "db_rep g kv" "cmd = [c0, k]"
  shows "\<exists>g'. do_get g cmd out = Some (g', emit out (spec_get kv k)) \<and> db_rep g' kv"
proof -
  from assms(1) obtain E T where r: "db_repr g E T" "kv_of g E T kv" by (auto simp: db_rep_def)
  from db_lookup_repr [OF r(1)] obtain g' p where l: "db_lookup g k = Some (g', p)" "db_repr g' E T"
    "node_for (key_of (en_h g)) E k p" "en_h g' = en_h g" "\<forall>kv. kv_of g' E T kv = kv_of g E T kv" by blast
  have kv': "kv_of g' E T kv" using l(5) r(2) by blast
  have n': "node_for (key_of (en_h g')) E k p" using l(3,4) by simp
  note look = kv_lookup [OF kv' n']
  have "do_get g cmd out = Some (g', emit out (spec_get kv k))"
  proof (cases "p = NULL")
    case True
    with look l(1) assms(2) show ?thesis by (simp add: do_get_def spec_get_def)
  next
    case False
    from kv_node [OF l(2) n' False] obtain e where e: "en_h g' p = Some e" "entry_ok (mem g') (T p) e" by blast
    from e look False l(1) assms(2) show ?thesis
      by (cases rule: val_of_cases [of g' p e T, OF e]) (simp_all add: do_get_def spec_get_def)
  qed
  then show ?thesis using db_repI [OF l(2) kv'] by blast
qed

definition roomy :: "keyspace \<Rightarrow> bool" where
  "roomy kv \<longleftrightarrow> card (dom kv) + 1 < hm_capacity \<and> (\<forall>k ms. kv k = Some (Zset ms) \<longrightarrow> length ms + 1 < 2 ^ 31)"

lemma kv_card: "db_repr g E T \<Longrightarrow> kv_of g E T kv \<Longrightarrow> card E = card (dom kv)"
  using db_reprD(3) by (fastforce simp: kv_of_def keyed_def card_image)

lemma kv_of_new:
  assumes "kv_of g E T kv" "kv k = None"
  shows "k \<notin> key_of (en_h g) ` E"
  using assms by (auto simp: kv_of_def domIff)

text \<open>Changing the string of an entry.\<close>

lemma db_update_value:
  assumes r: "db_repr g E T" and x: "x \<in> E" "en_h g x = Some e" and kv: "kv_of g E T kv"
    and v: "etype e = T_ZSET \<Longrightarrow> v = []"
  shows "db_rep (g\<lparr>en_h := (en_h g)(x \<mapsto> e\<lparr>evalue := v\<rparr>)\<rparr>)
    (if etype e = T_ZSET then kv else kv(ekey e \<mapsto> Str v))"
proof -
  note d = db_reprD [OF r]
  let ?eh = "(en_h g)(x \<mapsto> e\<lparr>evalue := v\<rparr>)"
  have key: "key_of ?eh y = key_of (en_h g) y" for y using x(2) by (simp add: key_of_def)
  have keys: "key_of ?eh = key_of (en_h g)" by (rule ext) (rule key)
  have zs: "zset_entry ?eh y = zset_entry (en_h g) y" for y using x(2) by (simp add: zset_entry_def)
  have "entries_ok (mem g) ?eh E T"
    using d(4) x v unfolding entries_ok_def by (fastforce simp: entry_ok_def)
  then have "db_repr (g\<lparr>en_h := ?eh\<rparr>) E T"
    using d db_repr_below(2) [OF r x(1)] keys by (auto simp: db_repr_def separate_def zs)
  moreover have inj: "key_of (en_h g) y \<noteq> ekey e" if "y \<in> E" "y \<noteq> x" for y
    using d(3) that x by (auto simp: keyed_def inj_on_def)
  have "kv_of (g\<lparr>en_h := ?eh\<rparr>) E T (if etype e = T_ZSET then kv else kv(ekey e \<mapsto> Str v))"
  proof (cases "etype e = T_ZSET")
    case True
    then have "val_of (g\<lparr>en_h := ?eh\<rparr>) T y = val_of g T y" for y
      using x(2) by (cases "y = x") (simp_all add: val_of_def split: option.split)
    with True kv show ?thesis by (simp add: kv_of_def keys)
  next
    case False
    have "val_of (g\<lparr>en_h := ?eh\<rparr>) T y = (if y = x then Str v else val_of g T y)" for y
      using x(2) False by (cases "y = x") (simp_all add: val_of_def split: option.split)
    moreover have "ekey e \<in> key_of (en_h g) ` E" using x by (metis imageI key_of_Some)
    ultimately show ?thesis using False kv x inj unfolding kv_of_def by (auto simp: keys)
  qed
  ultimately show ?thesis by (rule db_repI)
qed

lemma do_set_repr:
  assumes "db_rep g kv" "roomy kv" "cmd = [c0, k, v]"
  shows "\<exists>g'. do_set g cmd out = Some (g', emit out R_nil) \<and> db_rep g' (spec_set kv k v)"
proof -
  from assms(1) obtain E T where r: "db_repr g E T" "kv_of g E T kv" by (auto simp: db_rep_def)
  from db_lookup_repr [OF r(1)] obtain g' p where l: "db_lookup g k = Some (g', p)" "db_repr g' E T"
    "node_for (key_of (en_h g)) E k p" "en_h g' = en_h g" "\<forall>kv. kv_of g' E T kv = kv_of g E T kv" by blast
  have kv': "kv_of g' E T kv" using l(5) r(2) by blast
  have n': "node_for (key_of (en_h g')) E k p" using l(3,4) by simp
  note look = kv_lookup [OF kv' n']
  show ?thesis
  proof (cases "p = NULL")
    case True
    let ?e = "\<lparr>ekey = k, evalue = v, etype = T_STR, ezset = NULL\<rparr>"
    have "ekey ?e \<notin> key_of (en_h g') ` E" using kv_of_new [OF kv'] look True by simp
    moreover have "card E + 1 < hm_capacity" using kv_card [OF l(2) kv'] assms(2) by (simp add: roomy_def)
    ultimately obtain g1 g2 where a: "entry_new g' ?e (str_hash k) = (g1, brk (mem g'))" "db_insert g1 (brk (mem g')) = Some g2"
      "db_repr g2 (insert (brk (mem g')) E) (T(brk (mem g') := Leaf))"
      "kv_of g2 (insert (brk (mem g')) E) (T(brk (mem g') := Leaf)) (kv(k \<mapsto> Str v))"
      using db_add_entry [OF l(2), of ?e] kv' by (auto simp: entry_ok_def)
    then have "do_set g cmd out = Some (g2, emit out R_nil)"
      using l(1) True assms(3) by (simp add: do_set_def move_string_def)
    moreover have "db_rep g2 (spec_set kv k v)" using db_repI [OF a(3,4)] look True by (simp add: spec_set_def)
    ultimately show ?thesis by blast
  next
    case False
    from kv_node [OF l(2) n' False] obtain e where p: "p \<in> E" and e: "en_h g' p = Some e" "entry_ok (mem g') (T p) e" "ekey e = k"
      by blast
    let ?g = "g'\<lparr>en_h := (en_h g')(p \<mapsto> e\<lparr>evalue := []\<rparr>)\<rparr>"
    have "do_set g cmd out = Some (?g, emit out R_nil)"
      using l(1) False assms(3) e(1) by (simp add: do_set_def move_string_def)
    moreover have "db_rep ?g (spec_set kv k v)"
      using db_update_value [OF l(2) p e(1) kv', of "[]"] look False e(3)
      by (cases rule: val_of_cases [of g' p e T, OF e(1,2)]) (simp_all add: spec_set_def)
    ultimately show ?thesis by blast
  qed
qed


lemma store_ok_hn:
  assumes "store_ok s" "same_outside E (hn_h s) h" "\<And>x. x \<in> E \<Longrightarrow> x < brk s"
  shows "store_ok (s\<lparr>hn_h := h\<rparr>)"
  using store_ok_frame [OF assms(1), of "s\<lparr>hn_h := h\<rparr>" E "{}"] assms(2,3) by simp

lemma do_del_repr:
  assumes "db_rep g kv" "cmd = [c0, k]"
  shows "\<exists>g'. do_del g cmd out = Some (g', emit out (snd (spec_del kv k))) \<and> db_rep g' (fst (spec_del kv k))"
proof -
  from assms(1) obtain E T where r: "db_repr g E T" "kv_of g E T kv" by (auto simp: db_rep_def)
  note d = db_reprD [OF r(1)]
  have eq: "entry_eq (en_h g) k x = Some (key_of (en_h g) x = k)" if "x \<in> E" for x
    using entry_eq_total [OF d(4) _ that] db_repr_below(1) [OF r(1)] by blast
  from hm.take_key [OF d(2,3) eq] obtain h m p where
    f: "hm_pop (hn_h (mem g)) (db g) (str_hash k) (entry_eq (en_h g) k) = Some (h, m, p)"
      "hm_repr h m (E - {p})" "keyed str_hash (key_of (en_h g)) h (E - {p})" "same_outside E (hn_h (mem g)) h"
      "node_for (key_of (en_h g)) E k p" by blast
  note look = kv_lookup [OF r(2) f(5)]
  define h' where "h' = (if p = NULL then h else h(p := None))"
  define eh where "eh = (if p = NULL then en_h g else (en_h g)(p := None))"
  define g' where "g' = g\<lparr>mem := (mem g)\<lparr>hn_h := h'\<rparr>, db := m, en_h := eh\<rparr>"
  have e: "do_del g cmd out = Some (g', emit out (snd (spec_del kv k)))"
  proof (cases "p = NULL")
    case True
    with f(1) look assms(2) show ?thesis
      by (simp add: do_del_def db_pop_def spec_del_def g'_def h'_def eh_def)
  next
    case False
    from kv_node [OF r(1) f(5) False] obtain en where "en_h g p = Some en" by blast
    with False f(1) look assms(2) show ?thesis
      by (simp add: do_del_def db_pop_def spec_del_def g'_def h'_def eh_def entry_free_def)
  qed
  have same: "same_outside E (hn_h (mem g)) h'"
    using f(4,5) by (auto simp: h'_def same_outside_def node_for_def)
  have eh: "eh y = en_h g y" if "y \<in> E - {p}" for y using that by (simp add: eh_def)
  have keyE: "key_of eh y = key_of (en_h g) y" if "y \<in> E - {p}" for y using eh [OF that] by (simp add: key_of_def)
  have ok': "entry_ok (mem g') (T y) ey \<and> members (mem g') (T y) = members (mem g) (T y)"
    if y: "y \<in> E" and ey: "entry_ok (mem g) (T y) ey" for y ey
  proof -
    have "set_tree (T y) \<inter> E = {}" using d(5) y by (simp add: separate_def)
    then have "h' z = hn_h (mem g) z" if "z \<in> set_tree (T y)" for z
      using same that unfolding same_outside_def by blast
    then show ?thesis using entry_ok_cong [OF ey, of "mem g'"] by (simp add: g'_def)
  qed
  have "entries_ok (mem g') eh (E - {p}) T"
    unfolding entries_ok_def
  proof
    fix y assume y: "y \<in> E - {p}"
    then have "y \<in> E" by blast
    from entries_okD [OF d(4) this] ok' [OF this] eh [OF y]
    show "\<exists>e. eh y = Some e \<and> entry_ok (mem g') (T y) e" by auto
  qed
  moreover have "separate eh (E - {p}) T"
  proof -
    have "zset_entry eh y = zset_entry (en_h g) y" if "y \<in> E - {p}" for y
      using eh [OF that] by (simp add: zset_entry_def)
    with d(5) show ?thesis unfolding separate_def by auto
  qed
  moreover have "hm_repr h' m (E - {p})"
    using hm_repr_cong [OF f(2), of h'] by (simp add: h'_def)
  moreover have "keyed str_hash (key_of eh) h' (E - {p})"
  proof -
    have "keyed str_hash (key_of (en_h g)) h' (E - {p})"
      using f(3) keyed_heap_cong [of "E - {p}" h' h str_hash "key_of (en_h g)"] by (simp add: h'_def)
    then show ?thesis using keyed_cong [of "E - {p}" "key_of eh" "key_of (en_h g)" str_hash h'] keyE by simp
  qed
  moreover have "store_ok (mem g')"
    using store_ok_hn [OF d(1) same] db_repr_below(2) [OF r(1)] by (simp add: g'_def)
  moreover have "\<forall>q \<ge> brk (mem g'). en_h g' q = None" using d(6) by (simp add: g'_def eh_def)
  ultimately have "db_repr g' (E - {p}) T" by (simp add: db_repr_def g'_def)
  moreover have "kv_of g' (E - {p}) T (fst (spec_del kv k))"
  proof -
    have inj: "inj_on (key_of (en_h g)) E" using d(3) by (simp add: keyed_def)
    have "key_of eh ` (E - {p}) = key_of (en_h g) ` (E - {p})" by (rule image_cong) (simp_all add: keyE)
    also have "\<dots> = key_of (en_h g) ` E - {k}"
      by (rule hm.node_for_after_take [OF f(5) inj]) (rule db_repr_below(1) [OF r(1)])
    finally have img: "key_of eh ` (E - {p}) = key_of (en_h g) ` E - {k}" .
    have "val_of g' T y = val_of g T y" if y: "y \<in> E - {p}" for y
    proof -
      have "y \<in> E" using y by blast
      from entries_okD [OF d(4) this] ok' [OF this] eh [OF y] show ?thesis by (auto simp: val_of_def g'_def)
    qed
    moreover have "key_of eh y \<noteq> k" if "y \<in> E - {p}" for y using img that by (metis Diff_iff imageI singletonI)
    ultimately show ?thesis using r(2) img keyE unfolding kv_of_def spec_del_def by (auto simp: g'_def)
  qed
  ultimately have "db_rep g' (fst (spec_del kv k))" by (rule db_repI)
  with e show ?thesis by blast
qed


section \<open>Sorted set commands\<close>

definition err_reply :: "u32 \<Rightarrow> string \<Rightarrow> reply" where
  "err_reply code m = R_err code (ascii m)"

definition spec_zadd :: "keyspace \<Rightarrow> byte list \<Rightarrow> byte list \<Rightarrow> u64 \<Rightarrow> keyspace \<times> reply" where
  "spec_zadd kv k name score = (case kv k of
     Some (Str v) \<Rightarrow> (kv, err_reply ERR_TYPE ''expect zset'')
   | Some (Zset ms) \<Rightarrow> (kv(k \<mapsto> Zset (spec_add name score ms)), R_int (if map_of ms name = None then 1 else 0))
   | None \<Rightarrow> (kv(k \<mapsto> Zset (spec_add name score [])), R_int 1))"

definition spec_zrem :: "keyspace \<Rightarrow> byte list \<Rightarrow> byte list \<Rightarrow> keyspace \<times> reply" where
  "spec_zrem kv k name = (case kv k of
     Some (Str v) \<Rightarrow> (kv, err_reply ERR_TYPE ''expect zset'')
   | Some (Zset ms) \<Rightarrow> (kv(k \<mapsto> Zset (spec_remove name ms)), R_int (if map_of ms name = None then 0 else 1))
   | None \<Rightarrow> (kv, R_nil))"

definition spec_zscore :: "keyspace \<Rightarrow> byte list \<Rightarrow> byte list \<Rightarrow> reply" where
  "spec_zscore kv k name = (case kv k of
     Some (Str v) \<Rightarrow> err_reply ERR_TYPE ''expect zset''
   | Some (Zset ms) \<Rightarrow> (case map_of ms name of None \<Rightarrow> R_nil | Some sc \<Rightarrow> R_dbl sc)
   | None \<Rightarrow> R_nil)"

lemma zset_add_entry:
  assumes r: "db_repr g E T" "kv_of g E T kv" and x: "x \<in> E" "en_h g x = Some e" "etype e = T_ZSET"
    and name: "length name < 2 ^ 32" "\<not> dbl_is_nan score" and cap: "size (T x) + 1 < 2 ^ 31"
  shows "\<exists>s' b. zset_add (mem g) (ezset e) name (len_of name) score = Some (s', b) \<and>
    db_rep (g\<lparr>mem := s'\<rparr>) (kv(ekey e \<mapsto> Zset (spec_add name score (members (mem g) (T x))))) \<and>
    (b \<longleftrightarrow> map_of (members (mem g) (T x)) name = None)"
proof -
  note d = db_reprD [OF r(1)]
  from entries_okD [OF d(4) x(1)] x(2,3) have z: "zset_repr (mem g) (ezset e) (T x)" "evalue e = []"
    by (auto simp: entry_ok_def)
  from zset_add_repr [OF d(1) z(1) name cap] obtain s' t' b where
    a: "zset_add (mem g) (ezset e) name (len_of name) score = Some (s', b)" "zset_repr s' (ezset e) t'"
      "members s' t' = spec_add name score (members (mem g) (T x))"
      "b \<longleftrightarrow> map_of (members (mem g) (T x)) name = None" "store_ok s'"
      "frame_ok (mem g) s' (set_tree (T x)) {ezset e}"
      "set_tree t' \<subseteq> set_tree (T x) \<union> {y. brk (mem g) \<le> y \<and> y < brk s'}" by blast
  from db_update_zset [OF r(1) x a(2,5,6,7) z(2)] r(2) a(3)
  have "db_repr (g\<lparr>mem := s'\<rparr>) E (T(x := t'))"
    "kv_of (g\<lparr>mem := s'\<rparr>) E (T(x := t')) (kv(ekey e \<mapsto> Zset (spec_add name score (members (mem g) (T x)))))"
    by simp_all
  then show ?thesis using a(1,4) db_repI by blast
qed

text \<open>The state after a lookup, together with what the keyspace says of it.\<close>

lemma db_lookup_kv:
  assumes "db_repr g E T" "kv_of g E T kv"
  obtains (absent) g' where "db_lookup g k = Some (g', NULL)" "db_repr g' E T" "kv_of g' E T kv" "kv k = None"
  | (str) g' p e where "db_lookup g k = Some (g', p)" "p \<noteq> NULL" "db_repr g' E T" "kv_of g' E T kv" "p \<in> E"
      "en_h g' p = Some e" "ekey e = k" "etype e = T_STR" "kv k = Some (Str (evalue e))"
  | (zset) g' p e where "db_lookup g k = Some (g', p)" "p \<noteq> NULL" "db_repr g' E T" "kv_of g' E T kv" "p \<in> E"
      "en_h g' p = Some e" "ekey e = k" "etype e = T_ZSET" "evalue e = []" "zset_repr (mem g') (ezset e) (T p)"
      "kv k = Some (Zset (members (mem g') (T p)))"
proof -
  from db_lookup_repr [OF assms(1)] obtain g' p where l: "db_lookup g k = Some (g', p)" "db_repr g' E T"
    "node_for (key_of (en_h g)) E k p" "en_h g' = en_h g" "\<forall>kv. kv_of g' E T kv = kv_of g E T kv" by blast
  have kv': "kv_of g' E T kv" using l(5) assms(2) by blast
  have n': "node_for (key_of (en_h g')) E k p" using l(3,4) by simp
  note look = kv_lookup [OF kv' n']
  show thesis
  proof (cases "p = NULL")
    case True
    with absent l(1,2) kv' look show thesis by simp
  next
    case False
    from kv_node [OF l(2) n' False] obtain e where p: "p \<in> E" and
      e: "en_h g' p = Some e" "entry_ok (mem g') (T p) e" "ekey e = k" by blast
    show thesis
    proof (cases rule: val_of_cases [of g' p e T, OF e(1,2), case_names s z])
      case s
      with str [OF l(1) False l(2) kv' p e(1,3)] look False show thesis by simp
    next
      case z
      with zset [OF l(1) False l(2) kv' p e(1,3)] look False show thesis by simp
    qed
  qed
qed

lemma length_members [simp]: "length (members s t) = size t"
  by (simp add: members_def)

lemma do_zadd_repr:
  assumes "db_rep g kv" "roomy kv" "cmd = [c0, k, sc, name]" "str2dbl sc = Some score" "length name < 2 ^ 32"
  shows "\<exists>g'. do_zadd g cmd out = Some (g', emit out (snd (spec_zadd kv k name score))) \<and>
    db_rep g' (fst (spec_zadd kv k name score))"
proof -
  from assms(1) obtain E T where r: "db_repr g E T" "kv_of g E T kv" by (auto simp: db_rep_def)
  have nan: "\<not> dbl_is_nan score" by (rule str2dbl_not_nan [OF assms(4)])
  show ?thesis
  proof (cases rule: db_lookup_kv [OF r, where k = k, case_names absent str zset])
    case (absent g')
    define g1 where "g1 = g'\<lparr>mem := fst (zset_new (mem g'))\<rparr>"
    define z where "z = brk (mem g')"
    note d = db_reprD [OF absent(2)]
    note zn = zset_new_repr [OF d(1)]
    have zset_new: "zset_new (mem g') = (mem g1, z)" by (simp add: g1_def z_def zset_new_def)
    have g1: "g'\<lparr>mem := mem g1\<rparr> = g1" by (simp add: g1_def)
    have fields: "en_h g1 = en_h g'" "db g1 = db g'" "hn_h (mem g1) = hn_h (mem g')"
      "zn_h (mem g1) = zn_h (mem g')" "avl_h (mem g1) = avl_h (mem g')"
      "zs_h (mem g1) y = (if y = z then Some ZSet0 else zs_h (mem g') y)" for y
      by (simp_all add: g1_def zset_new_def z_def)
    have ezset: "ezset e < z" if "etype e = T_ZSET" "entry_ok (mem g') t e" for e t
      using that zset_below(1) [OF d(1)] by (auto simp: entry_ok_def z_def)
    have ok: "entry_ok (mem g1) t e \<and> members (mem g1) t = members (mem g') t" if "entry_ok (mem g') t e" for t e
    proof -
      have "zs_h (mem g1) (ezset e) = zs_h (mem g') (ezset e)" if "etype e = T_ZSET"
        using ezset [OF that \<open>entry_ok (mem g') t e\<close>] fields(6) by simp
      then show ?thesis using entry_ok_cong [OF that, of "mem g1"] fields by simp
    qed
    have "entries_ok (mem g1) (en_h g1) E T"
      using d(4) ok fields(1) unfolding entries_ok_def by metis
    then have r1: "db_repr g1 E T"
      using d zn(2,4) fields(1-3) by (auto simp: db_repr_def g1_def)
    have kv1: "kv_of g1 E T kv"
    proof -
      have "val_of g1 T y = val_of g' T y" for y
        using fields(1,4) by (simp add: val_of_def members_def split: option.split)
      then show ?thesis using absent(3) fields(1) by (simp add: kv_of_def)
    qed
    let ?e = "\<lparr>ekey = k, evalue = [], etype = T_ZSET, ezset = z\<rparr>"
    have "ekey ?e \<notin> key_of (en_h g1) ` E" using kv_of_new [OF kv1 absent(4)] by simp
    moreover have "card E + 1 < hm_capacity" using kv_card [OF r1 kv1] assms(2) by (simp add: roomy_def)
    moreover have "entry_ok (mem g1) Leaf ?e"
      using zn(1) by (simp add: entry_ok_def g1_def z_def)
    moreover have "\<forall>x \<in> E. zset_entry (en_h g1) x \<noteq> Some (ezset ?e)"
    proof
      fix x assume "x \<in> E"
      from entries_okD [OF d(4) this] obtain ex where "en_h g' x = Some ex" "entry_ok (mem g') (T x) ex" by blast
      with ezset [of ex "T x"] fields(1) show "zset_entry (en_h g1) x \<noteq> Some (ezset ?e)"
        by (auto simp: zset_entry_def)
    qed
    ultimately obtain g2 g3 where a: "entry_new g1 ?e (str_hash k) = (g2, brk (mem g1))"
      "db_insert g2 (brk (mem g1)) = Some g3"
      "db_repr g3 (insert (brk (mem g1)) E) (T(brk (mem g1) := Leaf))"
      "en_h g3 = (en_h g1)(brk (mem g1) \<mapsto> ?e)"
      "kv_of g3 (insert (brk (mem g1)) E) (T(brk (mem g1) := Leaf)) (kv(k \<mapsto> Zset []))"
      using db_add_entry [OF r1, of ?e] kv1 by auto
    from zset_add_entry [OF a(3,5), of "brk (mem g1)" ?e name score] a(4) assms(5) nan
    obtain s' b where b: "zset_add (mem g3) z name (len_of name) score = Some (s', b)"
      "db_rep (g3\<lparr>mem := s'\<rparr>) (kv(k \<mapsto> Zset (spec_add name score [])))" "b"
      by (auto simp: members_def)
    have "brk (mem g1) \<noteq> NULL" using db_reprD(1) [OF r1] by (simp add: store_ok_def)
    then have "do_zadd g cmd out = Some (g3\<lparr>mem := s'\<rparr>, emit out (R_int 1))"
      using assms(3,4) absent(1) zset_new g1 a(1,2,4) b(1,3) by (simp add: do_zadd_def)
    then show ?thesis using b(2) absent(4) by (simp add: spec_zadd_def)
  next
    case (str g' p e)
    then have "do_zadd g cmd out = Some (g', emit out (err_reply ERR_TYPE ''expect zset''))"
      using assms(3,4) by (simp add: do_zadd_def err_reply_def)
    then show ?thesis using str(9) db_repI [OF str(3,4)] by (simp add: spec_zadd_def)
  next
    case (zset g' p e)
    have "length (members (mem g') (T p)) + 1 < 2 ^ 31" using assms(2) zset(11) unfolding roomy_def by blast
    then have "size (T p) + 1 < 2 ^ 31" by (simp only: length_members)
    from zset_add_entry [OF zset(3,4,5,6,8) assms(5) nan this] obtain s' b where
      b: "zset_add (mem g') (ezset e) name (len_of name) score = Some (s', b)"
        "db_rep (g'\<lparr>mem := s'\<rparr>) (kv(k \<mapsto> Zset (spec_add name score (members (mem g') (T p)))))"
        "b \<longleftrightarrow> map_of (members (mem g') (T p)) name = None"
      using zset(7) by auto
    then have "do_zadd g cmd out = Some (g'\<lparr>mem := s'\<rparr>, emit out (R_int (if b then 1 else 0)))"
      using assms(3,4) zset(1,2,6,8) by (simp add: do_zadd_def)
    then show ?thesis using b(2,3) zset(11) by (simp add: spec_zadd_def)
  qed
qed


lemma znode_del_popped:
  assumes "zset_repr s' z t'" "store_ok s'" "frame_ok s s' N Z" "p \<in> N" "p \<notin> set_tree t'" "p \<noteq> NULL" "zn_h s' p \<noteq> None"
  shows "\<exists>s''. znode_del s' p = Some s'' \<and> zset_repr s'' z t' \<and> members s'' t' = members s' t' \<and>
    store_ok s'' \<and> frame_ok s s'' N Z \<and> brk s'' = brk s' \<and> avl_h s'' p = None \<and> hn_h s'' p = None \<and> zn_h s'' p = None"
proof -
  let ?s = "s'\<lparr>avl_h := (avl_h s')(p := None), hn_h := (hn_h s')(p := None), zn_h := (zn_h s')(p := None)\<rparr>"
  have "znode_del s' p = Some ?s" using assms(6,7) by (auto simp: znode_del_def)
  moreover have "avl_h ?s y = avl_h s' y \<and> hn_h ?s y = hn_h s' y \<and> zn_h ?s y = zn_h s' y" if "y \<in> set_tree t'" for y
    using that assms(5) by auto
  moreover have "zs_h ?s z = zs_h s' z" by simp
  moreover have "frame_ok s ?s N Z" using assms(3,4) by (auto simp: frame_ok_def)
  moreover have "store_ok ?s" using assms(2) by (auto simp: store_ok_def)
  ultimately show ?thesis using zset_repr_cong [OF assms(1), of ?s] by simp
qed

text \<open>\<open>expect_zset\<close> in the three cases of a lookup.\<close>

lemma expect_zset_simps:
  "db_lookup g k = Some (g', NULL) \<Longrightarrow> expect_zset g out k = Some (g', out_nil out, None)"
  "db_lookup g k = Some (g', p) \<Longrightarrow> p \<noteq> NULL \<Longrightarrow> en_h g' p = Some e \<Longrightarrow> etype e = T_STR \<Longrightarrow>
    expect_zset g out k = Some (g', emit out (err_reply ERR_TYPE ''expect zset''), None)"
  "db_lookup g k = Some (g', p) \<Longrightarrow> p \<noteq> NULL \<Longrightarrow> en_h g' p = Some e \<Longrightarrow> etype e = T_ZSET \<Longrightarrow>
    expect_zset g out k = Some (g', out, Some e)"
  by (simp_all add: expect_zset_def err_reply_def)

lemma do_zrem_repr:
  assumes "db_rep g kv" "cmd = [c0, k, name]" "length name < 2 ^ 32"
  shows "\<exists>g'. do_zrem g cmd out = Some (g', emit out (snd (spec_zrem kv k name))) \<and>
    db_rep g' (fst (spec_zrem kv k name))"
proof -
  from assms(1) obtain E T where r: "db_repr g E T" "kv_of g E T kv" by (auto simp: db_rep_def)
  show ?thesis
  proof (cases rule: db_lookup_kv [OF r, where k = k, case_names absent str zset])
    case (absent g')
    then have "do_zrem g cmd out = Some (g', emit out R_nil)"
      using assms(2) by (simp add: do_zrem_def expect_zset_simps)
    then show ?thesis using absent(4) db_repI [OF absent(2,3)] by (simp add: spec_zrem_def)
  next
    case (str g' p e)
    then have "do_zrem g cmd out = Some (g', emit out (err_reply ERR_TYPE ''expect zset''))"
      using assms(2) by (simp add: do_zrem_def expect_zset_simps)
    then show ?thesis using str(9) db_repI [OF str(3,4)] by (simp add: spec_zrem_def)
  next
    case (zset g' p e)
    note d = db_reprD [OF zset(3)]
    from zset_pop_repr [OF d(1) zset(10) assms(3)] obtain s' t' q where
      a: "zset_pop (mem g') (ezset e) name (len_of name) = Some (s', q)" "zset_repr s' (ezset e) t'"
        "members s' t' = spec_remove name (members (mem g') (T p))" "zn_h s' = zn_h (mem g')"
        "node_for (name_of (zn_h (mem g'))) (set_tree (T p)) name q" "set_tree t' = set_tree (T p) - {q}"
        "store_ok s'" "frame_ok (mem g') s' (set_tree (T p)) {ezset e}" "brk s' = brk (mem g')" by blast
    have found: "map_of (members (mem g') (T p)) name = None \<longleftrightarrow> q = NULL"
      using members_map_of [OF zset(10) a(5)] by simp
    have "\<exists>s''. (if q \<noteq> NULL then znode_del s' q else Some s') = Some s'' \<and> zset_repr s'' (ezset e) t' \<and>
        members s'' t' = members s' t' \<and> store_ok s'' \<and> frame_ok (mem g') s'' (set_tree (T p)) {ezset e} \<and>
        brk s'' = brk s'"
    proof (cases "q = NULL")
      case True
      with a(2,7,8) show ?thesis by simp
    next
      case False
      with a(5) have q: "q \<in> set_tree (T p)" by (simp add: node_for_def)
      have "zn_h s' q \<noteq> None"
        using node_for_score [OF zset(10) a(5) False] a(4) by auto
      from znode_del_popped [OF a(2,7,8) q _ False this] a(6) False show ?thesis by auto
    qed
    then obtain s'' where b: "(if q \<noteq> NULL then znode_del s' q else Some s') = Some s''"
      "zset_repr s'' (ezset e) t'" "members s'' t' = members s' t'" "store_ok s''"
      "frame_ok (mem g') s'' (set_tree (T p)) {ezset e}" "brk s'' = brk s'" by blast
    have "set_tree t' \<subseteq> set_tree (T p) \<union> {y. brk (mem g') \<le> y \<and> y < brk s''}" using a(6) by blast
    from db_update_zset [OF zset(3,5,6,8) b(2,4,5) this zset(9)] zset(4,7) a(3) b(3)
    have "db_rep (g'\<lparr>mem := s''\<rparr>) (kv(k \<mapsto> Zset (spec_remove name (members (mem g') (T p)))))"
      by (metis db_repI)
    moreover have "do_zrem g cmd out = Some (g'\<lparr>mem := s''\<rparr>, emit out (R_int (if q = NULL then 0 else 1)))"
      using zset(1,2,6,8) assms(2) a(1) b(1) by (cases "q = NULL") (simp_all add: do_zrem_def expect_zset_simps)
    ultimately show ?thesis using zset(11) found by (simp add: spec_zrem_def)
  qed
qed

lemma do_zscore_repr:
  assumes "db_rep g kv" "cmd = [c0, k, name]" "length name < 2 ^ 32"
  shows "\<exists>g'. do_zscore g cmd out = Some (g', emit out (spec_zscore kv k name)) \<and> db_rep g' kv"
proof -
  from assms(1) obtain E T where r: "db_repr g E T" "kv_of g E T kv" by (auto simp: db_rep_def)
  show ?thesis
  proof (cases rule: db_lookup_kv [OF r, where k = k, case_names absent str zset])
    case (absent g')
    then have "do_zscore g cmd out = Some (g', emit out R_nil)"
      using assms(2) by (simp add: do_zscore_def expect_zset_simps)
    then show ?thesis using absent(4) db_repI [OF absent(2,3)] by (simp add: spec_zscore_def)
  next
    case (str g' p e)
    then have "do_zscore g cmd out = Some (g', emit out (err_reply ERR_TYPE ''expect zset''))"
      using assms(2) by (simp add: do_zscore_def expect_zset_simps)
    then show ?thesis using str(9) db_repI [OF str(3,4)] by (simp add: spec_zscore_def)
  next
    case (zset g' p e)
    note d = db_reprD [OF zset(3)]
    from zset_lookup_repr [OF d(1) zset(10) assms(3)] obtain s' q where
      a: "zset_lookup (mem g') (ezset e) name (len_of name) = Some (s', q)" "zset_repr s' (ezset e) (T p)"
        "members s' (T p) = members (mem g') (T p)" "store_ok s'"
        "frame_ok (mem g') s' (set_tree (T p)) {ezset e}"
        "node_for (name_of (zn_h (mem g'))) (set_tree (T p)) name q" "zn_h s' = zn_h (mem g')"
        "brk s' = brk (mem g')" by blast
    have "set_tree (T p) \<subseteq> set_tree (T p) \<union> {y. brk (mem g') \<le> y \<and> y < brk s'}" by blast
    from db_update_zset [OF zset(3,5,6,8) a(2,4,5) this zset(9)] zset(4,7,11) a(3)
    have "db_rep (g'\<lparr>mem := s'\<rparr>) (kv(k \<mapsto> Zset (members (mem g') (T p))))" by (metis db_repI)
    then have rep: "db_rep (g'\<lparr>mem := s'\<rparr>) kv" using zset(11) by (simp add: fun_upd_idem)
    have "do_zscore g cmd out = Some (g'\<lparr>mem := s'\<rparr>, emit out (spec_zscore kv k name))"
    proof (cases "q = NULL")
      case True
      then show ?thesis
        using zset(1,2,6,8,11) assms(2) a(1) members_map_of [OF zset(10) a(6)]
        by (simp add: do_zscore_def expect_zset_simps spec_zscore_def)
    next
      case False
      from node_for_score [OF zset(10) a(6) False] False
      show ?thesis using zset(1,2,6,8,11) assms(2) a(1,7)
        by (auto simp: do_zscore_def expect_zset_simps spec_zscore_def)
    qed
    with rep show ?thesis by blast
  qed
qed


section \<open>Scanning the keys\<close>

definition appends :: "(ptr \<Rightarrow> byte list \<Rightarrow> byte list option) \<Rightarrow> (ptr \<Rightarrow> byte list) \<Rightarrow> ptr set \<Rightarrow> bool" where
  "appends f b N \<longleftrightarrow> (\<forall>x \<in> N. \<forall>out. f x out = Some (out @ b x))"

lemma h_scan_chain_repr:
  assumes "seg h p xs NULL" "appends f b (set xs)"
  shows "h_scan_chain h f p out = Some (out @ concat (map b xs))"
  using assms
proof (induction xs arbitrary: p out)
  case Nil
  then show ?case by (subst h_scan_chain.simps) simp
next
  case (Cons x xs)
  from Cons.prems obtain n where n: "p = x" "x \<noteq> NULL" "h x = Some n" "seg h (hnext n) xs NULL" by auto
  have "appends f b (set xs)" using Cons.prems(2) by (simp add: appends_def)
  from Cons.IH [OF n(4) this, of "out @ b x"] n Cons.prems(2) show ?case
    by (subst h_scan_chain.simps) (simp add: appends_def)
qed

lemma h_scan_buckets_repr:
  assumes "length t = length bs" "i + n = length bs"
    and "\<And>j. j < length bs \<Longrightarrow> seg h (t ! j) (bs ! j) NULL"
    and "appends f b (set (concat bs))"
  shows "h_scan_buckets h f t i n out = Some (out @ concat (map b (concat (drop i bs))))"
  using assms(2)
proof (induction n arbitrary: i out)
  case (Suc n)
  then have i: "i < length bs" by simp
  have "appends f b (set (bs ! i))" using assms(4) in_concat [OF i] unfolding appends_def by blast
  from h_scan_chain_repr [OF assms(3) [OF i] this] have
    "h_scan_chain h f (t ! i) out = Some (out @ concat (map b (bs ! i)))" .
  moreover have "drop i bs = bs ! i # drop (Suc i) bs" using i by (rule Cons_nth_drop_Suc [symmetric])
  ultimately show ?case using Suc i assms(1) by simp
qed simp

lemma h_scan_repr:
  assumes "htab_repr h ht bs" "appends f b (set (concat bs))"
  shows "h_scan h ht f out = Some (out @ concat (map b (concat bs)))"
proof (cases "hsize ht = 0")
  case True
  then have "concat bs = []" using hsize_pos [OF assms(1)] by simp
  then show ?thesis using True by (simp only: h_scan_def) simp
next
  case False
  then obtain t where t: "tab ht = Some t" using assms(1) by (cases "tab ht") (auto simp: htab_repr_def)
  note d = htab_reprD [OF assms(1) t]
  have "unat (1 + mask ht) = Suc (unat (mask ht))"
    using d(2) htab_repr_length [OF assms(1)] by (intro unat_Suc_small) (auto simp: mask_for_def)
  then have "unat (mask ht + 1) = length bs" using d(2) by (simp add: mask_for_def add.commute)
  then show ?thesis
    using False t h_scan_buckets_repr [of t bs 0 "length bs" h f b out, OF d(1) _ d(4) assms(2)]
    by (simp add: h_scan_def)
qed

lemma do_keys_repr:
  assumes "db_rep g kv" "roomy kv" "card (dom kv) < 2 ^ 32"
  shows "\<exists>ks. do_keys g cmd out = Some (g, emit out (R_arr (map R_str ks))) \<and> distinct ks \<and> set ks = dom kv"
proof -
  from assms(1) obtain E T where r: "db_repr g E T" "kv_of g E T kv" by (auto simp: db_rep_def)
  note d = db_reprD [OF r(1)]
  from hm_reprE [OF d(2)] obtain b1 b2 where b: "hm_inv (hn_h (mem g)) (db g) b1 b2" "nodes_in b1 b2 = E"
    "length (concat b1) + length (concat b2) = card E" by metis
  have tabs: "htab_repr (hn_h (mem g)) (ht1 (db g)) b1" "htab_repr (hn_h (mem g)) (ht2 (db g)) b2"
    "set (concat b1) \<inter> set (concat b2) = {}"
    using b(1) unfolding hm_inv_def by blast+
  let ?xs = "concat b1 @ concat b2"
  let ?key = "key_of (en_h g)"
  have setE: "set ?xs = E" using b(2) by (simp only: nodes_in_def set_append)
  have "distinct (concat b1)" "distinct (concat b2)" using tabs by (simp_all add: htab_repr_def)
  then have dist: "distinct ?xs" using tabs(3) by (simp only: distinct_append simp_thms)
  let ?b = "\<lambda>x. reply_bytes (R_str (?key x))"
  have "appends (cb_scan (en_h g)) ?b E"
    using entries_okD [OF d(4)] db_repr_below(1) [OF r(1)]
    by (fastforce simp: appends_def cb_scan_def out_str_def)
  then have ap: "appends (cb_scan (en_h g)) ?b (set (concat b1))" "appends (cb_scan (en_h g)) ?b (set (concat b2))"
    using setE unfolding appends_def set_append by blast+
  have n: "(ucast (hm_size (db g)) :: u32) = of_nat (length ?xs)"
  proof -
    have "unat (hm_size (db g)) = length ?xs"
      using hm_size_repr [OF d(2)] b(3) by (simp only: length_append)
    then show ?thesis by (metis of_nat_unat)
  qed
  have "do_keys g cmd out = Some (g, emit out (R_arr (map R_str (map ?key ?xs))))"
    unfolding do_keys_def Let_def n h_scan_repr [OF tabs(1) ap(1)] h_scan_repr [OF tabs(2) ap(2)]
    by (simp add: emit_bytes h_scan_repr [OF tabs(1) ap(1)] h_scan_repr [OF tabs(2) ap(2)] out_arr_def comp_def
        del: length_concat)
  moreover have "inj_on ?key (set ?xs)" using d(3) unfolding setE by (simp add: keyed_def)
  then have "distinct (map ?key ?xs)" using dist by (simp only: distinct_map simp_thms)
  moreover have "set (map ?key ?xs) = dom kv" using r(2) setE by (simp only: kv_of_def set_map)
  ultimately show ?thesis by blast
qed


section \<open>Range queries up to the walk\<close>

text \<open>What \<open>zquery\<close> answers before it walks the tree; \<open>None\<close> when it has to walk.\<close>

definition spec_zquery :: "keyspace \<Rightarrow> byte list list \<Rightarrow> reply option" where
  "spec_zquery kv cmd =
     (if str2dbl (cmd ! 2) = None then Some (err_reply ERR_ARG ''expect fp number'')
      else if str2int (cmd ! 4) = None \<or> str2int (cmd ! 5) = None then Some (err_reply ERR_ARG ''expect int'')
      else case kv (cmd ! 1) of
        None \<Rightarrow> Some (R_arr [])
      | Some (Str v) \<Rightarrow> Some (err_reply ERR_TYPE ''expect zset'')
      | Some (Zset ms) \<Rightarrow> if the (str2int (cmd ! 5)) \<le> 0 then Some (R_arr []) else None)"

lemma do_zquery_repr:
  assumes "db_rep g kv" "length cmd = 6" "spec_zquery kv cmd = Some r"
  shows "\<exists>g'. do_zquery g cmd [] = Some (g', emit [] r) \<and> db_rep g' kv"
proof (cases "str2dbl (cmd ! 2) = None \<or> str2int (cmd ! 4) = None \<or> str2int (cmd ! 5) = None")
  case True
  then have "do_zquery g cmd [] = Some (g, emit [] r)"
    using assms(2,3)
    by (auto simp: do_zquery_def spec_zquery_def err_reply_def split: if_splits option.splits)
  then show ?thesis using assms(1) by blast
next
  case False
  then obtain score offset limit where p: "str2dbl (cmd ! 2) = Some score" "str2int (cmd ! 4) = Some offset"
    "str2int (cmd ! 5) = Some limit" by auto
  from assms(1) obtain E T where rep: "db_repr g E T" "kv_of g E T kv" by (auto simp: db_rep_def)
  show ?thesis
  proof (cases rule: db_lookup_kv [OF rep, where k = "cmd ! 1", case_names absent str zset])
    case (absent g')
    then have "do_zquery g cmd [] = Some (g', emit [] (R_arr []))"
      using assms(2) p by (simp add: do_zquery_def expect_zset_simps out_nil_def)
    then show ?thesis using db_repI [OF absent(2,3)] absent(4) assms(3) p by (auto simp: spec_zquery_def)
  next
    case (str g' q e)
    then have "do_zquery g cmd [] = Some (g', emit [] (err_reply ERR_TYPE ''expect zset''))"
      using assms(2) p
      by (simp add: do_zquery_def expect_zset_simps err_reply_def out_err_def SER_ERR_def SER_NIL_def)
    then show ?thesis using db_repI [OF str(3,4)] str(9) assms(3) p by (auto simp: spec_zquery_def)
  next
    case (zset g' q e)
    with assms(3) p have "limit \<le> 0" "r = R_arr []" by (auto simp: spec_zquery_def split: if_splits)
    then have "do_zquery g cmd [] = Some (g', emit [] r)"
      using assms(2) p zset by (simp add: do_zquery_def expect_zset_simps)
    then show ?thesis using db_repI [OF zset(3,4)] by blast
  qed
qed

section \<open>The dispatcher\<close>

text \<open>
  The abstract server: one rule per command, the replies of \<open>keys\<close> in any order.  A range query
  that walks the tree has no rule.
\<close>

definition is_cmd :: "byte list list \<Rightarrow> nat \<Rightarrow> string \<Rightarrow> bool" where
  "is_cmd cmd n w \<longleftrightarrow> length cmd = n \<and> cmd_is (cmd ! 0) (ascii w)"

definition known_cmd :: "byte list list \<Rightarrow> bool" where
  "known_cmd cmd \<longleftrightarrow> is_cmd cmd 1 ''keys'' \<or> is_cmd cmd 2 ''get'' \<or> is_cmd cmd 3 ''set'' \<or> is_cmd cmd 2 ''del'' \<or>
     is_cmd cmd 4 ''zadd'' \<or> is_cmd cmd 3 ''zrem'' \<or> is_cmd cmd 3 ''zscore'' \<or> is_cmd cmd 6 ''zquery''"

inductive spec_step :: "keyspace \<Rightarrow> byte list list \<Rightarrow> keyspace \<Rightarrow> reply \<Rightarrow> bool" where
  keys: "is_cmd cmd 1 ''keys'' \<Longrightarrow> distinct ks \<Longrightarrow> set ks = dom kv \<Longrightarrow> spec_step kv cmd kv (R_arr (map R_str ks))"
| get: "is_cmd cmd 2 ''get'' \<Longrightarrow> spec_step kv cmd kv (spec_get kv (cmd ! 1))"
| set: "is_cmd cmd 3 ''set'' \<Longrightarrow> spec_step kv cmd (spec_set kv (cmd ! 1) (cmd ! 2)) R_nil"
| del: "is_cmd cmd 2 ''del'' \<Longrightarrow> spec_del kv (cmd ! 1) = (kv', r) \<Longrightarrow> spec_step kv cmd kv' r"
| zadd_bad: "is_cmd cmd 4 ''zadd'' \<Longrightarrow> str2dbl (cmd ! 2) = None \<Longrightarrow>
    spec_step kv cmd kv (err_reply ERR_ARG ''expect fp number'')"
| zadd: "is_cmd cmd 4 ''zadd'' \<Longrightarrow> str2dbl (cmd ! 2) = Some score \<Longrightarrow>
    spec_zadd kv (cmd ! 1) (cmd ! 3) score = (kv', r) \<Longrightarrow> spec_step kv cmd kv' r"
| zrem: "is_cmd cmd 3 ''zrem'' \<Longrightarrow> spec_zrem kv (cmd ! 1) (cmd ! 2) = (kv', r) \<Longrightarrow> spec_step kv cmd kv' r"
| zscore: "is_cmd cmd 3 ''zscore'' \<Longrightarrow> spec_step kv cmd kv (spec_zscore kv (cmd ! 1) (cmd ! 2))"
| zquery: "is_cmd cmd 6 ''zquery'' \<Longrightarrow> spec_zquery kv cmd = Some r \<Longrightarrow> spec_step kv cmd kv r"
| unknown: "\<not> known_cmd cmd \<Longrightarrow> spec_step kv cmd kv (err_reply ERR_UNKNOWN ''Unknown cmd'')"

definition walks :: "keyspace \<Rightarrow> byte list list \<Rightarrow> bool" where
  "walks kv cmd \<longleftrightarrow> is_cmd cmd 6 ''zquery'' \<and> spec_zquery kv cmd = None"

lemma cmd_nths:
  "length cmd = 2 \<Longrightarrow> cmd = [cmd ! 0, cmd ! 1]"
  "length cmd = 3 \<Longrightarrow> cmd = [cmd ! 0, cmd ! 1, cmd ! 2]"
  "length cmd = 4 \<Longrightarrow> cmd = [cmd ! 0, cmd ! 1, cmd ! 2, cmd ! 3]"
  by (simp_all add: list_eq_iff_nth_eq numeral_eq_Suc less_Suc_eq All_less_Suc)

lemma do_request_cases:
  "is_cmd cmd 1 ''keys'' \<Longrightarrow> do_request g cmd out = do_keys g cmd out"
  "is_cmd cmd 2 ''get'' \<Longrightarrow> do_request g cmd out = do_get g cmd out"
  "is_cmd cmd 3 ''set'' \<Longrightarrow> do_request g cmd out = do_set g cmd out"
  "is_cmd cmd 2 ''del'' \<Longrightarrow> do_request g cmd out = do_del g cmd out"
  "is_cmd cmd 4 ''zadd'' \<Longrightarrow> do_request g cmd out = do_zadd g cmd out"
  "is_cmd cmd 3 ''zrem'' \<Longrightarrow> do_request g cmd out = do_zrem g cmd out"
  "is_cmd cmd 3 ''zscore'' \<Longrightarrow> do_request g cmd out = do_zscore g cmd out"
  "is_cmd cmd 6 ''zquery'' \<Longrightarrow> do_request g cmd out = do_zquery g cmd out"
  "\<not> known_cmd cmd \<Longrightarrow> do_request g cmd out = Some (g, out_err out ERR_UNKNOWN (ascii ''Unknown cmd''))"
  by (auto simp: do_request_def is_cmd_def known_cmd_def cmd_is_def strcasecmp_eq_0 eq_commute [of 0] ascii_def tolower_def)

lemma do_request_repr:
  assumes rep: "db_rep g kv" and room: "roomy kv" "card (dom kv) < 2 ^ 32"
    and len: "\<forall>s \<in> set cmd. length s < 2 ^ 32" and walk: "\<not> walks kv cmd"
  shows "\<exists>g' kv' r. do_request g cmd [] = Some (g', reply_bytes r) \<and> db_rep g' kv' \<and> spec_step kv cmd kv' r"
proof -
  have e: "emit [] r = reply_bytes r" for r by (simp add: emit_bytes)
  have nth: "length (cmd ! i) < 2 ^ 32" if "i < length cmd" for i using len that by simp
  consider (keys) "is_cmd cmd 1 ''keys''" | (get) "is_cmd cmd 2 ''get''" | (set) "is_cmd cmd 3 ''set''"
    | (del) "is_cmd cmd 2 ''del''" | (zadd) "is_cmd cmd 4 ''zadd''" | (zrem) "is_cmd cmd 3 ''zrem''"
    | (zscore) "is_cmd cmd 3 ''zscore''" | (zquery) "is_cmd cmd 6 ''zquery''" | (unknown) "\<not> known_cmd cmd"
    unfolding known_cmd_def by blast
  then show ?thesis
  proof cases
    case keys
    from do_keys_repr [OF rep room, of cmd "[]"] spec_step.keys [OF keys] do_request_cases(1) [OF keys] rep e
    show ?thesis by metis
  next
    case get
    then have "cmd = [cmd ! 0, cmd ! 1]" by (intro cmd_nths) (simp add: is_cmd_def)
    from do_get_repr [OF rep this, of "[]"] spec_step.get [OF get] do_request_cases(2) [OF get] e
    show ?thesis by metis
  next
    case set
    then have "cmd = [cmd ! 0, cmd ! 1, cmd ! 2]" by (intro cmd_nths) (simp add: is_cmd_def)
    from do_set_repr [OF rep room(1) this, of "[]"] spec_step.set [OF set] do_request_cases(3) [OF set] e
    show ?thesis by metis
  next
    case del
    then have "cmd = [cmd ! 0, cmd ! 1]" by (intro cmd_nths) (simp add: is_cmd_def)
    from do_del_repr [OF rep this, of "[]"] spec_step.del [OF del prod.collapse [symmetric]]
      do_request_cases(4) [OF del] e
    show ?thesis by metis
  next
    case zadd
    then have c: "cmd = [cmd ! 0, cmd ! 1, cmd ! 2, cmd ! 3]" by (intro cmd_nths) (simp add: is_cmd_def)
    have l: "length (cmd ! 3) < 2 ^ 32" using zadd by (intro nth) (simp add: is_cmd_def)
    show ?thesis
    proof (cases "str2dbl (cmd ! 2)")
      case None
      then have "do_zadd g cmd [] = Some (g, reply_bytes (err_reply ERR_ARG ''expect fp number''))"
        using zadd by (simp add: do_zadd_def is_cmd_def err_reply_def out_err_def)
      then show ?thesis using spec_step.zadd_bad [OF zadd None] do_request_cases(5) [OF zadd] rep by metis
    next
      case (Some score)
      from do_zadd_repr [OF rep room(1) c Some l, of "[]"] spec_step.zadd [OF zadd Some prod.collapse [symmetric]]
        do_request_cases(5) [OF zadd] e
      show ?thesis by metis
    qed
  next
    case zrem
    then have c: "cmd = [cmd ! 0, cmd ! 1, cmd ! 2]" by (intro cmd_nths) (simp add: is_cmd_def)
    have l: "length (cmd ! 2) < 2 ^ 32" using zrem by (intro nth) (simp add: is_cmd_def)
    from do_zrem_repr [OF rep c l, of "[]"] spec_step.zrem [OF zrem prod.collapse [symmetric]]
      do_request_cases(6) [OF zrem] e
    show ?thesis by metis
  next
    case zscore
    then have c: "cmd = [cmd ! 0, cmd ! 1, cmd ! 2]" by (intro cmd_nths) (simp add: is_cmd_def)
    have l: "length (cmd ! 2) < 2 ^ 32" using zscore by (intro nth) (simp add: is_cmd_def)
    from do_zscore_repr [OF rep c l, of "[]"] spec_step.zscore [OF zscore] do_request_cases(7) [OF zscore] e
    show ?thesis by metis
  next
    case zquery
    with walk obtain r where r: "spec_zquery kv cmd = Some r" by (auto simp: walks_def)
    from do_zquery_repr [OF rep _ r] spec_step.zquery [OF zquery r] do_request_cases(8) [OF zquery] zquery e
    show ?thesis unfolding is_cmd_def by metis
  next
    case unknown
    from spec_step.unknown [OF unknown] do_request_cases(9) [OF unknown, of g "[]"] rep
    show ?thesis by (metis append_Nil err_reply_def out_err_def reply_bytes.simps(2) append_Cons)
  qed
qed


section \<open>Sequences of requests\<close>

text \<open>\<open>g_data\<close> when the server starts.\<close>

definition gdata0 :: gdata where
  "gdata0 = \<lparr>mem = store0, en_h = Map.empty, db = HMap0\<rparr>"

lemma db_rep_empty: "db_rep gdata0 Map.empty"
proof -
  have "db_repr gdata0 {} (\<lambda>_. Leaf)"
    using hm_repr_empty
    by (simp add: db_repr_def gdata0_def store0_def store_ok_def keyed_def entries_ok_def separate_def)
  moreover have "kv_of gdata0 {} (\<lambda>_. Leaf) Map.empty" by (simp add: kv_of_def)
  ultimately show ?thesis by (rule db_repI)
qed

fun run_requests :: "gdata \<Rightarrow> byte list list list \<Rightarrow> (gdata \<times> byte list list) option" where
  "run_requests g [] = Some (g, [])"
| "run_requests g (cmd # cmds) = do {
     (g, out) \<leftarrow> do_request g cmd [];
     (g, outs) \<leftarrow> run_requests g cmds;
     Some (g, out # outs)
   }"

inductive spec_run :: "keyspace \<Rightarrow> byte list list list \<Rightarrow> keyspace \<Rightarrow> reply list \<Rightarrow> bool" where
  none: "spec_run kv [] kv []"
| more: "spec_step kv cmd kv' r \<Longrightarrow> spec_run kv' cmds kv'' rs \<Longrightarrow> spec_run kv (cmd # cmds) kv'' (r # rs)"

inductive_cases spec_run_NilE: "spec_run kv [] kv' rs"
inductive_cases spec_run_ConsE: "spec_run kv (cmd # cmds) kv' rs"

definition kv_small :: "nat \<Rightarrow> keyspace \<Rightarrow> bool" where
  "kv_small n kv \<longleftrightarrow> finite (dom kv) \<and> card (dom kv) \<le> n \<and> (\<forall>k ms. kv k = Some (Zset ms) \<longrightarrow> length ms \<le> n)"

lemma kv_small_mono: "kv_small n kv \<Longrightarrow> kv_small (Suc n) kv"
  by (auto simp: kv_small_def le_SucI)

lemma kv_small_upd:
  assumes "kv_small n kv" "\<And>ms. v = Zset ms \<Longrightarrow> length ms \<le> Suc n"
  shows "kv_small (Suc n) (kv(k \<mapsto> v))"
proof -
  have "card (insert k (dom kv)) \<le> Suc n"
    using assms(1) card_insert_le_m1 by (simp add: kv_small_def card_insert_if)
  then show ?thesis using assms by (auto simp: kv_small_def le_SucI split: if_splits)
qed

lemma kv_small_zset: "kv_small n kv \<Longrightarrow> kv k = Some (Zset ms) \<Longrightarrow> length ms \<le> n"
  by (simp add: kv_small_def)

text \<open>One command adds at most one key and at most one member to one set.\<close>

lemma spec_step_small:
  assumes "spec_step kv cmd kv' r" "kv_small n kv"
  shows "kv_small (Suc n) kv'"
  using assms
proof (induction rule: spec_step.induct)
  case (set cmd kv)
  then show ?case by (auto simp: spec_set_def kv_small_mono intro: kv_small_upd split: option.split val.split)
next
  case (del cmd kv kv' r)
  then have k: "kv' = kv(cmd ! 1 := None)" by (simp add: spec_del_def)
  then have dom: "dom kv' = dom kv - {cmd ! 1}" by simp
  have "card (dom kv - {cmd ! 1}) \<le> card (dom kv)"
    using del(3) by (intro card_mono) (auto simp: kv_small_def)
  then have "finite (dom kv')" "card (dom kv') \<le> Suc n"
    unfolding dom using del(3) by (auto simp: kv_small_def)
  moreover have "length ms \<le> Suc n" if "kv' j = Some (Zset ms)" for j ms
    using that kv_small_zset [OF del(3), of j] k by (fastforce split: if_splits)
  ultimately show ?case unfolding kv_small_def by blast
next
  case (zadd cmd score kv kv' r)
  have "length (spec_add nm score ms) \<le> Suc n" if "kv (cmd ! 1) = Some (Zset ms)" for nm ms
    using length_spec_add [of nm score ms] kv_small_zset [OF zadd(4) that] by simp
  moreover have "length (spec_add nm score []) \<le> Suc n" for nm
    using length_spec_add [of nm score "[]"] by simp
  ultimately show ?case using zadd(3,4)
    by (auto simp: spec_zadd_def kv_small_mono intro: kv_small_upd split: option.splits val.splits)
next
  case (zrem cmd kv kv' r)
  have "length (spec_remove nm ms) \<le> Suc n" if "kv (cmd ! 1) = Some (Zset ms)" for nm ms
    using length_spec_remove [of nm ms] kv_small_zset [OF zrem(3) that] by simp
  then show ?case using zrem(2,3)
    by (auto simp: spec_zrem_def kv_small_mono intro: kv_small_upd split: option.splits val.splits)
qed (simp_all add: kv_small_mono)

lemma kv_small_roomy: "kv_small n kv \<Longrightarrow> Suc n < 2 ^ 31 \<Longrightarrow> roomy kv \<and> card (dom kv) < 2 ^ 32"
  by (fastforce simp: kv_small_def roomy_def hm_capacity_def)

definition no_range_query :: "byte list list \<Rightarrow> bool" where
  "no_range_query cmd \<longleftrightarrow> \<not> is_cmd cmd 6 ''zquery''"

lemma run_requests_repr:
  assumes "db_rep g kv" "kv_small n kv" "n + length cmds < 2 ^ 31 - 1"
    and "\<forall>cmd \<in> set cmds. no_range_query cmd \<and> (\<forall>s \<in> set cmd. length s < 2 ^ 32)"
  shows "\<exists>g' kv' rs. run_requests g cmds = Some (g', map reply_bytes rs) \<and> db_rep g' kv' \<and> spec_run kv cmds kv' rs"
  using assms
proof (induction cmds arbitrary: g kv n)
  case Nil
  then show ?case by (auto intro: spec_run.none)
next
  case (Cons cmd cmds)
  have room: "roomy kv" "card (dom kv) < 2 ^ 32"
    using kv_small_roomy [OF Cons.prems(2)] Cons.prems(3) by auto
  have len: "\<forall>s \<in> set cmd. length s < 2 ^ 32" and walk: "\<not> walks kv cmd"
    using Cons.prems(4) by (auto simp: walks_def no_range_query_def)
  from do_request_repr [OF Cons.prems(1) room len walk] obtain g1 kv1 r where
    f: "do_request g cmd [] = Some (g1, reply_bytes r)" "db_rep g1 kv1" "spec_step kv cmd kv1 r" by blast
  have "Suc n + length cmds < 2 ^ 31 - 1" using Cons.prems(3) by simp
  moreover have "\<forall>cmd \<in> set cmds. no_range_query cmd \<and> (\<forall>s \<in> set cmd. length s < 2 ^ 32)"
    using Cons.prems(4) by simp
  ultimately obtain g' kv' rs where
    i: "run_requests g1 cmds = Some (g', map reply_bytes rs)" "db_rep g' kv'" "spec_run kv1 cmds kv' rs"
    using Cons.IH [OF f(2) spec_step_small [OF f(3) Cons.prems(2)]] by blast
  have "run_requests g (cmd # cmds) = Some (g', map reply_bytes (r # rs))" using f(1) i(1) by simp
  then show ?case using i(2) spec_run.more [OF f(3) i(3)] by blast
qed

section \<open>Properties of the commands\<close>

text \<open>
  The server implements its specification.  From an empty keyspace, any sequence of less than
  \<open>2 ^ 31 - 1\<close> requests without a range query returns, and replies are those of a run of the abstract
  keyspace, whose contents the memory of the server represents at the end.
\<close>

theorem server_refines_spec:
  assumes "length cmds < 2 ^ 31 - 1"
    and "\<forall>cmd \<in> set cmds. no_range_query cmd \<and> (\<forall>s \<in> set cmd. length s < 2 ^ 32)"
  shows "\<exists>g kv rs. run_requests gdata0 cmds = Some (g, map reply_bytes rs) \<and> db_rep g kv \<and>
    spec_run Map.empty cmds kv rs"
  using run_requests_repr [OF db_rep_empty, of 0 cmds] assms by (simp add: kv_small_def)

lemma cmd_is_simps:
  "is_cmd cmd 3 ''set'' \<Longrightarrow> \<not> is_cmd cmd 3 ''zrem''" "is_cmd cmd 3 ''set'' \<Longrightarrow> \<not> is_cmd cmd 3 ''zscore''"
  "is_cmd cmd 2 ''get'' \<Longrightarrow> \<not> is_cmd cmd 2 ''del''"
  by (auto simp: is_cmd_def cmd_is_def strcasecmp_eq_0 eq_commute [of 0] ascii_def tolower_def)

lemma spec_step_set:
  assumes "spec_step kv [ascii ''set'', k, v] kv' r"
  shows "kv' = spec_set kv k v \<and> r = R_nil"
proof -
  have s: "is_cmd [ascii ''set'', k, v] 3 ''set''"
    by (simp add: is_cmd_def cmd_is_def c_str_def ascii_def)
  show ?thesis using assms s cmd_is_simps(1,2) [OF s]
    by (cases rule: spec_step.cases) (auto simp: is_cmd_def known_cmd_def)
qed

lemma spec_step_get:
  assumes "spec_step kv [ascii ''get'', k] kv' r"
  shows "kv' = kv \<and> r = spec_get kv k"
proof -
  have s: "is_cmd [ascii ''get'', k] 2 ''get''"
    by (simp add: is_cmd_def cmd_is_def c_str_def ascii_def)
  show ?thesis using assms s cmd_is_simps(3) [OF s]
    by (cases rule: spec_step.cases) (auto simp: is_cmd_def known_cmd_def)
qed

theorem server_refines_spec_witness:
  "\<exists>g. run_requests gdata0 [[ascii ''set'', [107], [118]], [ascii ''get'', [107]]] =
    Some (g, [[SER_NIL], [SER_STR, 1, 0, 0, 0, 118]])"
proof -
  let ?cmds = "[[ascii ''set'', [107], [118]], [ascii ''get'', [107]]]"
  have b: "bytes32 1 = [1, 0, 0, 0]" by code_simp
  have "no_range_query cmd \<and> (\<forall>s \<in> set cmd. length s < 2 ^ 32)" if "cmd \<in> set ?cmds" for cmd
    using that by (auto simp: no_range_query_def is_cmd_def ascii_def)
  then have "\<forall>cmd \<in> set ?cmds. no_range_query cmd \<and> (\<forall>s \<in> set cmd. length s < 2 ^ 32)" by blast
  from server_refines_spec [OF _ this] obtain g kv rs where
    f: "run_requests gdata0 ?cmds = Some (g, map reply_bytes rs)" "spec_run Map.empty ?cmds kv rs"
    by (auto simp del: run_requests.simps list.set)
  from f(2) have "rs = [R_nil, R_str [118]]"
    by (auto elim!: spec_run_ConsE spec_run_NilE dest!: spec_step_set spec_step_get simp: spec_set_def spec_get_def)
  with f(1) b show ?thesis by auto
qed

text \<open>
  \<open>set\<close> then \<open>get\<close>: after \<open>set\<close> of a key that was not there, \<open>get\<close> replies with the value.
\<close>

theorem set_get_new_key:
  assumes "db_rep g kv" "roomy kv" "kv k = None"
  shows "\<exists>g1 g2. do_set g [c, k, v] [] = Some (g1, [SER_NIL]) \<and>
    do_get g1 [c', k] [] = Some (g2, reply_bytes (R_str v)) \<and> db_rep g2 (kv(k \<mapsto> Str v))"
proof -
  from do_set_repr [OF assms(1,2) refl, of c k v "[]"] obtain g1 where
    g1: "do_set g [c, k, v] [] = Some (g1, [SER_NIL])" "db_rep g1 (kv(k \<mapsto> Str v))"
    using assms(3) by (auto simp: spec_set_def emit_bytes)
  from do_get_repr [OF g1(2) refl, of c' k "[]"] g1(1) show ?thesis
    by (auto simp: spec_get_def emit_bytes)
qed

theorem set_get_new_key_witness:
  "\<exists>g1 g2. do_set gdata0 [[], [107], [118]] [] = Some (g1, [SER_NIL]) \<and>
    do_get g1 [[], [107]] [] = Some (g2, reply_bytes (R_str [118]))"
  using set_get_new_key [OF db_rep_empty, where k = "[107]" and c = "[]" and v = "[118]" and c' = "[]"]
  by (auto simp: roomy_def hm_capacity_def)

text \<open>
  C34. \<open>set\<close> of a key that has a string already loses the new value: the argument was moved away before
  the lookup, and what is stored is the empty string.
\<close>

theorem set_existing_key_stores_empty:
  assumes "db_rep g kv" "roomy kv" "kv k = Some (Str w)"
  shows "\<exists>g1 g2. do_set g [c, k, v] [] = Some (g1, [SER_NIL]) \<and>
    do_get g1 [c', k] [] = Some (g2, reply_bytes (R_str []))"
proof -
  from do_set_repr [OF assms(1,2) refl, of c k v "[]"] obtain g1 where
    g1: "do_set g [c, k, v] [] = Some (g1, [SER_NIL])" "db_rep g1 (kv(k \<mapsto> Str []))"
    using assms(3) by (auto simp: spec_set_def emit_bytes)
  from do_get_repr [OF g1(2) refl, of c' k "[]"] g1(1) show ?thesis
    by (auto simp: spec_get_def emit_bytes)
qed

theorem set_existing_key_stores_empty_witness:
  "\<exists>g kv g1 g2. db_rep g kv \<and> kv [107] = Some (Str [118]) \<and> do_set g [[], [107], [119]] [] = Some (g1, [SER_NIL]) \<and>
    do_get g1 [[], [107]] [] = Some (g2, reply_bytes (R_str []))"
proof -
  from do_set_repr [OF db_rep_empty _ refl, of "[]" "[107]" "[118]" "[]"] obtain g where
    g: "db_rep g [[107] \<mapsto> Str [118]]" by (auto simp: spec_set_def roomy_def hm_capacity_def)
  have "roomy [[107] \<mapsto> Str [118]]" by (simp add: roomy_def hm_capacity_def)
  with set_existing_key_stores_empty [OF g, where k = "[107]" and c = "[]" and v = "[119]" and c' = "[]"]
  obtain g1 g2 where "do_set g [[], [107], [119]] [] = Some (g1, [SER_NIL])"
    "do_get g1 [[], [107]] [] = Some (g2, reply_bytes (R_str []))" by auto
  moreover have "[[107] \<mapsto> Str [118]] [107] = Some (Str [118])" by simp
  ultimately show ?thesis using g by blast
qed

lemma str2dbl_one: "str2dbl [49] = Some 0x3FF0000000000000"
proof -
  have "bit_length (Suc 0) = 1" by (subst bit_length.simps) (simp add: bit_length.simps [of 0])
  moreover have "scaled_div 1 1 (- 53) = (2 ^ 53, 1)" "scaled_div 1 1 (- 52) = (2 ^ 52, 1)"
    by (simp_all add: scaled_div_def)
  moreover have "round_half_even (2 ^ 52) 1 = 2 ^ 52" by (simp add: round_half_even_def)
  ultimately have "round_double 1 1 = 0x3FF0000000000000" unfolding round_double_def by simp
  then have "strtod_dec [49] = Some (0x3FF0000000000000, [])"
    by (simp add: strtod_dec_def take_point_def take_exponent_def isdigit_def rational_def number_def digit_def)
  then have "strtod [49] = (0x3FF0000000000000, [])"
    by (simp add: strtod_def strtod_hex_def take_sign_def isspace_def isdigit_def
        tolower_def has_prefix_def ascii_def signed_double_def take_point_def)
  then show ?thesis by (simp add: str2dbl_def c_str_def dbl_is_nan_def)
qed

lemma map_of_spec_add:
  "map_of (spec_add name score ms) name = Some sc \<longleftrightarrow>
    (if \<exists>old. map_of ms name = Some old \<and> dbl_eq old score then map_of ms name = Some sc else sc = score)"
proof -
  have "map_of (insort_key mkey (name, score) xs) name = Some score" if "name \<notin> fst ` set xs" for xs
    using that by (induction xs) auto
  moreover have "name \<notin> fst ` set (spec_remove name ms)" by (auto simp: spec_remove_def)
  ultimately show ?thesis by (auto simp: spec_add_def)
qed

text \<open>
  \<open>zadd\<close> then \<open>zscore\<close>: a member that was added to a key without a string value is found with the
  score it was added with.
\<close>

theorem zadd_zscore:
  assumes "db_rep g kv" "roomy kv" "kv k = None \<or> kv k = Some (Zset ms) \<and> map_of ms name = None"
    and "str2dbl sc = Some score" "length name < 2 ^ 32"
  shows "\<exists>g1 g2. do_zadd g [c, k, sc, name] [] = Some (g1, reply_bytes (R_int 1)) \<and>
    do_zscore g1 [c', k, name] [] = Some (g2, reply_bytes (R_dbl score))"
proof -
  obtain old where old: "map_of old name = None" "spec_zadd kv k name score = (kv(k \<mapsto> Zset (spec_add name score old)), R_int 1)"
    using assms(3) by (cases "kv k = None") (auto simp: spec_zadd_def intro: that [of "[]"])
  from do_zadd_repr [OF assms(1,2) refl assms(4,5), of c k "[]"] old(2) obtain g1 where
    g1: "do_zadd g [c, k, sc, name] [] = Some (g1, reply_bytes (R_int 1))"
      "db_rep g1 (kv(k \<mapsto> Zset (spec_add name score old)))" by (auto simp: emit_bytes)
  have "map_of (spec_add name score old) name = Some score" using old(1) by (simp add: map_of_spec_add)
  with do_zscore_repr [OF g1(2) refl assms(5), of c' k "[]"] g1(1) show ?thesis
    by (auto simp: spec_zscore_def emit_bytes)
qed

theorem zadd_zscore_witness:
  "\<exists>g1 g2. do_zadd gdata0 [[], [122], [49], [97]] [] = Some (g1, reply_bytes (R_int 1)) \<and>
    do_zscore g1 [[], [122], [97]] [] = Some (g2, reply_bytes (R_dbl 0x3FF0000000000000))"
proof -
  note str2dbl_one
  with zadd_zscore [OF db_rep_empty, where k = "[122]" and c = "[]" and name = "[97]" and sc = "[49]" and c' = "[]"]
  show ?thesis by (simp add: roomy_def hm_capacity_def)
qed

text \<open>
  C35. \<open>del\<close> removes the key, and the set of \<open>zset\<close> objects and of their nodes is the same before and
  after: the \<open>Entry\<close> is deleted without \<open>entry_del\<close>, so the sorted set of the key is leaked.
\<close>

theorem del_leaks_zset:
  assumes "db_rep g kv" "kv k = Some (Zset ms)"
  shows "\<exists>g'. do_del g [c, k] [] = Some (g', reply_bytes (R_int 1)) \<and> db_rep g' (kv(k := None)) \<and>
    zs_h (mem g') = zs_h (mem g) \<and> avl_h (mem g') = avl_h (mem g) \<and> zn_h (mem g') = zn_h (mem g)"
proof -
  from do_del_repr [OF assms(1) refl, of c k "[]"] assms(2) obtain g' where
    g': "do_del g [c, k] [] = Some (g', reply_bytes (R_int 1))" "db_rep g' (kv(k := None))"
    by (auto simp: spec_del_def emit_bytes)
  then have "zs_h (mem g') = zs_h (mem g) \<and> avl_h (mem g') = avl_h (mem g) \<and> zn_h (mem g') = zn_h (mem g)"
    by (auto simp: do_del_def db_pop_def entry_free_def bind_eq_Some_conv split: if_splits)
  with g' show ?thesis by blast
qed

theorem del_leaks_zset_witness:
  "\<exists>g kv ms g'. db_rep g kv \<and> kv [122] = Some (Zset ms) \<and> do_del g [[], [122]] [] = Some (g', reply_bytes (R_int 1)) \<and>
    zs_h (mem g') = zs_h (mem g)"
proof -
  note s = str2dbl_one
  have "roomy Map.empty" by (simp add: roomy_def hm_capacity_def)
  from do_zadd_repr [OF db_rep_empty this refl s, of "[97]" "[]" "[122]" "[]"] obtain g where
    "db_rep g (fst (spec_zadd Map.empty [122] [97] 0x3FF0000000000000))" by auto
  then obtain kv ms where g: "db_rep g kv" "kv [122] = Some (Zset ms)"
    by (auto simp: spec_zadd_def)
  from del_leaks_zset [OF this, of "[]"] g show ?thesis by blast
qed

end
