(* ===== verification/Range_Query.thy ===== *)
theory Range_Query
  imports Commands_Refine "HOL-Library.Code_Target_Numeral"
begin

text \<open>
  A range query evaluated on the model: the keyspace after two \<open>zadd\<close> commands and the answer of
  \<open>zquery\<close>, computed by the simplifier from the definitions of all layers.
\<close>

lemma str_hash_values:
  "str_hash [122] = 2131565869" "str_hash [97] = 1712125394" "str_hash [98] = 1728903013"
  by code_simp+

lemma number_values:
  "str2dbl [49] = Some 0x3FF0000000000000" "str2dbl [50] = Some 0x4000000000000000"
  "str2int [48] = Some 0" "str2int [57] = Some 9"
  by code_simp+

lemma dbl_values:
  "dbl_eq 0x3FF0000000000000 0x4000000000000000 = False" "dbl_eq 0x4000000000000000 0x3FF0000000000000 = False"
  "dbl_lt 0x3FF0000000000000 0x4000000000000000" "\<not> dbl_lt 0x4000000000000000 0x3FF0000000000000"
  "dbl_eq 0x3FF0000000000000 0x3FF0000000000000 = True"
  by code_simp+

lemma uint_minus_1: "uint (- 1 :: u32) = 4294967295"
  by (simp add: unsigned_minus_1_eq_mask mask_eq_exp_minus_1)

lemmas eval_values = str_hash_values number_values dbl_values uint_minus_1

lemmas eval_memory = nth_opt_def put_opt_def deref_def modify_def slice_opt_def memcmp_def Let_def
  gdata0_def store0_def HMap0_def HTab0_def ZSet0_def

lemmas eval_hashtable = hm_lookup_def hm_help_resizing_def hm_help_loop.simps hm_insert_def h_init_def
  h_insert_def h_lookup_def h_lookup_loop.simps k_max_load_factor_def k_resizing_work_def

lemmas eval_avl = avl_init_def avl_fix.simps avl_update_def avl_depth_def avl_cnt_def avl_fix_node_def
  parent_link_def max_u32_def avl_offset_def avl_offset_loop.simps avl_offset_step_def widen_def

lemmas eval_zset = zset_new_def zset_add_def zset_lookup_def znode_new_def tree_add_def tree_search.simps
  hcmp_def zless_def zless_key_def min_u32_def zset_query_def zset_query_loop.simps znode_offset_def

lemmas eval_commands = do_zadd_def do_zquery_def zquery_loop.simps db_lookup_def db_insert_def
  entry_new_def entry_eq_def expect_zset_def T_ZSET_def T_STR_def out_str_n_def out_dbl_def
  begin_arr_def end_arr_def ser_codes

text \<open>
  \<open>zquery\<close> loses members: after \<open>zadd z 1 a\<close> and \<open>zadd z 2 b\<close> on an empty server,
  \<open>zquery z 1 "" 0 9\<close> answers with \<open>a\<close> only, because \<open>avl_offset\<close> does not find \<open>b\<close>, the successor of
  \<open>a\<close>.  The README shows both members for this query.
\<close>

theorem zquery_loses_member:
  "do { (g, _) \<leftarrow> do_zadd gdata0 [[], [122], [49], [97]] [];
        (g, _) \<leftarrow> do_zadd g [[], [122], [50], [98]] [];
        (g, out) \<leftarrow> do_zquery g [[], [122], [49], [], [48], [57]] [];
        Some out } = Some (reply_bytes (R_arr [R_str [97], R_dbl 0x3FF0000000000000]))"
  by (simp add: eval_values eval_memory eval_hashtable eval_avl eval_zset eval_commands cong: bind_cong_weak)

end
