(* ===== verification/Range_Reply.thy ===== *)
theory Range_Reply
  imports Commands_Refine AVL_Offset "HOL-Library.Code_Target_Numeral"
begin

text \<open>
  What a range query answers once it walks the tree.  \<open>avl_offset\<close> may take the walk to a wrong node, or
  never come back, but it never leaves the tree: a reply that is sent is an array of members of the set,
  within the limit, and without an offset it starts with the first member of the range.  Where the range
  is empty, or is the last member alone, \<open>zquery\<close> returns the whole of it.
\<close>

section \<open>\<open>avl_offset\<close> stays in the tree\<close>

lemma avl_offset_step_in:
  assumes "at_node h c l a r" "avl_offset_step h a pos k = Some s"
  shows "case s of Inl p \<Rightarrow> p = NULL \<or> p = a | Inr (b, pos') \<Rightarrow> b \<in> set_tree (plug c (Node l a r))"
proof -
  consider "k = pos" | "pos < k" "k \<le> pos + int (size r)" | "k < pos" "pos - int (size l) \<le> k"
    | "k < pos - int (size l) \<or> k > pos + int (size r)" by linarith
  then show ?thesis
  proof cases
    case 1
    with assms(2) have "s = Inl a" by (simp add: avl_offset_step_def)
    then show ?thesis by simp
  next
    case 2
    then obtain rl b rr where "r = Node rl b rr" by (cases r) auto
    with 2 assms step_right [of h c l a rl b rr pos k] show ?thesis by (auto simp: set_tree_plug)
  next
    case 3
    then obtain ll b lr where "l = Node ll b lr" by (cases l) auto
    with 3 assms step_left [of h c ll b lr a r k pos] show ?thesis by (auto simp: set_tree_plug)
  next
    case 4
    from step_up [OF assms(1) this] assms(2) show ?thesis
      by (cases c) (auto simp: set_tree_plug split: frame.splits)
  qed
qed

lemma avl_tree_at_node:
  assumes "avl_tree h rt t" "a \<in> set_tree t"
  obtains c l r where "t = plug c (Node l a r)" "at_node h c l a r"
  using assms tree_split [OF assms(2)] by (auto simp: avl_tree_def at_node_def)

lemma avl_offset_loop_in:
  assumes "avl_offset_loop h a pos k = Some p" "avl_tree h rt t" "a \<in> set_tree t"
  shows "p = NULL \<or> p \<in> set_tree t"
  using assms(2,3)
proof (induction rule: avl_offset_loop.raw_induct [OF _ assms(1), consumes 0])
  case (1 f h a pos k p)
  from 1(3,4) obtain c l r where t: "t = plug c (Node l a r)" "at_node h c l a r" by (rule avl_tree_at_node)
  from 1(2) obtain s where s: "avl_offset_step h a pos k = Some s" by (auto simp: bind_eq_Some_conv)
  note step = avl_offset_step_in [OF t(2) s]
  show ?case
  proof (cases s)
    case (Inl q)
    with 1(2,4) s step show ?thesis by auto
  next
    case (Inr b)
    obtain b' pos' where "b = (b', pos')" by (cases b)
    with Inr 1(2,3) s step t(1) show ?thesis by (intro 1(1) [of h b' pos' k p]) simp_all
  qed
qed

lemma znode_offset_in:
  assumes "zset_repr s z t" "p = NULL \<or> p \<in> set_tree t" "znode_offset s p k = Some q"
  shows "q = NULL \<or> q \<in> set_tree t"
proof -
  from assms(1) obtain zs :: zset where "avl_tree (avl_h s) (ztree zs) t" by (auto simp: zset_repr_def)
  with assms(2,3) show ?thesis
    using avl_offset_loop_in [of "avl_h s" p 0 k q] by (cases "p = NULL") (simp_all add: znode_offset_def avl_offset_def)
qed

section \<open>The items of the reply\<close>

definition items :: "member list \<Rightarrow> reply list" where
  "items ms = concat (map (\<lambda>(name, score). [R_str name, R_dbl score]) ms)"

lemma items_simps [simp]:
  "items [] = []" "items ((name, score) # ms) = R_str name # R_dbl score # items ms"
  by (simp_all add: items_def)

lemma length_items [simp]: "length (items ms) = 2 * length ms"
  by (induction ms) auto

lemma out_znode:
  assumes "znode_ok n"
  shows "out_str_n out (zname n) (zlen n) = Some (out @ reply_bytes (R_str (zname n)))"
proof -
  have "unat (ucast (zlen n) :: u32) = length (zname n)" "(ucast (zlen n) :: u32) = of_nat (length (zname n))"
    using assms by (simp_all add: znode_ok_def unsigned_of_nat unat_of_nat take_bit_nat_eq_self)
  then show ?thesis by (simp add: out_str_n_def slice_opt_def)
qed

section \<open>The walk\<close>

lemma zquery_loop_sound:
  assumes "zquery_loop s p limit n out = Some r"
    and "zset_repr s z t" "p = NULL \<or> p \<in> set_tree t"
  shows "\<exists>ps. set ps \<subseteq> set_tree t \<and>
    r = (out @ concat (map reply_bytes (items (map (member_of (zn_h s)) ps))), n + of_nat (2 * length ps)) \<and>
    (ps = [] \<longleftrightarrow> p = NULL \<or> limit \<le> int (unat n)) \<and> (ps \<noteq> [] \<longrightarrow> hd ps = p) \<and>
    (limit < 2 ^ 32 - 2 \<longrightarrow> ps \<noteq> [] \<longrightarrow> int (unat n) + 2 * int (length ps) \<le> limit + 1)"
  using assms(2,3)
proof (induction rule: zquery_loop.raw_induct [OF _ assms(1), consumes 0])
  case (1 f s p limit n out r)
  show ?case
  proof (cases "p \<noteq> NULL \<and> int (unat n) < limit")
    case False
    with 1(2) show ?thesis by (intro exI [of _ "[]"]) auto
  next
    case True
    with 1(4) have p: "p \<in> set_tree t" by blast
    from 1(3) have "znodes_ok (zn_h s) (set_tree t)" by (simp add: zset_repr_def)
    from znodes_okD [OF this p] obtain zn where zn: "zn_h s p = Some zn" "znode_ok zn" by blast
    let ?out = "out @ concat (map reply_bytes (items [member_of (zn_h s) p]))"
    have "deref (zn_h s) p = Some zn" using True zn(1) by simp
    then have "Option.bind (znode_offset s p 1) (\<lambda>q. f s q limit (n + 2) ?out) = Some r"
      using 1(2) True [THEN eqTrueI]
      by (simp add: out_znode [OF zn(2)] out_dbl_def zn(1))
    then obtain q where q: "znode_offset s p 1 = Some q" "f s q limit (n + 2) ?out = Some r"
      unfolding bind_eq_Some_conv by blast
    from 1(1) [OF q(2) 1(3) znode_offset_in [OF 1(3,4) q(1)]] obtain ps where
      ps: "set ps \<subseteq> set_tree t"
        "r = (?out @ concat (map reply_bytes (items (map (member_of (zn_h s)) ps))), n + 2 + of_nat (2 * length ps))"
        "ps = [] \<longleftrightarrow> q = NULL \<or> limit \<le> int (unat (n + 2))"
        "limit < 2 ^ 32 - 2 \<longrightarrow> ps \<noteq> [] \<longrightarrow> int (unat (n + 2)) + 2 * int (length ps) \<le> limit + 1"
      by (elim exE conjE) (rule that; assumption)
    have "limit < 2 ^ 32 - 2 \<longrightarrow> int (unat n) + 2 * int (length (p # ps)) \<le> limit + 1"
    proof
      assume lim: "limit < 2 ^ 32 - 2"
      have "int (unat n) + 2 < 2 ^ 32" using True lim by linarith
      then have "int (unat n + 2) < int (2 ^ 32)" by simp
      then have "unat n + 2 < 2 ^ 32" by (simp only: of_nat_less_iff)
      then have "unat (n + 2) = unat n + 2" by (simp add: unat_word_ariths)
      with ps(4) lim True show "int (unat n) + 2 * int (length (p # ps)) \<le> limit + 1" by (cases "ps = []") auto
    qed
    moreover have "r = (out @ concat (map reply_bytes (items (map (member_of (zn_h s)) (p # ps)))), n + of_nat (2 * length (p # ps)))"
      using ps(2) zn by (simp add: algebra_simps)
    moreover have "set (p # ps) \<subseteq> set_tree t" using p ps(1) by simp
    moreover have "\<not> (p = NULL \<or> limit \<le> int (unat n))" using True by simp
    ultimately show ?thesis by (intro exI [of _ "p # ps"]) (simp only: list.simps list.sel simp_thms)
  qed
qed

section \<open>The range of the query\<close>

text \<open>
  What the query asks for: from the first member not below \<open>(score, name)\<close>, \<open>offset\<close> further, one member
  for every two of \<open>limit\<close>.  An offset in front of the first member leaves nothing.
\<close>

definition range_start :: "byte list \<Rightarrow> u64 \<Rightarrow> member list \<Rightarrow> nat" where
  "range_start name score ms = length (takeWhile (\<lambda>m. mkey m < mkey (name, score)) ms)"

definition spec_range :: "byte list \<Rightarrow> u64 \<Rightarrow> int \<Rightarrow> int \<Rightarrow> member list \<Rightarrow> member list" where
  "spec_range name score offset limit ms =
     (let i = range_start name score ms; j = int i + offset
      in if i = length ms \<or> j < 0 then [] else take (nat ((limit + 1) div 2)) (drop (nat j) ms))"

text \<open>The range is past either end, or it is the last member, found without an offset.\<close>

definition range_at_end :: "byte list \<Rightarrow> u64 \<Rightarrow> int \<Rightarrow> member list \<Rightarrow> bool" where
  "range_at_end name score offset ms \<longleftrightarrow>
     (let i = range_start name score ms; j = int i + offset
      in i = length ms \<or> j < 0 \<or> int (length ms) \<le> j \<or> offset = 0 \<and> i + 1 = length ms)"

lemma find_takeWhile:
  "find (\<lambda>x. \<not> P x) xs =
    (if length (takeWhile P xs) = length xs then None else Some (xs ! length (takeWhile P xs)))"
  by (induction xs) auto

lemma find_in: "find P xs = Some x \<Longrightarrow> x \<in> set xs"
  by (induction xs) (auto split: if_splits)

lemma range_start_map:
  "range_start name score (map f xs) = length (takeWhile (\<lambda>x. mkey (f x) < mkey (name, score)) xs)"
  by (simp add: range_start_def takeWhile_map comp_def)

lemma inorder_nth_at:
  assumes "at_node h c l a r" "i < size (plug c (Node l a r))" "inorder (plug c (Node l a r)) ! i = a"
  shows "i = length (before c) + size l"
proof -
  let ?xs = "inorder (plug c (Node l a r))"
  have "?xs ! (length (before c) + size l) = a" by (simp add: inorder_plug nth_append)
  moreover have "distinct ?xs" using assms(1) by (simp add: at_node_def)
  moreover have "length ?xs = size (plug c (Node l a r))" by simp
  moreover have "length (before c) + size l < size (plug c (Node l a r))" by (simp add: size_plug)
  ultimately show ?thesis using assms(2,3) by (metis nth_eq_iff_index_eq)
qed

section \<open>The reply\<close>

text \<open>
  What is true of every reply to a range query that walks; the intended answer is one such reply.
\<close>

definition range_reply :: "byte list \<Rightarrow> u64 \<Rightarrow> int \<Rightarrow> int \<Rightarrow> member list \<Rightarrow> reply \<Rightarrow> bool" where
  "range_reply name score offset limit ms r \<longleftrightarrow> (\<exists>ms'. r = R_arr (items ms') \<and> set ms' \<subseteq> set ms \<and>
     (limit < 2 ^ 32 - 2 \<longrightarrow> 2 * int (length ms') \<le> limit + 1) \<and>
     (offset = 0 \<longrightarrow> map_option hd (if ms' = [] then None else Some ms') = spec_query name score ms) \<and>
     (range_at_end name score offset ms \<longrightarrow> ms' = spec_range name score offset limit ms))"

lemma spec_range_reply:
  assumes "0 < limit"
  shows "range_reply name score offset limit ms (R_arr (items (spec_range name score offset limit ms)))"
proof -
  let ?r = "spec_range name score offset limit ms" and ?i = "range_start name score ms"
  have "set ?r \<subseteq> set ms"
    unfolding spec_range_def Let_def by (auto dest: in_set_takeD in_set_dropD split: if_splits)
  moreover have "2 * int (length ?r) \<le> limit + 1" using assms by (auto simp: spec_range_def Let_def)
  moreover have "map_option hd (if ?r = [] then None else Some ?r) = spec_query name score ms" if "offset = 0"
  proof (cases "?i = length ms")
    case True
    then show ?thesis by (simp add: spec_query_def find_takeWhile spec_range_def flip: range_start_def)
  next
    case False
    moreover have "?i \<le> length ms" unfolding range_start_def by (rule length_takeWhile_le)
    ultimately show ?thesis using that assms
      by (auto simp: spec_query_def find_takeWhile spec_range_def hd_drop_conv_nth simp flip: range_start_def)
  qed
  ultimately show ?thesis unfolding range_reply_def by blast
qed

lemma spec_query_members:
  "spec_query name score (members s t) = map_option (member_of (zn_h s))
     (find (\<lambda>x. \<not> mkey (member_of (zn_h s) x) < mkey (name, score)) (inorder t))"
proof -
  have "find P (map g xs) = map_option g (find (\<lambda>x. P (g x)) xs)" for P and g :: "ptr \<Rightarrow> member" and xs
    by (induction xs) auto
  then show ?thesis by (simp add: spec_query_def members_def)
qed

lemma walk_sound:
  assumes z: "zset_repr s z t" and len: "length name < 2 ^ 32" "\<not> dbl_is_nan score" and lim: "0 < limit"
    and q: "zset_query s z score name (len_of name) = Some p" and o: "znode_offset s p offset = Some q"
    and w: "zquery_loop s q limit 0 (fst (begin_arr out)) = Some (out1, n)"
    and e: "end_arr out1 (snd (begin_arr out)) n = Some out2"
    and at: "\<not> range_at_end name score offset (members s t)"
  shows "\<exists>r. out2 = out @ reply_bytes r \<and> range_reply name score offset limit (members s t) r"
proof -
  have find: "find (\<lambda>x. \<not> mkey (member_of (zn_h s) x) < mkey (name, score)) (inorder t) =
      (if p = NULL then None else Some p)"
    using zset_query_repr [OF z len] q by auto
  then have "p = NULL \<or> p \<in> set_tree t" by (metis find_in set_inorder)
  from zquery_loop_sound [OF w z znode_offset_in [OF z this o]] obtain ps where
    ps: "set ps \<subseteq> set_tree t"
      "(out1, n) = (fst (begin_arr out) @ concat (map reply_bytes (items (map (member_of (zn_h s)) ps))), 0 + of_nat (2 * length ps))"
      "ps = [] \<longleftrightarrow> q = NULL \<or> limit \<le> int (unat (0 :: u32))" "ps \<noteq> [] \<longrightarrow> hd ps = q"
      "limit < 2 ^ 32 - 2 \<longrightarrow> ps \<noteq> [] \<longrightarrow> int (unat (0 :: u32)) + 2 * int (length ps) \<le> limit + 1"
    by (elim exE conjE) (rule that; assumption)
  let ?ms = "map (member_of (zn_h s)) ps"
  have "out2 = out @ reply_bytes (R_arr (items ?ms))"
    using e ps(2) end_begin_arr [of out "fst (begin_arr out)" "snd (begin_arr out)"] by (simp add: out_arr_def)
  moreover have "set ?ms \<subseteq> set (members s t)" using ps(1) by (auto simp: members_def)
  moreover have "limit < 2 ^ 32 - 2 \<longrightarrow> 2 * int (length ?ms) \<le> limit + 1" using ps(5) lim by (cases "ps = []") auto
  moreover have "map_option hd (if ?ms = [] then None else Some ?ms) = spec_query name score (members s t)"
    if "offset = 0"
  proof -
    have "q = p" using o that by (cases "p = NULL") (auto simp: znode_offset_def avl_offset_def offset_done)
    moreover have "spec_query name score (members s t) = (if p = NULL then None else Some (member_of (zn_h s) p))"
      by (simp add: spec_query_members find)
    ultimately show ?thesis using ps(3,4) lim by (cases ps) auto
  qed
  ultimately show ?thesis using at unfolding range_reply_def by blast
qed

text \<open>At the ends the walk returns, with the whole range.\<close>

lemma walk_at_end:
  assumes z: "zset_repr s z t" and len: "length name < 2 ^ 32" "\<not> dbl_is_nan score" and lim: "0 < limit"
    and at: "range_at_end name score offset (members s t)"
  shows "\<exists>p q n out1. zset_query s z score name (len_of name) = Some p \<and> znode_offset s p offset = Some q \<and>
    zquery_loop s q limit 0 out = Some (out1, of_nat (2 * length (spec_range name score offset limit (members s t)))) \<and>
    out1 = out @ concat (map reply_bytes (items (spec_range name score offset limit (members s t))))"
proof -
  let ?below = "\<lambda>x. mkey (member_of (zn_h s) x) < mkey (name, score)"
  let ?xs = "inorder t" and ?i = "range_start name score (members s t)"
  have i: "?i = length (takeWhile ?below ?xs)" by (simp add: members_def range_start_map)
  from zset_query_repr [OF z len] obtain p where p: "zset_query s z score name (len_of name) = Some p"
    "(if ?i = length ?xs then None else Some (?xs ! ?i)) = (if p = NULL then None else Some p)"
    unfolding find_takeWhile i [symmetric] by blast
  have stop: "zquery_loop s NULL limit n out' = Some (out', n)" for n out' by (subst zquery_loop.simps) simp
  show ?thesis
  proof (cases "?i = length ?xs")
    case True
    with p(2) have "p = NULL" by (cases "p = NULL") simp_all
    with p(1) stop True show ?thesis by (simp add: znode_offset_def spec_range_def members_def)
  next
    case False
    have "?i \<le> length ?xs" unfolding i by (rule length_takeWhile_le)
    with False have lt: "?i < length ?xs" by simp
    from False p(2) have nn: "p \<noteq> NULL" and nth: "p = ?xs ! ?i" by (auto split: if_splits)
    from nth lt have mem: "p \<in> set_tree t" by (metis nth_mem set_inorder)
    from z obtain zs :: zset where "avl_tree (avl_h s) (ztree zs) t" by (auto simp: zset_repr_def)
    from avl_tree_at_node [OF this mem] obtain c l r where a: "t = plug c (Node l p r)" "at_node (avl_h s) c l p r"
      by blast
    have pos: "?i = length (before c) + size l"
    proof (rule inorder_nth_at [OF a(2), folded a(1)])
      show "?i < size t" using lt by simp
      show "?xs ! ?i = p" by (rule nth [symmetric])
    qed
    have size: "length ?xs = length (before c) + size l + 1 + size r + length (after c)" by (simp add: a(1) size_plug)
    have out: "znode_offset s p k = Some NULL"
      if "k < - int (size l + length (before c)) \<or> k > int (size r + length (after c))" for k
      using offset_out_of_range [OF a(2), of k 0] that nn by (simp add: znode_offset_def avl_offset_def)
    have len_ms: "length (members s t) = length ?xs" by (simp add: members_def)
    consider (outside) "int ?i + offset < 0 \<or> int (length ?xs) \<le> int ?i + offset" | (last) "offset = 0" "?i + 1 = length ?xs"
      using at False len_ms unfolding range_at_end_def Let_def by auto
    then show ?thesis
    proof cases
      case outside
      then have "znode_offset s p offset = Some NULL" using pos size by (intro out) auto
      moreover have "spec_range name score offset limit (members s t) = []"
        using outside len_ms by (auto simp: spec_range_def Let_def)
      ultimately show ?thesis using p(1) stop by simp
    next
      case last
      from z have "znodes_ok (zn_h s) (set_tree t)" by (simp add: zset_repr_def)
      from znodes_okD [OF this mem] obtain zn where zn: "zn_h s p = Some zn" "znode_ok zn" by blast
      have "znode_offset s p 0 = Some p" using nn by (simp add: znode_offset_def avl_offset_def offset_done)
      moreover have "znode_offset s p 1 = Some NULL" using last pos size by (intro out) auto
      then have "zquery_loop s p limit 0 out = Some (out @ reply_bytes (R_str (zname zn)) @ reply_bytes (R_dbl (zscore zn)), 2)"
        using nn lim zn(1) stop by (subst zquery_loop.simps) (simp add: out_znode [OF zn(2)] out_dbl_def)
      moreover have "drop ?i (members s t) = [member_of (zn_h s) p]"
        using last lt nth by (simp add: members_def drop_map Cons_nth_drop_Suc [symmetric])
      then have "spec_range name score offset limit (members s t) = [(zname zn, zscore zn)]"
        using last lim False len_ms zn(1) by (cases "nat ((limit + 1) div 2)") (auto simp: spec_range_def Let_def)
      ultimately show ?thesis using p(1) last(1) by simp
    qed
  qed
qed

section \<open>The command\<close>

text \<open>The arguments of a range query that walks, with the members of its set.\<close>

definition range_args :: "keyspace \<Rightarrow> byte list list \<Rightarrow> u64 \<Rightarrow> int \<Rightarrow> int \<Rightarrow> member list \<Rightarrow> bool" where
  "range_args kv cmd score offset limit ms \<longleftrightarrow> length cmd = 6 \<and> length (cmd ! 3) < 2 ^ 32 \<and>
     str2dbl (cmd ! 2) = Some score \<and> str2int (cmd ! 4) = Some offset \<and> str2int (cmd ! 5) = Some limit \<and>
     0 < limit \<and> kv (cmd ! 1) = Some (Zset ms)"

lemma walks_args:
  assumes "walks kv cmd" "\<forall>s \<in> set cmd. length s < 2 ^ 32"
  obtains score offset limit ms where "range_args kv cmd score offset limit ms"
  using assms unfolding walks_def is_cmd_def spec_zquery_def range_args_def
  by (auto split: if_splits option.splits val.splits)

text \<open>The last part of \<open>do_zquery\<close>, from the search of the first node on.\<close>

definition walk :: "gdata \<Rightarrow> ptr \<Rightarrow> u64 \<Rightarrow> byte list \<Rightarrow> int \<Rightarrow> int \<Rightarrow> byte list \<Rightarrow> (gdata \<times> byte list) option" where
  "walk g z score name offset limit out = do {
     p \<leftarrow> zset_query (mem g) z score name (len_of name);
     q \<leftarrow> znode_offset (mem g) p offset;
     (out1, n) \<leftarrow> zquery_loop (mem g) q limit 0 (fst (begin_arr out));
     out2 \<leftarrow> end_arr out1 (snd (begin_arr out)) n;
     Some (g, out2) }"

lemma do_zquery_walk:
  assumes "db_rep g kv" "range_args kv cmd score offset limit ms"
  obtains g' z t where "db_rep g' kv" "zset_repr (mem g') z t" "members (mem g') t = ms"
    "do_zquery g cmd out = walk g' z score (cmd ! 3) offset limit out"
proof -
  from assms(1) obtain E T where rep: "db_repr g E T" "kv_of g E T kv" by (auto simp: db_rep_def)
  show ?thesis
  proof (cases rule: db_lookup_kv [OF rep, where k = "cmd ! 1", case_names absent str zset])
    case (absent h)
    with assms(2) show ?thesis by (simp add: range_args_def)
  next
    case (str h q e)
    with assms(2) show ?thesis by (simp add: range_args_def)
  next
    case (zset h q e)
    then show ?thesis
      using assms(2) by (intro that [OF db_repI [OF zset(3,4)] zset(10)])
        (simp_all add: range_args_def do_zquery_def expect_zset_simps walk_def Let_def case_prod_beta)
  qed
qed

lemma do_zquery_sound:
  assumes "db_rep g kv" "range_args kv cmd score offset limit ms" "do_zquery g cmd out = Some (g', out')"
  shows "\<exists>r. out' = out @ reply_bytes r \<and> db_rep g' kv \<and> range_reply (cmd ! 3) score offset limit ms r"
proof -
  from do_zquery_walk [OF assms(1,2), of out] obtain h z t where
    z: "db_rep h kv" "zset_repr (mem h) z t" "members (mem h) t = ms"
    and eq: "do_zquery g cmd out = walk h z score (cmd ! 3) offset limit out" by blast
  from assms(3) eq obtain p q out1 n where r: "g' = h"
    "zset_query (mem h) z score (cmd ! 3) (len_of (cmd ! 3)) = Some p" "znode_offset (mem h) p offset = Some q"
    "zquery_loop (mem h) q limit 0 (fst (begin_arr out)) = Some (out1, n)"
    "end_arr out1 (snd (begin_arr out)) n = Some out'" by (auto simp: walk_def bind_eq_Some_conv)
  have len: "length (cmd ! 3) < 2 ^ 32" "\<not> dbl_is_nan score" "0 < limit"
    using assms(2) str2dbl_not_nan by (auto simp: range_args_def)
  show ?thesis
  proof (cases "range_at_end (cmd ! 3) score offset ms")
    case True
    let ?r = "spec_range (cmd ! 3) score offset limit ms"
    from walk_at_end [OF z(2) len True [folded z(3)], of "fst (begin_arr out)"] r(2-4) z(3) have
      "out1 = fst (begin_arr out) @ concat (map reply_bytes (items ?r))" "n = of_nat (2 * length ?r)" by auto
    with r(5) end_begin_arr [of out "fst (begin_arr out)" "snd (begin_arr out)"]
    have "out' = out @ reply_bytes (R_arr (items ?r))" by (simp add: out_arr_def)
    with spec_range_reply [OF len(3)] z(1) r(1) show ?thesis by blast
  next
    case False
    from walk_sound [OF z(2) len r(2-5) False [folded z(3)]] z(1,3) r(1) show ?thesis by blast
  qed
qed

lemma do_zquery_at_end:
  assumes "db_rep g kv" "range_args kv cmd score offset limit ms" "range_at_end (cmd ! 3) score offset ms"
  shows "\<exists>g'. do_zquery g cmd out =
      Some (g', out @ reply_bytes (R_arr (items (spec_range (cmd ! 3) score offset limit ms)))) \<and> db_rep g' kv"
proof -
  from do_zquery_walk [OF assms(1,2), of out] obtain h z t where
    z: "db_rep h kv" "zset_repr (mem h) z t" "members (mem h) t = ms"
    and eq: "do_zquery g cmd out = walk h z score (cmd ! 3) offset limit out" by blast
  have len: "length (cmd ! 3) < 2 ^ 32" "\<not> dbl_is_nan score" "0 < limit"
    using assms(2) str2dbl_not_nan by (auto simp: range_args_def)
  from walk_at_end [OF z(2) len assms(3) [folded z(3)], of "fst (begin_arr out)"] z(1,3) show ?thesis
    using end_begin_arr [of out "fst (begin_arr out)" "snd (begin_arr out)"]
    by (auto simp: eq walk_def out_arr_def)
qed

section \<open>Properties of range queries\<close>

lemma one_member_query:
  obtains g kv where "db_rep g kv"
    "range_args kv [[], [122], [49], [], [48], [57]] 0x3FF0000000000000 0 9 [([97], 0x3FF0000000000000)]"
    "range_at_end [] 0x3FF0000000000000 0 [([97], 0x3FF0000000000000)]"
    "spec_range [] 0x3FF0000000000000 0 9 [([97], 0x3FF0000000000000)] = [([97], 0x3FF0000000000000)]"
proof -
  have "roomy Map.empty" by (simp add: roomy_def hm_capacity_def)
  from do_zadd_repr [OF db_rep_empty this refl str2dbl_one, of "[97]" "[]" "[122]" "[]"] obtain g where
    "db_rep g (fst (spec_zadd Map.empty [122] [97] 0x3FF0000000000000))" by auto
  moreover have "str2int [48] = Some 0" "str2int [57] = Some 9" by code_simp+
  moreover have "\<not> mkey ([97], 0x3FF0000000000000) < mkey ([], 0x3FF0000000000000)" by (simp add: mkey_def)
  ultimately show ?thesis
    by (intro that [of g "[[122] \<mapsto> Zset [([97], 0x3FF0000000000000)]]"]) (simp_all add: spec_zadd_def spec_add_def spec_remove_def range_args_def
        str2dbl_one range_at_end_def range_start_def spec_range_def)
qed

text \<open>
  C30. The reply to a range query.  Whenever a range query that walks the tree returns, the keyspace is
  unchanged and the reply is one array of names and scores of members of the set, at most one pair for
  every two of the limit, that starts, without an offset, with the first member of the range.
\<close>

theorem zquery_reply_of_members:
  assumes "db_rep g kv" "range_args kv cmd score offset limit ms" "do_zquery g cmd [] = Some (g', out)"
  shows "\<exists>r. out = reply_bytes r \<and> db_rep g' kv \<and> range_reply (cmd ! 3) score offset limit ms r"
  using do_zquery_sound [OF assms] by simp

theorem zquery_reply_of_members_witness:
  "\<exists>g g' out r kv. do_zquery g [[], [122], [49], [], [48], [57]] [] = Some (g', out) \<and> out = reply_bytes r \<and>
     db_rep g' kv \<and> range_reply [] 0x3FF0000000000000 0 9 [([97], 0x3FF0000000000000)] r"
proof -
  let ?cmd = "[[], [122], [49], [], [48], [57]]"
  obtain g kv where g: "db_rep g kv"
    "range_args kv ?cmd 0x3FF0000000000000 0 9 [([97], 0x3FF0000000000000)]"
    "range_at_end [] 0x3FF0000000000000 0 [([97], 0x3FF0000000000000)]" by (rule one_member_query)
  from do_zquery_at_end [OF g(1,2), of "[]"] g(3) obtain g' out where "do_zquery g ?cmd [] = Some (g', out)" by auto
  from zquery_reply_of_members [OF g(1,2) this] this show ?thesis
    by (intro exI [of _ g] exI [of _ g'] exI [of _ out]) auto
qed

text \<open>
  C31. Ranges at the ends.  A range query that starts behind the last member, or whose offset leads past
  either end, or without an offset starts at the last member, returns and answers with exactly the
  members of the range.
\<close>

theorem zquery_complete_at_ends:
  assumes "db_rep g kv" "range_args kv cmd score offset limit ms" "range_at_end (cmd ! 3) score offset ms"
  shows "\<exists>g'. do_zquery g cmd [] =
      Some (g', reply_bytes (R_arr (items (spec_range (cmd ! 3) score offset limit ms)))) \<and> db_rep g' kv"
  using do_zquery_at_end [OF assms, of "[]"] by simp

theorem zquery_complete_at_ends_witness:
  "\<exists>g g'. do_zquery g [[], [122], [49], [], [48], [57]] [] =
     Some (g', reply_bytes (R_arr [R_str [97], R_dbl 0x3FF0000000000000]))"
proof -
  obtain g kv where g: "db_rep g kv"
    "range_args kv [[], [122], [49], [], [48], [57]] 0x3FF0000000000000 0 9 [([97], 0x3FF0000000000000)]"
    "range_at_end [] 0x3FF0000000000000 0 [([97], 0x3FF0000000000000)]"
    "spec_range [] 0x3FF0000000000000 0 9 [([97], 0x3FF0000000000000)] = [([97], 0x3FF0000000000000)]"
    by (rule one_member_query)
  from zquery_complete_at_ends [OF g(1,2)] g(3,4) show ?thesis by auto
qed

end
