(* ===== verification/Keyspace_Run.thy ===== *)
theory Keyspace_Run
  imports Range_Reply
begin

text \<open>
  Runs of any commands, range queries included.  A range query that walks the tree may not return; when it
  does, it leaves the keyspace as it is and replies with members of the set (\<open>Range_Reply\<close>).  So whatever
  commands are executed, the keyspace stays well-formed and every reply is allowed by its specification.
\<close>

section \<open>One command\<close>

text \<open>A reply of the specification, or one that a range query may give when it walks the tree.\<close>

definition range_step :: "keyspace \<Rightarrow> byte list list \<Rightarrow> reply \<Rightarrow> bool" where
  "range_step kv cmd r \<longleftrightarrow> (\<exists>score offset limit ms.
     range_args kv cmd score offset limit ms \<and> range_reply (cmd ! 3) score offset limit ms r)"

definition serves :: "keyspace \<Rightarrow> byte list list \<Rightarrow> keyspace \<Rightarrow> byte list \<Rightarrow> bool" where
  "serves kv cmd kv' out \<longleftrightarrow> (\<exists>r. out = reply_bytes r \<and>
     (spec_step kv cmd kv' r \<or> walks kv cmd \<and> kv' = kv \<and> range_step kv cmd r))"

lemma do_request_serves:
  assumes "db_rep g kv" "roomy kv" "card (dom kv) < 2 ^ 32" "\<forall>s \<in> set cmd. length s < 2 ^ 32"
    and "do_request g cmd [] = Some (g', out)"
  shows "\<exists>kv'. db_rep g' kv' \<and> serves kv cmd kv' out"
proof (cases "walks kv cmd")
  case True
  then have "is_cmd cmd 6 ''zquery''" by (simp add: walks_def)
  then have run: "do_zquery g cmd [] = Some (g', out)"
    using assms(5) do_request_cases(8) by (simp_all add: is_cmd_def)
  from walks_args [OF True assms(4)] obtain score offset limit ms where
    args: "range_args kv cmd score offset limit ms" .
  from do_zquery_sound [OF assms(1) args run] True args show ?thesis
    unfolding serves_def range_step_def by (intro exI [of _ kv]) auto
next
  case False
  from do_request_repr [OF assms(1-4) False] assms(5) show ?thesis unfolding serves_def by fastforce
qed

lemma serves_small: "serves kv cmd kv' out \<Longrightarrow> kv_small n kv \<Longrightarrow> kv_small (Suc n) kv'"
  unfolding serves_def using spec_step_small kv_small_mono by blast

section \<open>Runs\<close>

inductive serves_run :: "keyspace \<Rightarrow> byte list list list \<Rightarrow> keyspace \<Rightarrow> byte list list \<Rightarrow> bool" where
  none: "serves_run kv [] kv []"
| more: "serves kv cmd kv1 out \<Longrightarrow> serves_run kv1 cmds kv2 outs \<Longrightarrow> serves_run kv (cmd # cmds) kv2 (out # outs)"

inductive_cases serves_run_NilE: "serves_run kv [] kv' outs"
inductive_cases serves_run_ConsE: "serves_run kv (cmd # cmds) kv' outs"

lemma run_requests_serves:
  assumes "db_rep g kv" "kv_small n kv" "n + length cmds < 2 ^ 31 - 1"
    and "\<forall>cmd \<in> set cmds. \<forall>s \<in> set cmd. length s < 2 ^ 32" "run_requests g cmds = Some (g', outs)"
  shows "\<exists>kv'. db_rep g' kv' \<and> serves_run kv cmds kv' outs"
  using assms
proof (induction cmds arbitrary: g kv n outs)
  case Nil
  then show ?case by (auto intro: serves_run.none)
next
  case (Cons cmd cmds)
  from Cons.prems(5) obtain g1 out outs' where r: "do_request g cmd [] = Some (g1, out)"
    "run_requests g1 cmds = Some (g', outs')" "outs = out # outs'" by (auto simp: bind_eq_Some_conv)
  have room: "roomy kv" "card (dom kv) < 2 ^ 32"
    using kv_small_roomy [OF Cons.prems(2)] Cons.prems(3) by auto
  from do_request_serves [OF Cons.prems(1) room _ r(1)] Cons.prems(4) obtain kv1 where
    s: "db_rep g1 kv1" "serves kv cmd kv1 out" by auto
  have "Suc n + length cmds < 2 ^ 31 - 1" using Cons.prems(3) by simp
  from Cons.IH [OF s(1) serves_small [OF s(2) Cons.prems(2)] this _ r(2)] Cons.prems(4) obtain kv' where
    "db_rep g' kv'" "serves_run kv1 cmds kv' outs'" by auto
  then show ?case using serves_run.more [OF s(2)] r(3) by blast
qed

lemma run_from_empty:
  assumes "length cmds < 2 ^ 31 - 1" "\<forall>cmd \<in> set cmds. \<forall>s \<in> set cmd. length s < 2 ^ 32"
    and "run_requests gdata0 cmds = Some (g, outs)"
  shows "\<exists>kv. db_rep g kv \<and> serves_run Map.empty cmds kv outs"
  using run_requests_serves [OF db_rep_empty, of 0 cmds g outs] assms by (simp add: kv_small_def)

section \<open>Properties\<close>

text \<open>
  C4. Every request is handled as specified.  In a state that represents a keyspace with room (less keys
  than the hash map can index and less than \<open>2 ^ 31 - 1\<close> members in each set), with arguments shorter than
  \<open>2 ^ 32\<close> bytes: for a command that is no range query on an existing set, \<open>do_request\<close> returns, and its
  reply and its effect on the keyspace are those of the command's specification; an unknown command is
  answered with an error and changes nothing.  A range query on an existing set may fail to return;
  whenever \<open>do_request\<close> returns, for any command, the state represents a keyspace again, which for such a
  query is the same, and the reply is allowed by the specification, for such a query an array of members
  of the set within the limit.
\<close>

theorem do_request_correct:
  assumes "db_rep g kv" "roomy kv" "card (dom kv) < 2 ^ 32" "\<forall>s \<in> set cmd. length s < 2 ^ 32"
  shows "(\<not> walks kv cmd \<longrightarrow>
      (\<exists>g' kv' r. do_request g cmd [] = Some (g', reply_bytes r) \<and> db_rep g' kv' \<and> spec_step kv cmd kv' r)) \<and>
    (\<forall>g' out. do_request g cmd [] = Some (g', out) \<longrightarrow> (\<exists>kv'. db_rep g' kv' \<and> serves kv cmd kv' out))"
  using do_request_repr [OF assms] do_request_serves [OF assms] by blast

theorem do_request_correct_witness:
  "\<exists>g. do_request gdata0 [ascii ''GET'', [107]] [] = Some (g, [SER_NIL])"
proof -
  have s: "is_cmd [ascii ''GET'', [107]] 2 ''get''"
    by (simp add: is_cmd_def cmd_is_def c_str_def ascii_def tolower_def)
  have "spec_step Map.empty [ascii ''GET'', [107]] kv' r \<Longrightarrow> r = R_nil" for kv' r
    by (erule spec_step.cases) (use s cmd_is_simps(3) [OF s] in \<open>auto simp: is_cmd_def known_cmd_def spec_get_def\<close>)
  with do_request_correct [OF db_rep_empty, THEN conjunct1, of "[ascii ''GET'', [107]]"] show ?thesis
    by (fastforce simp: roomy_def hm_capacity_def ascii_def walks_def is_cmd_def)
qed


text \<open>
  C11. The type tags of the keyspace.  Whatever commands have been executed, every entry in the hash map is
  alive and is a string or a sorted set; the tag of a sorted set comes with an empty string and a live
  \<open>ZSet\<close> object, and no two entries own the same one, so no command that trusts the tag follows a bad
  pointer.
\<close>

theorem entry_types:
  assumes "length cmds < 2 ^ 31 - 1" "\<forall>cmd \<in> set cmds. \<forall>s \<in> set cmd. length s < 2 ^ 32"
    and "run_requests gdata0 cmds = Some (g, outs)"
  shows "\<exists>E. hm_repr (hn_h (mem g)) (db g) E \<and>
    (\<forall>x \<in> E. \<exists>e. en_h g x = Some e \<and>
      (etype e = T_STR \<or> etype e = T_ZSET \<and> evalue e = [] \<and> zs_h (mem g) (ezset e) \<noteq> None)) \<and>
    (\<forall>x \<in> E. \<forall>y \<in> E. \<forall>e f. en_h g x = Some e \<and> en_h g y = Some f \<and> etype e = T_ZSET \<and> etype f = T_ZSET \<and>
      ezset e = ezset f \<longrightarrow> x = y)"
proof -
  from run_from_empty [OF assms] obtain E T where r: "db_repr g E T" unfolding db_rep_def by blast
  note d = db_reprD [OF r]
  have "\<exists>e. en_h g x = Some e \<and>
      (etype e = T_STR \<or> etype e = T_ZSET \<and> evalue e = [] \<and> zs_h (mem g) (ezset e) \<noteq> None)" if "x \<in> E" for x
    using entries_okD [OF d(4) that] by (auto simp: entry_ok_def zset_repr_def)
  moreover have "x = y" if "x \<in> E" "y \<in> E" "en_h g x = Some e" "en_h g y = Some f" "etype e = T_ZSET"
    "etype f = T_ZSET" "ezset e = ezset f" for x y e f
    using d(5) that unfolding separate_def zset_entry_def by fastforce
  ultimately show ?thesis using d(2) by blast
qed

theorem entry_types_witness:
  "\<exists>g outs E. run_requests gdata0 [[ascii ''set'', [107], [118]], [ascii ''zadd'', [122], [49], [97]]] = Some (g, outs) \<and>
     hm_repr (hn_h (mem g)) (db g) E \<and> (\<forall>x \<in> E. \<exists>e. en_h g x = Some e \<and> (etype e = T_STR \<or> etype e = T_ZSET))"
proof -
  let ?cmds = "[[ascii ''set'', [107], [118]], [ascii ''zadd'', [122], [49], [97]]]"
  have ok: "\<forall>cmd \<in> set ?cmds. no_range_query cmd \<and> (\<forall>s \<in> set cmd. length s < 2 ^ 32)"
    by (simp add: no_range_query_def is_cmd_def ascii_def)
  from run_requests_repr [OF db_rep_empty, of 0 ?cmds] ok obtain g outs where
    r: "run_requests gdata0 ?cmds = Some (g, outs)" by (auto simp: kv_small_def simp del: run_requests.simps list.set)
  have short: "\<forall>cmd \<in> set ?cmds. \<forall>s \<in> set cmd. length s < 2 ^ 32" using ok by blast
  have "length ?cmds < 2 ^ 31 - 1" by simp
  from entry_types [OF this short r] obtain E where "hm_repr (hn_h (mem g)) (db g) E"
    "\<forall>x \<in> E. \<exists>e. en_h g x = Some e \<and>
      (etype e = T_STR \<or> etype e = T_ZSET \<and> evalue e = [] \<and> zs_h (mem g) (ezset e) \<noteq> None)" by blast
  with r show ?thesis by (intro exI [of _ g] exI [of _ outs] exI [of _ E]) blast
qed

end
