(* ===== verification/Conn.thy ===== *)
theory Conn
  imports Commands Socket
begin

text \<open>
  The connection of the server, \<open>struct Conn\<close> of \<open>src/src/server.cpp\<close>, and the functions that move it
  through its states: \<open>try_flush_buffer\<close>, \<open>state_res\<close>, \<open>try_one_request\<close>, \<open>try_fill_buffer\<close> and
  \<open>state_req\<close>.  A connection is passed in and returned as a value, as no two pointers to a \<open>Conn\<close> are
  in use at a time; its timer node is in the heap of \<open>DList\<close>.  The descriptor does not block: when the
  list of its results is used up, a call gives \<open>EAGAIN\<close>.

  The functions return the bytes that \<open>send\<close> passed on as well, and the results that are left.
\<close>

section \<open>State\<close>

definition STATE_REQ :: u32 where "STATE_REQ = 0"
definition STATE_RES :: u32 where "STATE_RES = 1"
definition STATE_END :: u32 where "STATE_END = 2"

lemmas states = STATE_REQ_def STATE_RES_def STATE_END_def

record conn =
  cfd :: nat
  cstate :: u32
  rbuf_size :: u64
  rbuf :: "byte list"
  wbuf_size :: u64
  wbuf_sent :: u64
  wbuf :: "byte list"
  idle_start :: u64

text \<open>
  A connection as \<open>accept_new_conn\<close> sets it up; \<open>malloc\<close> leaves the two buffers uninitialised, their
  contents are arguments.
\<close>

definition conn_new :: "nat \<Rightarrow> u64 \<Rightarrow> byte list \<Rightarrow> byte list \<Rightarrow> conn" where
  "conn_new connfd now rb wb =
     \<lparr>cfd = connfd, cstate = STATE_REQ, rbuf_size = 0, rbuf = rb, wbuf_size = 0, wbuf_sent = 0, wbuf = wb,
      idle_start = now\<rparr>"

text \<open>\<open>sizeof(conn->rbuf)\<close>, and of \<open>wbuf\<close>.\<close>

definition buf_cap :: nat where
  "buf_cap = 4 + k_max_msg"

type_synonym io = "io_result list"

text \<open>The loops around \<open>send\<close> and \<open>recv\<close> that repeat an interrupted call.\<close>

fun next_result :: "io \<Rightarrow> io_result \<times> io" where
  "next_result [] = (Again, [])"
| "next_result (Intr # rs) = next_result rs"
| "next_result (r # rs) = (r, rs)"

section \<open>Sending a response\<close>

text \<open>
  A failure of \<open>send\<close> closes the connection.  The failure \<open>EPIPE\<close> is not among them: the call has no
  \<open>MSG_NOSIGNAL\<close> and the program does not ignore \<open>SIGPIPE\<close>, so sending to a client that has closed its
  side ends the process.
\<close>

definition try_flush_buffer :: "io \<Rightarrow> conn \<Rightarrow> (bool \<times> conn \<times> byte list \<times> io) option" where
  "try_flush_buffer rs c = do {
     let remain_bytes = wbuf_size c - wbuf_sent c;
     bs \<leftarrow> slice_opt (wbuf c) (unat (wbuf_sent c)) (unat remain_bytes);
     case next_result rs of (r, rs) \<Rightarrow>
       (case r of
          Again \<Rightarrow> Some (False, c, [], rs)
        | Sent k \<Rightarrow>
            (let k = min k (length bs);
                 c = c\<lparr>wbuf_sent := wbuf_sent c + of_nat k\<rparr>
             in if wbuf_sent c = wbuf_size c
                then Some (False, c\<lparr>wbuf_sent := 0, wbuf_size := 0, cstate := STATE_REQ\<rparr>, take k bs, rs)
                else Some (True, c, take k bs, rs))
        | _ \<Rightarrow> Some (False, c\<lparr>cstate := STATE_END\<rparr>, [], rs))
   }"

partial_function (option) state_res :: "io \<Rightarrow> conn \<Rightarrow> (conn \<times> byte list \<times> io) option" where
  "state_res rs c = do {
     (again, c, sent, rs) \<leftarrow> try_flush_buffer rs c;
     if again then do {
       (c, sent', rs) \<leftarrow> state_res rs c;
       Some (c, sent @ sent', rs) }
     else Some (c, sent, rs)
   }"

declare state_res.simps [code]

section \<open>Handling requests\<close>

text \<open>\<open>wbuf\<close> and \<open>wbuf_size\<close> after the response was put in.\<close>

definition put_response :: "conn \<Rightarrow> byte list \<Rightarrow> conn option" where
  "put_response c out = do {
     let wlen = (of_nat (length out) :: u32);
     w \<leftarrow> put_at (wbuf c) 0 (bytes32 wlen);
     w \<leftarrow> put_at w 4 out;
     Some (c\<lparr>wbuf := w, wbuf_size := ucast (wlen + 4)\<rparr>)
   }"

text \<open>The read buffer without the request of length \<open>len\<close> at its front.\<close>

definition drop_request :: "conn \<Rightarrow> u32 \<Rightarrow> conn option" where
  "drop_request c len = do {
     let remain_bytes = rbuf_size c - ucast len - 4;
     r \<leftarrow> (if remain_bytes > 0 then do {
              bs \<leftarrow> slice_opt (rbuf c) (unat (len + 4)) (unat remain_bytes);
              put_at (rbuf c) 0 bs }
            else Some (rbuf c));
     Some (c\<lparr>rbuf := r, rbuf_size := remain_bytes\<rparr>)
   }"

definition limit_response :: "byte list \<Rightarrow> byte list" where
  "limit_response out =
     (if 4 + length out > k_max_msg then out_err [] ERR_2BIG (ascii ''response is too big'') else out)"

definition try_one_request ::
  "io \<Rightarrow> gdata \<Rightarrow> conn \<Rightarrow> (bool \<times> gdata \<times> conn \<times> byte list \<times> io) option" where
  "try_one_request rs g c =
     (if rbuf_size c < 4 then Some (False, g, c, [], rs)
      else do {
        len \<leftarrow> read32 (rbuf c) 0;
        if unat len > k_max_msg then Some (False, g, c\<lparr>cstate := STATE_END\<rparr>, [], rs)
        else do {
          p \<leftarrow> parse_req (drop 4 (rbuf c)) (unat len);
          case p of
            Bad_req \<Rightarrow> Some (False, g, c\<lparr>cstate := STATE_END\<rparr>, [], rs)
          | Cmd cmd \<Rightarrow> do {
              (g, out) \<leftarrow> do_request g cmd [];
              c \<leftarrow> put_response c (limit_response out);
              c \<leftarrow> drop_request c len;
              (c, sent, rs) \<leftarrow> state_res rs (c\<lparr>cstate := STATE_RES\<rparr>);
              Some (cstate c = STATE_REQ, g, c, sent, rs) } } })"

partial_function (option) request_loop ::
  "io \<Rightarrow> gdata \<Rightarrow> conn \<Rightarrow> (gdata \<times> conn \<times> byte list \<times> io) option" where
  "request_loop rs g c = do {
     (again, g, c, sent, rs) \<leftarrow> try_one_request rs g c;
     if again then do {
       (g, c, sent', rs) \<leftarrow> request_loop rs g c;
       Some (g, c, sent @ sent', rs) }
     else Some (g, c, sent, rs)
   }"

declare request_loop.simps [code]

section \<open>Reading\<close>

definition try_fill_buffer ::
  "io \<Rightarrow> gdata \<Rightarrow> conn \<Rightarrow> (bool \<times> gdata \<times> conn \<times> byte list \<times> io) option" where
  "try_fill_buffer rs g c =
     (if \<not> rbuf_size c < of_nat buf_cap then None
      else
        (let cap = of_nat buf_cap - rbuf_size c
         in case next_result rs of (r, rs) \<Rightarrow>
           (case r of
              Again \<Rightarrow> Some (False, g, c, [], rs)
            | Got bs \<Rightarrow>
                if bs = [] then Some (False, g, c\<lparr>cstate := STATE_END\<rparr>, [], rs)
                else do {
                  let got = take (unat cap) bs;
                  let rs = (if length bs > unat cap then Got (drop (unat cap) bs) # rs else rs);
                  r \<leftarrow> put_at (rbuf c) (unat (rbuf_size c)) got;
                  (g, c, sent, rs) \<leftarrow>
                    request_loop rs g (c\<lparr>rbuf := r, rbuf_size := rbuf_size c + of_nat (length got)\<rparr>);
                  Some (False, g, c, sent, rs) }
            | _ \<Rightarrow> Some (False, g, c\<lparr>cstate := STATE_END\<rparr>, [], rs))))"

partial_function (option) state_req ::
  "io \<Rightarrow> gdata \<Rightarrow> conn \<Rightarrow> (gdata \<times> conn \<times> byte list \<times> io) option" where
  "state_req rs g c = do {
     (again, g, c, sent, rs) \<leftarrow> try_fill_buffer rs g c;
     if again then do {
       (g, c, sent', rs) \<leftarrow> state_req rs g c;
       Some (g, c, sent @ sent', rs) }
     else Some (g, c, sent, rs)
   }"

declare state_req.simps [code]

text \<open>
  \<open>connection_io\<close> without its first three lines, which concern the timer and are in \<open>Server\<close>; the last
  case is \<open>assert(0)\<close>.
\<close>

definition conn_dispatch ::
  "io \<Rightarrow> gdata \<Rightarrow> conn \<Rightarrow> (gdata \<times> conn \<times> byte list \<times> io) option" where
  "conn_dispatch rs g c =
     (if cstate c = STATE_REQ then state_req rs g c
      else if cstate c = STATE_RES then do {
        (c, sent, rs) \<leftarrow> state_res rs c;
        Some (g, c, sent, rs) }
      else None)"

end
