(* ===== verification/Conn_Refine.thy ===== *)
theory Conn_Refine
  imports Conn Commands_Refine
begin

text \<open>
  What a connection does: the invariant of its buffers, the bytes that are left to send, and the effect
  of each function on them; a whole sequence of requests in the read buffer is answered in order.
\<close>

section \<open>The invariant\<close>

definition wbuf_ok :: "conn \<Rightarrow> bool" where
  "wbuf_ok c \<longleftrightarrow> length (wbuf c) = buf_cap \<and> wbuf_sent c \<le> wbuf_size c \<and> unat (wbuf_size c) \<le> buf_cap"

definition rbuf_ok :: "conn \<Rightarrow> bool" where
  "rbuf_ok c \<longleftrightarrow> length (rbuf c) = buf_cap \<and> unat (rbuf_size c) \<le> buf_cap"

text \<open>
  Between two calls from the event loop: a connection that reads has nothing to send and room to read
  into, one that writes has something to send.
\<close>

definition conn_ok :: "conn \<Rightarrow> bool" where
  "conn_ok c \<longleftrightarrow> wbuf_ok c \<and> rbuf_ok c \<and> cstate c \<in> {STATE_REQ, STATE_RES, STATE_END} \<and>
     (cstate c \<noteq> STATE_END \<longrightarrow> unat (rbuf_size c) < buf_cap) \<and>
     (cstate c = STATE_REQ \<longrightarrow> wbuf_sent c = 0 \<and> wbuf_size c = 0) \<and>
     (cstate c = STATE_RES \<longrightarrow> wbuf_sent c < wbuf_size c)"

text \<open>The bytes of the response that were not passed to \<open>send\<close> yet, and the bytes in the read buffer.\<close>

definition pending :: "conn \<Rightarrow> byte list" where
  "pending c = take (unat (wbuf_size c - wbuf_sent c)) (drop (unat (wbuf_sent c)) (wbuf c))"

definition unread :: "conn \<Rightarrow> byte list" where
  "unread c = take (unat (rbuf_size c)) (rbuf c)"

lemma states_neq [simp]:
  "STATE_REQ \<noteq> STATE_RES" "STATE_RES \<noteq> STATE_REQ" "STATE_REQ \<noteq> STATE_END" "STATE_END \<noteq> STATE_REQ"
  "STATE_RES \<noteq> STATE_END" "STATE_END \<noteq> STATE_RES"
  by (simp_all add: states)

lemma unat_sub: "a \<le> b \<Longrightarrow> unat (b - a :: u64) = unat b - unat a"
  by (simp add: unat_sub_if' word_le_nat_alt)

lemma pending_slice:
  assumes "wbuf_ok c"
  shows "slice_opt (wbuf c) (unat (wbuf_sent c)) (unat (wbuf_size c - wbuf_sent c)) = Some (pending c)"
    and "length (pending c) = unat (wbuf_size c) - unat (wbuf_sent c)"
  using assms by (auto simp: wbuf_ok_def pending_def unat_sub word_le_nat_alt)

lemma length_next_result: "next_result rs = (r, rs') \<Longrightarrow> length rs' \<le> length rs \<and> (r \<noteq> Again \<longrightarrow> length rs' < length rs)"
  by (induction rs rule: next_result.induct) auto

section \<open>Sending\<close>

lemma advance_pending:
  assumes "wbuf_ok c" "k \<le> length (pending c)"
  shows "wbuf_ok (c\<lparr>wbuf_sent := wbuf_sent c + of_nat k\<rparr>)"
    and "pending (c\<lparr>wbuf_sent := wbuf_sent c + of_nat k\<rparr>) = drop k (pending c)"
    and "wbuf_sent c + of_nat k = wbuf_size c \<longleftrightarrow> k = length (pending c)"
proof -
  have le: "unat (wbuf_sent c) \<le> unat (wbuf_size c)" "unat (wbuf_size c) \<le> buf_cap"
    using assms(1) by (auto simp: wbuf_ok_def word_le_nat_alt)
  have k: "k + unat (wbuf_sent c) \<le> unat (wbuf_size c)" using assms(2) pending_slice(2) [OF assms(1)] le by simp
  then have uk: "unat (of_nat k :: u64) = k"
    using le(2) by (simp add: buf_cap_def k_max_msg_def unsigned_of_nat take_bit_nat_eq_self_iff)
  then have s: "unat (wbuf_sent c + of_nat k) = unat (wbuf_sent c) + k"
    using k unat_less_pow2 [of "wbuf_size c"] by (subst unat_add_small) simp_all
  then show "wbuf_ok (c\<lparr>wbuf_sent := wbuf_sent c + of_nat k\<rparr>)"
    using assms(1) k by (simp add: wbuf_ok_def word_le_nat_alt)
  have "unat (wbuf_size c - (wbuf_sent c + of_nat k)) = unat (wbuf_size c - wbuf_sent c) - k"
    using s k le by (simp add: unat_sub word_le_nat_alt)
  then show "pending (c\<lparr>wbuf_sent := wbuf_sent c + of_nat k\<rparr>) = drop k (pending c)"
    using s by (simp add: pending_def drop_take add.commute)
  show "wbuf_sent c + of_nat k = wbuf_size c \<longleftrightarrow> k = length (pending c)"
    using s k le pending_slice(2) [OF assms(1)] by (auto simp: word_unat_eq_iff)
qed

definition flushed :: "conn \<Rightarrow> conn" where
  "flushed c = c\<lparr>wbuf_sent := 0, wbuf_size := 0, cstate := STATE_REQ\<rparr>"

lemma flushed_sel [simp]:
  "cstate (flushed c) = STATE_REQ" "rbuf (flushed c) = rbuf c" "rbuf_size (flushed c) = rbuf_size c"
  "flushed (c\<lparr>wbuf_sent := s\<rparr>) = flushed c" "pending (flushed c) = []" "wbuf (flushed c) = wbuf c"
  "cfd (flushed c) = cfd c" "idle_start (flushed c) = idle_start c" "wbuf_sent (flushed c) = 0" "wbuf_size (flushed c) = 0"
  by (simp_all add: flushed_def pending_def)

lemma try_flush_buffer_cases:
  assumes "wbuf_ok c" "next_result rs = (r, rs')"
  shows "try_flush_buffer rs c = Some (case r of
      Sent k \<Rightarrow> if length (pending c) \<le> k then (False, flushed c, pending c, rs')
               else (True, c\<lparr>wbuf_sent := wbuf_sent c + of_nat k\<rparr>, take k (pending c), rs')
    | Again \<Rightarrow> (False, c, [], rs')
    | _ \<Rightarrow> (False, c\<lparr>cstate := STATE_END\<rparr>, [], rs'))"
proof (cases r)
  case (Sent k)
  show ?thesis
  proof (cases "length (pending c) \<le> k")
    case True
    then show ?thesis
      using Sent assms pending_slice(1) [OF assms(1)] advance_pending(3) [OF assms(1), of "length (pending c)"]
      by (simp add: try_flush_buffer_def flushed_def)
  next
    case False
    then show ?thesis
      using Sent assms pending_slice(1) [OF assms(1)] advance_pending(3) [OF assms(1), of k]
      by (simp add: try_flush_buffer_def)
  qed
qed (use assms pending_slice(1) [OF assms(1)] in \<open>simp_all add: try_flush_buffer_def\<close>)

text \<open>
  \<open>state_res\<close> returns with a prefix of the pending bytes sent: all of them and the connection is ready
  for requests again, or the rest is still pending, with the socket blocked or broken.
\<close>

definition sends :: "conn \<Rightarrow> conn \<Rightarrow> byte list \<Rightarrow> bool" where
  "sends c c' sent \<longleftrightarrow> c' = flushed c \<and> sent = pending c \<or>
     (\<exists>s. c' = c\<lparr>wbuf_sent := s, cstate := cstate c'\<rparr> \<and> (wbuf_sent c < wbuf_size c \<longrightarrow> s < wbuf_size c)) \<and>
     cstate c' \<in> {cstate c, STATE_END} \<and> wbuf_ok c' \<and> pending c = sent @ pending c'"

lemma state_res_sends:
  assumes "wbuf_ok c"
  shows "\<exists>c' sent rs'. state_res rs c = Some (c', sent, rs') \<and> sends c c' sent \<and> length rs' \<le> length rs"
  using assms
proof (induction "length rs" arbitrary: rs c rule: less_induct)
  case less
  obtain r rs' where nr: "next_result rs = (r, rs')" by fastforce
  note f = try_flush_buffer_cases [OF less.prems nr]
  have len: "length rs' \<le> length rs" "r \<noteq> Again \<Longrightarrow> length rs' < length rs" using length_next_result [OF nr] by auto
  have eqc: "c = c\<lparr>wbuf_sent := wbuf_sent c\<rparr>" by simp
  have stop: "\<exists>c' sent rs'. state_res rs c = Some (c', sent, rs') \<and> sends c c' sent \<and> length rs' \<le> length rs"
    if "try_flush_buffer rs c = Some (False, c1, [], rs')" "c1 = c \<or> c1 = c\<lparr>cstate := STATE_END\<rparr>" for c1
  proof -
    have "c1 = c\<lparr>wbuf_sent := wbuf_sent c, cstate := cstate c1\<rparr> \<and> (wbuf_sent c < wbuf_size c \<longrightarrow> wbuf_sent c < wbuf_size c)"
      using that(2) by auto
    moreover have "wbuf_ok c1" "pending c = [] @ pending c1" "cstate c1 \<in> {cstate c, STATE_END}"
      using that(2) less.prems by (auto simp: wbuf_ok_def pending_def)
    ultimately have "sends c c1 []" unfolding sends_def by blast
    then show ?thesis using that(1) len(1) by (subst state_res.simps) auto
  qed
  show ?case
  proof (cases r)
    case (Sent k)
    show ?thesis
    proof (cases "length (pending c) \<le> k")
      case True
      then show ?thesis using f Sent len by (subst state_res.simps) (auto simp: sends_def)
    next
      case False
      let ?c = "c\<lparr>wbuf_sent := wbuf_sent c + of_nat k\<rparr>"
      have k: "k \<le> length (pending c)" using False by simp
      note adv = advance_pending [OF less.prems k]
      from less.hyps [of rs' ?c] adv(1) len Sent obtain c2 sent rs2 where
        i: "state_res rs' ?c = Some (c2, sent, rs2)" "sends ?c c2 sent" "length rs2 \<le> length rs'" by auto
      have lt: "wbuf_sent ?c < wbuf_size ?c"
        using adv(1,3) False by (simp add: wbuf_ok_def less_le)
      have "sends c c2 (take k (pending c) @ sent)"
      proof (cases "c2 = flushed ?c \<and> sent = pending ?c")
        case True
        then show ?thesis using adv(2) by (simp add: sends_def)
      next
        case False
        with i(2) obtain s where s: "c2 = ?c\<lparr>wbuf_sent := s, cstate := cstate c2\<rparr>" "s < wbuf_size ?c"
          "cstate c2 \<in> {cstate ?c, STATE_END}" "wbuf_ok c2" "pending ?c = sent @ pending c2"
          using lt unfolding sends_def by blast
        have "pending c = (take k (pending c) @ sent) @ pending c2"
          using s(5) adv(2) by (metis append.assoc append_take_drop_id)
        moreover have "c2 = c\<lparr>wbuf_sent := s, cstate := cstate c2\<rparr>" using s(1) by (metis conn.surjective conn.update_convs(2,6))
        ultimately show ?thesis using s(2-4) unfolding sends_def by auto
      qed
      then show ?thesis using f Sent False i(1,3) len by (subst state_res.simps) auto
    qed
  qed (use f stop [of c] stop [of "c\<lparr>cstate := STATE_END\<rparr>"] in simp_all)
qed


text \<open>The results of \<open>send\<close> that pass on \<open>n\<close> bytes, with interruptions, and what is left of them.\<close>

inductive flushes :: "io \<Rightarrow> nat \<Rightarrow> io \<Rightarrow> bool" where
  last: "n \<le> k \<Longrightarrow> flushes (Sent k # rs) n rs"
| part: "k < n \<Longrightarrow> flushes rs (n - k) rs' \<Longrightarrow> flushes (Sent k # rs) n rs'"
| intr: "flushes rs n rs' \<Longrightarrow> flushes (Intr # rs) n rs'"

lemma state_res_intr: "state_res (Intr # rs) c = state_res rs c"
proof -
  have "try_flush_buffer (Intr # rs) c = try_flush_buffer rs c" by (simp add: try_flush_buffer_def)
  then show ?thesis by (subst (1 2) state_res.simps) simp
qed

lemma state_res_flushes:
  assumes "flushes rs n rs'" "wbuf_ok c" "length (pending c) = n"
  shows "state_res rs c = Some (flushed c, pending c, rs')"
  using assms
proof (induction arbitrary: c rule: flushes.induct)
  case (last n k rs)
  then show ?case
    using try_flush_buffer_cases [of c "Sent k # rs" "Sent k" rs] by (subst state_res.simps) simp
next
  case (part k n rs rs')
  let ?c = "c\<lparr>wbuf_sent := wbuf_sent c + of_nat k\<rparr>"
  have k: "k \<le> length (pending c)" using part by simp
  note adv = advance_pending [OF part(4) k]
  have "state_res rs ?c = Some (flushed c, drop k (pending c), rs')"
    using part.IH [OF adv(1)] adv(2) part(5) by simp
  then show ?case
    using try_flush_buffer_cases [of c "Sent k # rs" "Sent k" rs] part by (subst state_res.simps) simp
next
  case (intr rs n rs')
  then show ?case by (simp add: state_res_intr)
qed

section \<open>One request\<close>

definition frame :: "byte list \<Rightarrow> byte list" where
  "frame bs = bytes32 (of_nat (length bs)) @ bs"

lemma length_frame [simp]: "length (frame bs) = 4 + length bs"
  by (simp add: frame_def)

lemma length_limit_response: "4 + length (limit_response out) \<le> k_max_msg"
  by (simp add: limit_response_def out_err_def ascii_def k_max_msg_def)

lemma unat_len: "n \<le> k_max_msg \<Longrightarrow> unat (of_nat n :: u32) = n \<and> unat (4 + of_nat n :: u32) = 4 + n \<and>
    unat (of_nat n + 4 :: u32) = 4 + n \<and> unat (ucast (of_nat n :: u32) :: u64) = n"
proof -
  assume n: "n \<le> k_max_msg"
  have a: "unat (of_nat n :: u32) = n" using n by (intro unat_of_nat_32) (simp add: k_max_msg_def)
  then have "unat (4 + of_nat n :: u32) = 4 + n" using n by (subst unat_add_small) (simp_all add: k_max_msg_def)
  moreover have "unat (ucast (of_nat n :: u32) :: u64) = n"
    using a n by (simp add: unsigned_ucast_eq take_bit_nat_eq_self_iff k_max_msg_def)
  ultimately show ?thesis using a by (simp add: add.commute)
qed

lemma put_response_frame:
  assumes "wbuf_ok c" "wbuf_sent c = 0" "4 + length out \<le> k_max_msg"
  shows "\<exists>w n. put_response c out = Some (c\<lparr>wbuf := w, wbuf_size := n\<rparr>) \<and>
    wbuf_ok (c\<lparr>wbuf := w, wbuf_size := n\<rparr>) \<and> pending (c\<lparr>wbuf := w, wbuf_size := n\<rparr>) = frame out \<and> 0 < n"
proof -
  let ?l = "bytes32 (of_nat (length out))"
  have cap: "length (wbuf c) = buf_cap" using assms(1) by (simp add: wbuf_ok_def)
  have 1: "put_at (wbuf c) 0 ?l = Some (?l @ drop 4 (wbuf c))"
    using cap by (simp add: put_at_def buf_cap_def)
  have 2: "put_at (?l @ drop 4 (wbuf c)) 4 out = Some (frame out @ drop (length out) (drop 4 (wbuf c)))"
    using put_at_full [of out "drop 4 (wbuf c)" ?l] cap assms(3) by (simp add: buf_cap_def frame_def)
  let ?n = "ucast (of_nat (length out) + 4 :: u32) :: u64"
  have n: "unat ?n = 4 + length out"
    using unat_len [of "length out"] assms(3) by (simp add: unsigned_ucast_eq take_bit_nat_eq_self_iff k_max_msg_def)
  then have "0 < ?n" by (simp add: word_less_nat_alt)
  then show ?thesis
    using 1 2 n assms cap
    by (intro exI [of _ "frame out @ drop (length out) (drop 4 (wbuf c))"] exI [of _ ?n])
      (simp add: put_response_def wbuf_ok_def pending_def buf_cap_def word_le_nat_alt)
qed

lemma drop_request_rest:
  assumes "rbuf_ok c" "unread c = frame body @ rest" "length body \<le> k_max_msg"
  shows "\<exists>r n. drop_request c (of_nat (length body)) = Some (c\<lparr>rbuf := r, rbuf_size := n\<rparr>) \<and>
    rbuf_ok (c\<lparr>rbuf := r, rbuf_size := n\<rparr>) \<and> unread (c\<lparr>rbuf := r, rbuf_size := n\<rparr>) = rest"
proof -
  note l = unat_len [OF assms(3)]
  have cap: "length (rbuf c) = buf_cap" "unat (rbuf_size c) \<le> buf_cap" using assms(1) by (auto simp: rbuf_ok_def)
  have "length (unread c) = unat (rbuf_size c)" using cap by (simp add: unread_def)
  then have size: "unat (rbuf_size c) = 4 + length body + length rest" using assms(2) by simp
  let ?n = "rbuf_size c - ucast (of_nat (length body) :: u32) - 4 :: u64"
  have "unat (rbuf_size c - ucast (of_nat (length body) :: u32)) = 4 + length rest"
    using l size by (subst unat_sub) (simp_all add: word_le_nat_alt)
  then have n: "unat ?n = length rest" by (subst unat_sub) (simp_all add: word_le_nat_alt)
  have sl: "slice_opt (rbuf c) (4 + length body) (length rest) = Some rest"
  proof -
    have "drop (4 + length body) (unread c) = rest" using assms(2) by (simp add: frame_def)
    then have "take (length rest) (drop (4 + length body) (rbuf c)) = rest"
      using size by (simp add: unread_def drop_take)
    then show ?thesis using size cap by simp
  qed
  show ?thesis
  proof (cases "rest = []")
    case True
    then have "?n = 0" using n by (simp add: unat_eq_0)
    then show ?thesis using True cap
      by (intro exI [of _ "rbuf c"] exI [of _ 0]) (simp add: drop_request_def rbuf_ok_def unread_def)
  next
    case False
    then have "?n > 0" using n by (simp add: word_less_nat_alt)
    moreover have "put_at (rbuf c) 0 rest = Some (rest @ drop (length rest) (rbuf c))"
      using size cap by (simp add: put_at_def)
    ultimately show ?thesis
      using sl n l size cap
      by (intro exI [of _ "rest @ drop (length rest) (rbuf c)"] exI [of _ ?n])
        (simp add: drop_request_def rbuf_ok_def unread_def add.commute)
  qed
qed


text \<open>
  A complete request at the front of the read buffer is parsed and executed, its response framed and
  put into \<open>wbuf\<close>, and the request taken out of \<open>rbuf\<close>; then \<open>state_res\<close> takes over.
\<close>

lemma try_one_request_frame:
  assumes "wbuf_ok c" "wbuf_sent c = 0" "rbuf_ok c" "unread c = frame (payload cmd) @ rest"
    and "length (payload cmd) \<le> k_max_msg" "length cmd \<le> 1024" "do_request g cmd [] = Some (g', out)"
  shows "\<exists>c1. wbuf_ok c1 \<and> wbuf_sent c1 < wbuf_size c1 \<and> rbuf_ok c1 \<and> unread c1 = rest \<and> cstate c1 = STATE_RES \<and>
    pending c1 = frame (limit_response out) \<and> try_one_request rs g c =
      (case state_res rs c1 of None \<Rightarrow> None
       | Some (c2, sent, rs') \<Rightarrow> Some (cstate c2 = STATE_REQ, g', c2, sent, rs'))"
proof -
  let ?n = "length (payload cmd)"
  note l = unat_len [OF assms(5)]
  have cap: "length (rbuf c) = buf_cap" "unat (rbuf_size c) \<le> buf_cap" using assms(3) by (auto simp: rbuf_ok_def)
  have split: "rbuf c = unread c @ drop (unat (rbuf_size c)) (rbuf c)" by (simp add: unread_def)
  have size: "4 \<le> unat (rbuf_size c)"
    using arg_cong [OF assms(4), of length] cap by (simp add: unread_def)
  then have "\<not> rbuf_size c < 4" by (simp add: word_less_nat_alt)
  moreover have "read32 (rbuf c) 0 = Some (of_nat ?n)"
    using read_bytes32 [of "[]" "of_nat ?n"] split assms(4) by (simp add: frame_def) (metis append.assoc append_Nil list.size(3))
  moreover have "drop 4 (rbuf c) = payload cmd @ rest @ drop (unat (rbuf_size c)) (rbuf c)"
    using arg_cong [OF split, of "drop 4"] assms(4) by (simp add: frame_def)
  then have "parse_req (drop 4 (rbuf c)) ?n = Some (Cmd cmd)"
    using parse_req_payload [OF assms(5,6)] by simp
  moreover from put_response_frame [OF assms(1,2) length_limit_response] obtain w n where
    pr: "put_response c (limit_response out) = Some (c\<lparr>wbuf := w, wbuf_size := n\<rparr>)"
      "wbuf_ok (c\<lparr>wbuf := w, wbuf_size := n\<rparr>)" "pending (c\<lparr>wbuf := w, wbuf_size := n\<rparr>) = frame (limit_response out)"
      "0 < n" by blast
  moreover from drop_request_rest [of "c\<lparr>wbuf := w, wbuf_size := n\<rparr>", OF _ _ assms(5)] assms(3,4) obtain r m where
    dr: "drop_request (c\<lparr>wbuf := w, wbuf_size := n\<rparr>) (of_nat ?n) = Some (c\<lparr>wbuf := w, wbuf_size := n, rbuf := r, rbuf_size := m\<rparr>)"
      "rbuf_ok (c\<lparr>wbuf := w, wbuf_size := n, rbuf := r, rbuf_size := m\<rparr>)"
      "unread (c\<lparr>wbuf := w, wbuf_size := n, rbuf := r, rbuf_size := m\<rparr>) = rest"
    by (auto simp: rbuf_ok_def unread_def)
  define c1 where "c1 = c\<lparr>wbuf := w, wbuf_size := n, rbuf := r, rbuf_size := m, cstate := STATE_RES\<rparr>"
  ultimately have "try_one_request rs g c =
      (case state_res rs c1 of None \<Rightarrow> None
       | Some (c2, sent, rs') \<Rightarrow> Some (cstate c2 = STATE_REQ, g', c2, sent, rs'))"
    using assms(5,7) l dr(1) by (simp add: try_one_request_def split: option.split)
  moreover have "wbuf_ok c1" "pending c1 = frame (limit_response out)" "wbuf_sent c1 < wbuf_size c1"
    using pr assms(2) by (simp_all add: c1_def wbuf_ok_def pending_def)
  moreover have "rbuf_ok c1" "unread c1 = rest" using dr by (simp_all add: c1_def rbuf_ok_def unread_def)
  ultimately show ?thesis by (intro exI [of _ c1]) (simp add: c1_def)
qed

section \<open>Pipelined requests\<close>

fun flushes_all :: "io \<Rightarrow> nat list \<Rightarrow> io \<Rightarrow> bool" where
  "flushes_all rs [] rs' \<longleftrightarrow> rs' = rs"
| "flushes_all rs (n # ns) rs' \<longleftrightarrow> (\<exists>rs1. flushes rs n rs1 \<and> flushes_all rs1 ns rs')"

abbreviation responses :: "byte list list \<Rightarrow> byte list list" where
  "responses outs \<equiv> map (\<lambda>out. frame (limit_response out)) outs"

definition fits :: "byte list list \<Rightarrow> bool" where
  "fits cmd \<longleftrightarrow> length (payload cmd) \<le> k_max_msg \<and> length cmd \<le> 1024"

text \<open>What the loop makes of bytes that are no whole request: it stops in a connection with \<open>Q\<close>.\<close>

definition ends_with :: "byte list \<Rightarrow> (conn \<Rightarrow> bool) \<Rightarrow> bool" where
  "ends_with rest Q \<longleftrightarrow> (\<forall>c g rs. wbuf_ok c \<and> wbuf_sent c = 0 \<and> wbuf_size c = 0 \<and> rbuf_ok c \<and>
     cstate c = STATE_REQ \<and> unread c = rest \<longrightarrow> (\<exists>c'. request_loop rs g c = Some (g, c', [], rs) \<and> Q c'))"

lemma ends_short:
  assumes "length rest < 4"
  shows "ends_with rest (\<lambda>c'. conn_ok c' \<and> cstate c' = STATE_REQ \<and> unread c' = rest)"
  unfolding ends_with_def
proof (intro allI impI, elim conjE)
  fix c g rs
  assume c: "wbuf_ok c" "wbuf_sent c = 0" "wbuf_size c = 0" "rbuf_ok c" "cstate c = STATE_REQ" "unread c = rest"
  have l: "length (unread c) = unat (rbuf_size c)" using c(4) by (simp add: unread_def rbuf_ok_def)
  then have "rbuf_size c < 4" using c(6) assms by (simp add: word_less_nat_alt)
  moreover from this have "unat (rbuf_size c) < buf_cap" using l c(6) assms by (simp add: buf_cap_def)
  ultimately show "\<exists>c'. request_loop rs g c = Some (g, c', [], rs) \<and> conn_ok c' \<and> cstate c' = STATE_REQ \<and> unread c' = rest"
    using c by (subst request_loop.simps) (auto simp: try_one_request_def conn_ok_def)
qed

lemma request_loop_ends:
  assumes "wbuf_ok c" "wbuf_sent c = 0" "wbuf_size c = 0" "rbuf_ok c" "cstate c = STATE_REQ"
    and "unread c = concat (map (\<lambda>cmd. frame (payload cmd)) cmds) @ rest" "ends_with rest Q"
    and "\<forall>cmd \<in> set cmds. fits cmd" "run_requests g cmds = Some (g', outs)"
    and "flushes_all rs (map length (responses outs)) rs'"
  shows "\<exists>c'. request_loop rs g c = Some (g', c', concat (responses outs), rs') \<and> Q c'"
  using assms
proof (induction cmds arbitrary: g c rs outs)
  case Nil
  then show ?case unfolding ends_with_def by auto
next
  case (Cons cmd cmds)
  let ?rest = "concat (map (\<lambda>cmd. frame (payload cmd)) cmds) @ rest"
  from Cons.prems(9) obtain g1 out outs' where o: "do_request g cmd [] = Some (g1, out)"
    "run_requests g1 cmds = Some (g', outs')" "outs = out # outs'" by (auto simp: bind_eq_Some_conv)
  have fit: "length (payload cmd) \<le> k_max_msg" "length cmd \<le> 1024" using Cons.prems(8) by (simp_all add: fits_def)
  have u: "unread c = frame (payload cmd) @ ?rest" using Cons.prems(6) by simp
  from try_one_request_frame [OF Cons.prems(1,2,4) u fit o(1)] obtain c1 where
    c1: "wbuf_ok c1" "rbuf_ok c1" "unread c1 = ?rest" "pending c1 = frame (limit_response out)"
      "try_one_request rs g c = (case state_res rs c1 of None \<Rightarrow> None
       | Some (c2, sent, rs') \<Rightarrow> Some (cstate c2 = STATE_REQ, g1, c2, sent, rs'))" by blast
  from Cons.prems(10) o(3) obtain rs1 where
    fl: "flushes rs (length (pending c1)) rs1" "flushes_all rs1 (map length (responses outs')) rs'" by (auto simp: c1(4))
  have s: "state_res rs c1 = Some (flushed c1, pending c1, rs1)" by (rule state_res_flushes [OF fl(1) c1(1) refl])
  have "wbuf_ok (flushed c1)" "rbuf_ok (flushed c1)" "unread (flushed c1) = ?rest"
    using c1(1-3) by (simp_all add: wbuf_ok_def rbuf_ok_def unread_def)
  with Cons.IH [of "flushed c1" g1 outs' rs1] o(2) fl(2) Cons.prems(7,8) obtain c' where
    i: "request_loop rs1 g1 (flushed c1) = Some (g', c', concat (responses outs'), rs')"
      "Q c'" by auto
  then show ?case using c1(4,5) s o(3) by (subst request_loop.simps) auto
qed

lemma state_req_ends:
  assumes "conn_ok c" "cstate c = STATE_REQ"
    and "unread c @ bs = concat (map (\<lambda>cmd. frame (payload cmd)) cmds) @ rest" "ends_with rest Q"
    and "bs \<noteq> []" "length (unread c @ bs) \<le> buf_cap"
    and "\<forall>cmd \<in> set cmds. fits cmd" "run_requests g cmds = Some (g', outs)"
    and "flushes_all rs (map length (responses outs)) rs'"
  shows "\<exists>c'. conn_dispatch (Got bs # rs) g c = Some (g', c', concat (responses outs), rs') \<and> Q c'"
proof -
  have ok: "wbuf_ok c" "wbuf_sent c = 0" "wbuf_size c = 0" "length (rbuf c) = buf_cap" "unat (rbuf_size c) < buf_cap"
    using assms(1,2) by (auto simp: conn_ok_def rbuf_ok_def)
  have l: "length (unread c) = unat (rbuf_size c)" using ok by (simp add: unread_def)
  have cap: "unat (of_nat buf_cap :: u64) = buf_cap" by (simp add: buf_cap_def k_max_msg_def)
  then have lt: "rbuf_size c < of_nat buf_cap" using ok by (simp add: word_less_nat_alt)
  then have room: "unat (of_nat buf_cap - rbuf_size c) = buf_cap - unat (rbuf_size c)"
    using cap by (simp add: unat_sub)
  have bl: "length bs \<le> buf_cap - unat (rbuf_size c)" using assms(6) l by simp
  have n: "unat (of_nat (length bs) :: u64) = length bs"
    using bl by (simp add: buf_cap_def k_max_msg_def unsigned_of_nat take_bit_nat_eq_self_iff)
  let ?r = "take (unat (rbuf_size c)) (rbuf c) @ bs @ drop (unat (rbuf_size c) + length bs) (rbuf c)"
  let ?c = "c\<lparr>rbuf := ?r, rbuf_size := rbuf_size c + of_nat (length bs)\<rparr>"
  have put: "put_at (rbuf c) (unat (rbuf_size c)) bs = Some ?r" using ok bl by (simp add: put_at_def)
  have size: "unat (rbuf_size c + of_nat (length bs)) = unat (rbuf_size c) + length bs"
    using n bl ok(5) by (subst unat_add_small) (simp_all add: buf_cap_def k_max_msg_def)
  have "unread ?c = unread c @ bs" using size l ok bl by (simp add: unread_def)
  moreover have "rbuf_ok ?c" using size ok bl by (simp add: rbuf_ok_def)
  moreover have "wbuf_ok ?c" using ok by (simp add: wbuf_ok_def)
  ultimately obtain c' where
    "request_loop rs g ?c = Some (g', c', concat (responses outs), rs')"
    "Q c'"
    using request_loop_ends [of ?c cmds rest Q g g' outs rs rs'] ok assms by auto
  moreover from this have "try_fill_buffer (Got bs # rs) g c = Some (False, g', c', concat (responses outs), rs')"
    using lt room bl put assms(5) by (simp add: try_fill_buffer_def)
  ultimately show ?thesis
    using assms(2) by (simp add: conn_dispatch_def) (subst state_req.simps, auto)
qed

lemma state_req_serves:
  assumes "conn_ok c" "cstate c = STATE_REQ"
    and "unread c @ bs = concat (map (\<lambda>cmd. frame (payload cmd)) cmds) @ rest" "length rest < 4"
    and "bs \<noteq> []" "length (unread c @ bs) \<le> buf_cap"
    and "\<forall>cmd \<in> set cmds. fits cmd" "run_requests g cmds = Some (g', outs)"
    and "flushes_all rs (map length (responses outs)) rs'"
  shows "\<exists>c'. conn_dispatch (Got bs # rs) g c = Some (g', c', concat (responses outs), rs') \<and>
    conn_ok c' \<and> cstate c' = STATE_REQ \<and> unread c' = rest"
  using state_req_ends [OF assms(1-3) ends_short [OF assms(4)] assms(5-)] .

section \<open>Requests that are rejected\<close>

text \<open>
  The parser reads at most four bytes behind the message: on a buffer that has them it always returns,
  whatever the bytes are.
\<close>

lemma parse_args_total: "len + 4 \<le> length data \<Longrightarrow> parse_args data len n pos out \<noteq> None"
  by (induction data len n pos out rule: parse_args.induct)
    (auto simp: read32_def slice_opt_def bind_eq_None_conv)

lemma parse_req_total: "len + 4 \<le> length data \<Longrightarrow> parse_req data len \<noteq> None"
  using parse_args_total by (auto simp: parse_req_def read32_def slice_opt_def)

text \<open>A frame that holds no command, or a length that is too large.\<close>

definition malformed :: "byte list \<Rightarrow> bool" where
  "malformed b \<longleftrightarrow> length b + 4 \<le> k_max_msg \<and> (\<forall>cmd. fits cmd \<longrightarrow> b \<noteq> payload cmd)"

definition rejected :: "byte list \<Rightarrow> bool" where
  "rejected bs \<longleftrightarrow> (\<exists>b more. bs = frame b @ more \<and> malformed b) \<or> (\<exists>w. read32 bs 0 = Some w \<and> k_max_msg < unat w)"

lemma parse_malformed:
  assumes "malformed b" "length data = k_max_msg" "take (length b) data = b"
  shows "parse_req data (length b) = Some Bad_req"
proof -
  have "length b + 4 \<le> length data" using assms(1,2) by (simp add: malformed_def)
  then obtain p where p: "parse_req data (length b) = Some p" using parse_req_total by fastforce
  have "False" if "p = Cmd cmd" for cmd
  proof -
    have "length b < 2 ^ 31" using assms(1) by (simp add: malformed_def k_max_msg_def)
    with parse_req_sound [of data "length b" cmd] p that assms(3)
    have "b = payload cmd" "length cmd \<le> 1024" by auto
    moreover from this have "fits cmd" using assms(1) by (simp add: malformed_def fits_def)
    ultimately show False using assms(1) unfolding malformed_def by blast
  qed
  with p show ?thesis by (cases p) auto
qed

lemma ends_rejected:
  assumes "rejected rest"
  shows "ends_with rest (\<lambda>c'. cstate c' = STATE_END)"
  unfolding ends_with_def
proof (intro allI impI, elim conjE)
  fix c g rs
  assume c: "rbuf_ok c" "cstate c = STATE_REQ" "unread c = rest"
  have l: "length rest = unat (rbuf_size c)" "length (rbuf c) = buf_cap" using c by (auto simp: unread_def rbuf_ok_def)
  have split: "rbuf c = rest @ drop (unat (rbuf_size c)) (rbuf c)" using c(3) by (simp flip: c(3) add: unread_def)
  have close: "\<exists>c'. request_loop rs g c = Some (g, c', [], rs) \<and> cstate c' = STATE_END"
    if "try_one_request rs g c = Some (False, g, c\<lparr>cstate := STATE_END\<rparr>, [], rs)"
    using that by (subst request_loop.simps) simp
  from assms show "\<exists>c'. request_loop rs g c = Some (g, c', [], rs) \<and> cstate c' = STATE_END"
    unfolding rejected_def
  proof (elim disjE exE conjE)
    fix b more
    assume b: "rest = frame b @ more" "malformed b"
    have n: "length b \<le> k_max_msg" using b(2) by (simp add: malformed_def)
    have size: "\<not> rbuf_size c < 4" using l(1) b(1) by (simp add: word_less_nat_alt)
    have len: "read32 (rbuf c) 0 = Some (of_nat (length b))"
      using read_bytes32 [of "[]" "of_nat (length b)" "b @ more @ drop (unat (rbuf_size c)) (rbuf c)"] split b(1)
      by (simp add: frame_def)
    have "drop 4 (rbuf c) = b @ more @ drop (unat (rbuf_size c)) (rbuf c)"
      by (subst split) (simp add: b(1) frame_def)
    then have "take (length b) (drop 4 (rbuf c)) = b" by simp
    moreover have "length (drop 4 (rbuf c)) = k_max_msg" using l(2) by (simp add: buf_cap_def)
    ultimately have "parse_req (drop 4 (rbuf c)) (length b) = Some Bad_req" by (intro parse_malformed [OF b(2)])
    with size len show ?thesis using n unat_len [OF n] by (intro close) (simp add: try_one_request_def)
  next
    fix w
    assume w: "read32 rest 0 = Some w" "k_max_msg < unat w"
    then have "4 \<le> length rest" by (auto simp: read32_def slice_opt_def split: if_splits)
    then have "\<not> rbuf_size c < 4" using l(1) by (simp add: word_less_nat_alt)
    moreover have "read32 (rbuf c) 0 = Some w"
      using w(1) split by (metis read32_append)
    ultimately show ?thesis using w(2) by (intro close) (simp add: try_one_request_def)
  qed
qed

section \<open>Keeping the invariant\<close>

text \<open>The count of remaining bytes when the request is not complete.\<close>

lemma remain_wraps:
  fixes len :: u32 and n :: u64
  assumes "unat len \<le> k_max_msg" "unat n < 4 + unat len"
  shows "unat (n - ucast len - 4) = 2 ^ 64 - (4 + unat len - unat n)"
proof -
  define m where "m = (ucast len + 4 :: u64)"
  have "unat (ucast len :: u64) = unat len"
    using assms(1) by (simp add: unsigned_ucast_eq take_bit_nat_eq_self_iff k_max_msg_def)
  then have m: "unat m = unat len + 4"
    using assms(1) unfolding m_def by (subst unat_add_small) (simp_all add: k_max_msg_def)
  then have "\<not> m \<le> n" using assms(2) by (simp add: word_le_nat_alt)
  then have "unat (n - m) = unat n + 2 ^ 64 - unat m" by (simp add: unat_sub_if' word_le_nat_alt)
  then show ?thesis using m assms(2) unfolding m_def by (simp add: diff_diff_eq)
qed

text \<open>
  Taking a request out of the read buffer is defined only when the buffer has all of it: otherwise the
  count of remaining bytes wraps around and \<open>memmove\<close> runs out of the buffer.
\<close>

lemma drop_request_Some:
  assumes "rbuf_ok c" "unat len \<le> k_max_msg" "drop_request c len = Some c1"
  shows "\<exists>r n. c1 = c\<lparr>rbuf := r, rbuf_size := n\<rparr> \<and> length r = buf_cap \<and> unat len + 4 + unat n = unat (rbuf_size c)"
proof -
  have cap: "length (rbuf c) = buf_cap" "unat (rbuf_size c) \<le> buf_cap" using assms(1) by (auto simp: rbuf_ok_def)
  define m where "m = (ucast len + 4 :: u64)"
  have ul: "unat (ucast len :: u64) = unat len"
    using assms(2) by (simp add: unsigned_ucast_eq take_bit_nat_eq_self_iff k_max_msg_def)
  then have m: "unat m = unat len + 4"
    using assms(2) unfolding m_def by (subst unat_add_small) (simp_all add: k_max_msg_def)
  have rem: "rbuf_size c - ucast len - 4 = rbuf_size c - m" by (simp add: m_def)
  have len4: "unat (len + 4) = unat len + 4"
    using assms(2) by (subst unat_add_small) (simp_all add: k_max_msg_def)
  show ?thesis
  proof (cases "m \<le> rbuf_size c")
    case True
    then have "unat len + 4 + unat (rbuf_size c - m) = unat (rbuf_size c)"
      using m by (simp add: unat_sub word_le_nat_alt)
    moreover obtain r where "c1 = c\<lparr>rbuf := r, rbuf_size := rbuf_size c - m\<rparr>" "length r = length (rbuf c)"
    proof (cases "rbuf_size c - m > 0")
      case True
      with assms(3) show ?thesis
        unfolding drop_request_def Let_def rem by (auto simp: bind_eq_Some_conv intro: that dest: length_put_at)
    next
      case False
      with assms(3) have "c1 = c\<lparr>rbuf := rbuf c, rbuf_size := rbuf_size c - m\<rparr>"
        unfolding drop_request_def Let_def rem by simp
      then show ?thesis by (rule that) simp
    qed
    ultimately show ?thesis using cap(1) by auto
  next
    case False
    then have big: "unat (rbuf_size c - m) = 2 ^ 64 + unat (rbuf_size c) - unat m"
      by (simp add: unat_sub_if' word_le_nat_alt)
    have lt: "unat (rbuf_size c) < unat m" using False by (simp add: word_le_nat_alt)
    then have "unat (rbuf_size c - m) > buf_cap"
      using big m assms(2) by (simp add: buf_cap_def k_max_msg_def)
    moreover from this have "rbuf_size c - m > 0" by (simp add: word_less_nat_alt)
    ultimately have "drop_request c len = None"
      using cap(1) unfolding drop_request_def Let_def rem len4 by (simp add: slice_opt_def)
    then show ?thesis using assms(3) by simp
  qed
qed

text \<open>The fields the event loop relies on: descriptor and time stamp.\<close>

definition same_id :: "conn \<Rightarrow> conn \<Rightarrow> bool" where
  "same_id c c' \<longleftrightarrow> cfd c' = cfd c \<and> idle_start c' = idle_start c"

lemma same_id_refl [simp]: "same_id c c"
  by (simp add: same_id_def)

lemma same_id_trans: "same_id c c' \<Longrightarrow> same_id c' c'' \<Longrightarrow> same_id c c''"
  by (simp add: same_id_def)

lemma same_id_sends:
  assumes "sends c c' sent"
  shows "same_id c c'"
proof (cases "c' = flushed c")
  case False
  with assms obtain s where s: "c' = c\<lparr>wbuf_sent := s, cstate := cstate c'\<rparr>" unfolding sends_def by auto
  show ?thesis unfolding same_id_def by (subst (1 2) s) simp
qed (simp add: same_id_def)

lemma try_one_request_ok:
  assumes "wbuf_ok c" "rbuf_ok c" "cstate c = STATE_REQ" "wbuf_sent c = 0" "wbuf_size c = 0"
    and "try_one_request rs g c = Some (b, g', c', sent, rs')"
  shows "if b then wbuf_ok c' \<and> rbuf_ok c' \<and> cstate c' = STATE_REQ \<and> wbuf_sent c' = 0 \<and> wbuf_size c' = 0 \<and>
      unat (rbuf_size c') < unat (rbuf_size c) else conn_ok c'" (is ?ok) and "same_id c c'"
proof -
  have "?ok \<and> same_id c c'"
  proof (cases "rbuf_size c < 4")
    case True
    then show ?thesis using assms by (auto simp: try_one_request_def conn_ok_def buf_cap_def word_less_nat_alt)
  next
    case False
    have stop: "conn_ok (c\<lparr>cstate := STATE_END\<rparr>)" "same_id c (c\<lparr>cstate := STATE_END\<rparr>)"
      using assms(1,2) by (simp_all add: conn_ok_def wbuf_ok_def rbuf_ok_def same_id_def)
    from assms(6) False obtain len where len: "read32 (rbuf c) 0 = Some len"
      by (auto simp: try_one_request_def bind_eq_Some_conv)
    show ?thesis
    proof (cases "unat len > k_max_msg")
      case True
      then show ?thesis using assms(6) False len stop by (auto simp: try_one_request_def)
    next
      case small: False
      from assms(6) False len small obtain p where p: "parse_req (drop 4 (rbuf c)) (unat len) = Some p"
        by (auto simp: try_one_request_def bind_eq_Some_conv)
      show ?thesis
      proof (cases p)
        case Bad_req
        then show ?thesis using assms(6) False len small p stop by (auto simp: try_one_request_def)
      next
        case (Cmd cmd)
        from assms(6) False len small p Cmd obtain out c1 c2 where
          s: "do_request g cmd [] = Some (g', out)" "put_response c (limit_response out) = Some c1"
            "drop_request c1 len = Some c2" "state_res rs (c2\<lparr>cstate := STATE_RES\<rparr>) = Some (c', sent, rs')"
            "b \<longleftrightarrow> cstate c' = STATE_REQ"
          by (auto simp: try_one_request_def bind_eq_Some_conv)
        from put_response_frame [OF assms(1,4) length_limit_response, of out] s(2) obtain w n where
          c1: "c1 = c\<lparr>wbuf := w, wbuf_size := n\<rparr>" "wbuf_ok c1" "0 < n" by auto
        have "rbuf_ok c1" using assms(2) c1(1) by (simp add: rbuf_ok_def)
        from drop_request_Some [OF this _ s(3)] small obtain r m where
          c2: "c2 = c1\<lparr>rbuf := r, rbuf_size := m\<rparr>" "length r = buf_cap" "unat len + 4 + unat m = unat (rbuf_size c1)" by auto
        let ?c = "c2\<lparr>cstate := STATE_RES\<rparr>"
        have w: "wbuf_ok ?c" "wbuf_sent ?c < wbuf_size ?c" using c1 c2 assms(4) by (simp_all add: wbuf_ok_def)
        from state_res_sends [OF w(1), of rs] s(4) have sends: "sends ?c c' sent" by auto
        have id: "same_id c c'"
          using same_id_sends [OF sends] c1(1) c2(1) by (simp add: same_id_def)
        have size: "unat m < unat (rbuf_size c)" "unat (rbuf_size c) \<le> buf_cap"
          using c1(1) c2(3) assms(2) by (auto simp: rbuf_ok_def)
        show ?thesis
        proof (cases "c' = flushed ?c")
          case True
          then show ?thesis using s(5) c1 c2(1,2) size w(1) id by (simp add: wbuf_ok_def rbuf_ok_def)
        next
          case False
          with sends w(2) obtain t where t: "c' = ?c\<lparr>wbuf_sent := t, cstate := cstate c'\<rparr>" "t < wbuf_size ?c"
            "cstate c' \<in> {STATE_RES, STATE_END}" "wbuf_ok c'" unfolding sends_def by auto
          have "rbuf c' = r" "rbuf_size c' = m" "wbuf_sent c' = t" "wbuf_size c' = wbuf_size ?c"
            by (subst t(1), simp add: c2(1))+
          then have "conn_ok c' \<and> cstate c' \<noteq> STATE_REQ"
            using t(2-4) c2(2) size by (auto simp: conn_ok_def rbuf_ok_def)
          then show ?thesis using s(5) id by simp
        qed
      qed
    qed
  qed
  then show ?ok and "same_id c c'" by blast+
qed


lemma request_loop_ok:
  assumes "wbuf_ok c" "rbuf_ok c" "cstate c = STATE_REQ" "wbuf_sent c = 0" "wbuf_size c = 0"
    and "request_loop rs g c = Some (g', c', sent, rs')"
  shows "conn_ok c' \<and> same_id c c'"
  using assms
proof (induction "unat (rbuf_size c)" arbitrary: c rs g sent rule: less_induct)
  case less
  from less.prems(6) obtain b g1 c1 sent1 rs1 where t: "try_one_request rs g c = Some (b, g1, c1, sent1, rs1)"
    by (subst (asm) request_loop.simps) (auto simp: bind_eq_Some_conv)
  note ok = try_one_request_ok [OF less.prems(1-5) t]
  show ?case
  proof (cases b)
    case True
    then obtain sent2 where "request_loop rs1 g1 c1 = Some (g', c', sent2, rs')"
      using less.prems(6) t by (subst (asm) request_loop.simps) (auto simp: bind_eq_Some_conv)
    with less.hyps [of c1] ok True show ?thesis by (auto intro: same_id_trans)
  next
    case False
    then have "c' = c1" using less.prems(6) t by (subst (asm) request_loop.simps) auto
    with ok False show ?thesis by simp
  qed
qed

lemma conn_ok_end: "conn_ok c \<Longrightarrow> conn_ok (c\<lparr>cstate := STATE_END\<rparr>) \<and> same_id c (c\<lparr>cstate := STATE_END\<rparr>)"
  by (simp add: conn_ok_def wbuf_ok_def rbuf_ok_def same_id_def)

lemma try_fill_buffer_ok:
  assumes "conn_ok c" "cstate c = STATE_REQ" "try_fill_buffer rs g c = Some (b, g', c', sent, rs')"
  shows "conn_ok c' \<and> \<not> b \<and> same_id c c'"
proof -
  obtain r rs1 where nr: "next_result rs = (r, rs1)" by fastforce
  have lt: "rbuf_size c < of_nat buf_cap" using assms(3) by (auto simp: try_fill_buffer_def split: if_splits)
  show ?thesis
  proof (cases r)
    case (Got bs)
    show ?thesis
    proof (cases "bs = []")
      case False
      let ?cap = "of_nat buf_cap - rbuf_size c :: u64"
      let ?got = "take (unat ?cap) bs"
      from assms(3) nr Got False lt obtain rb rs2 where f: "put_at (rbuf c) (unat (rbuf_size c)) ?got = Some rb"
        "request_loop rs2 g (c\<lparr>rbuf := rb, rbuf_size := rbuf_size c + of_nat (length ?got)\<rparr>) = Some (g', c', sent, rs')" "\<not> b"
        by (auto simp: try_fill_buffer_def bind_eq_Some_conv Let_def)
      have size: "unat (rbuf_size c) < buf_cap" "length (rbuf c) = buf_cap"
        using assms(1,2) by (auto simp: conn_ok_def rbuf_ok_def)
      define k where "k = length ?got"
      have bl: "unat (rbuf_size c) + k \<le> buf_cap"
        using f(1) size unfolding k_def by (auto simp: put_at_def split: if_splits)
      then have "k < 2 ^ 64" by (simp add: buf_cap_def k_max_msg_def)
      then have n: "unat (of_nat k :: u64) = k" by (simp add: unsigned_of_nat take_bit_nat_eq_self_iff)
      have "unat (rbuf_size c + of_nat k) = unat (rbuf_size c) + k"
        using bl n by (subst unat_add_small) (simp_all add: buf_cap_def k_max_msg_def)
      then have "rbuf_ok (c\<lparr>rbuf := rb, rbuf_size := rbuf_size c + of_nat (length ?got)\<rparr>)"
        using bl size length_put_at [OF f(1)] unfolding k_def [symmetric] by (simp add: rbuf_ok_def)
      moreover have "wbuf_ok (c\<lparr>rbuf := rb, rbuf_size := rbuf_size c + of_nat (length ?got)\<rparr>)"
        using assms(1) by (simp add: conn_ok_def wbuf_ok_def)
      ultimately have "conn_ok c' \<and> same_id (c\<lparr>rbuf := rb, rbuf_size := rbuf_size c + of_nat (length ?got)\<rparr>) c'"
        using assms(1,2) by (intro request_loop_ok [OF _ _ _ _ _ f(2)]) (auto simp: conn_ok_def)
      with f(3) show ?thesis by (simp add: same_id_def)
    qed (use assms nr Got lt conn_ok_end in \<open>auto simp: try_fill_buffer_def\<close>)
  qed (use assms nr lt conn_ok_end in \<open>auto simp: try_fill_buffer_def\<close>)
qed

lemma conn_dispatch_ok:
  assumes "conn_ok c" "conn_dispatch rs g c = Some (g', c', sent, rs')"
  shows "conn_ok c' \<and> same_id c c'"
proof (cases "cstate c = STATE_REQ")
  case True
  then have "state_req rs g c = Some (g', c', sent, rs')" using assms(2) by (simp add: conn_dispatch_def)
  then obtain b g1 c1 sent1 rs1 where t: "try_fill_buffer rs g c = Some (b, g1, c1, sent1, rs1)"
    by (subst (asm) state_req.simps) (auto simp: bind_eq_Some_conv)
  from try_fill_buffer_ok [OF assms(1) True t] have "conn_ok c1" "\<not> b" "same_id c c1" by auto
  with \<open>state_req rs g c = Some (g', c', sent, rs')\<close> t show ?thesis by (subst (asm) state_req.simps) auto
next
  case False
  then have res: "cstate c = STATE_RES" "state_res rs c = Some (c', sent, rs')"
    using assms(2) by (auto simp: conn_dispatch_def bind_eq_Some_conv split: if_splits)
  have w: "wbuf_ok c" "wbuf_sent c < wbuf_size c" using assms(1) res(1) by (auto simp: conn_ok_def)
  from state_res_sends [OF w(1), of rs] res(2) have "sends c c' sent" by auto
  then show ?thesis
  proof (cases "c' = flushed c")
    case True
    then show ?thesis using assms(1) res(1) by (simp add: conn_ok_def wbuf_ok_def rbuf_ok_def same_id_def)
  next
    case False
    with \<open>sends c c' sent\<close> w(2) obtain s where s: "c' = c\<lparr>wbuf_sent := s, cstate := cstate c'\<rparr>" "s < wbuf_size c"
      "cstate c' \<in> {cstate c, STATE_END}" "wbuf_ok c'" unfolding sends_def by auto
    have "rbuf c' = rbuf c" "rbuf_size c' = rbuf_size c" "wbuf_sent c' = s" "wbuf_size c' = wbuf_size c"
      by (subst s(1), simp)+
    then show ?thesis using s(2-4) assms(1) res(1) same_id_sends [OF \<open>sends c c' sent\<close>]
      by (auto simp: conn_ok_def rbuf_ok_def)
  qed
qed


lemma conn_new_ok:
  assumes "length rb = buf_cap" "length wb = buf_cap"
  shows "conn_ok (conn_new connfd now rb wb)" "cstate (conn_new connfd now rb wb) = STATE_REQ"
    "unread (conn_new connfd now rb wb) = []"
  using assms by (simp_all add: conn_new_def conn_ok_def wbuf_ok_def rbuf_ok_def unread_def buf_cap_def)

section \<open>Properties of connections\<close>

text \<open>The connection of the witnesses.\<close>

definition conn0 :: conn where
  "conn0 = conn_new 5 0 (replicate buf_cap 0) (replicate buf_cap 0)"

lemma conn0_ok: "conn_ok conn0" "cstate conn0 = STATE_REQ" "unread conn0 = []"
  unfolding conn0_def by (rule conn_new_ok; simp)+

text \<open>
  C7. Whole messages, good or bad.  When one \<open>recv\<close> completes any number of well-formed requests, with at
  most three bytes behind them or with a message that is malformed or too long, and \<open>send\<close> accepts the
  responses, in pieces and with interruptions, then the event is handled completely: every request is
  executed, the framed responses are sent in the order of the requests, and the connection waits for
  the next request with exactly the rest in its buffer, or is closed because of the bad message.
\<close>

theorem conn_serves_messages:
  assumes "conn_ok c" "cstate c = STATE_REQ"
    and "unread c @ bs = concat (map (\<lambda>cmd. frame (payload cmd)) cmds) @ rest" "length rest < 4 \<or> rejected rest"
    and "bs \<noteq> []" "length (unread c @ bs) \<le> buf_cap"
    and "\<forall>cmd \<in> set cmds. fits cmd" "run_requests g cmds = Some (g', outs)"
    and "flushes_all rs (map length (responses outs)) rs'"
  shows "\<exists>c'. conn_dispatch (Got bs # rs) g c = Some (g', c', concat (responses outs), rs') \<and>
    (if length rest < 4 then conn_ok c' \<and> cstate c' = STATE_REQ \<and> unread c' = rest else cstate c' = STATE_END)"
  using state_req_ends [OF assms(1-3) ends_short assms(5-)] state_req_ends [OF assms(1-3) ends_rejected assms(5-)] assms(4)
  by auto

theorem conn_serves_messages_witness:
  "\<exists>c'. conn_dispatch [Got (frame (payload []) @ frame [7]), Intr, Sent 4096] gdata0 conn0 =
    Some (gdata0, c', frame (reply_bytes (err_reply ERR_UNKNOWN ''Unknown cmd'')), []) \<and> cstate c' = STATE_END"
proof -
  let ?out = "reply_bytes (err_reply ERR_UNKNOWN ''Unknown cmd'')"
  have r: "run_requests gdata0 [[]] = Some (gdata0, [?out])"
    by (simp add: do_request_def err_reply_def out_err_def)
  have l: "limit_response ?out = ?out" "length ?out \<le> 4092"
    by (simp_all add: limit_response_def err_reply_def ascii_def k_max_msg_def)
  then have fl: "flushes_all [Intr, Sent 4096] (map length (responses [?out])) []"
    by (auto intro!: flushes.intr flushes.last)
  have "malformed [7]" by (auto simp: malformed_def k_max_msg_def dest: arg_cong [where f = length] simp: length_payload)
  then have "rejected (frame [7])" unfolding rejected_def by (metis append_Nil2)
  moreover have "\<not> length (frame [7]) < 4" by simp
  ultimately show ?thesis
    using conn_serves_messages [OF conn0_ok(1,2) _ _ _ _ _ r fl, of "frame (payload []) @ frame [7]" "frame [7]"] l(1)
    by (auto simp: conn0_ok(3) buf_cap_def k_max_msg_def fits_def payload_def frame_def)
qed

text \<open>
  The invariant of a connection.  Whatever the sockets do and whatever bytes come in, when the
  handling of an event returns, the buffers are within their bounds again, a connection that reads has
  no response left and room in its read buffer (the assertion in \<open>try_fill_buffer\<close>), one that writes has
  bytes left to send.
\<close>

theorem conn_dispatch_keeps_invariant:
  assumes "conn_ok c" "conn_dispatch rs g c = Some (g', c', sent, rs')"
  shows "conn_ok c'"
  using conn_dispatch_ok [OF assms] by blast

theorem conn_dispatch_keeps_invariant_witness:
  "conn_dispatch [Eof] gdata0 conn0 = Some (gdata0, conn0\<lparr>cstate := STATE_END\<rparr>, [], []) \<and>
    conn_ok (conn0\<lparr>cstate := STATE_END\<rparr>)"
proof -
  have "rbuf_size conn0 < of_nat buf_cap" by (simp add: conn0_def conn_new_def buf_cap_def k_max_msg_def)
  then have "conn_dispatch [Eof] gdata0 conn0 = Some (gdata0, conn0\<lparr>cstate := STATE_END\<rparr>, [], [])"
    using conn0_ok(2) by (simp add: conn_dispatch_def) (subst state_req.simps, simp add: try_fill_buffer_def)
  from this conn_dispatch_keeps_invariant [OF conn0_ok(1) this] show ?thesis by blast
qed



text \<open>
  C38. A request that has not arrived completely is not waited for.  With its length and only a part of
  its body in the read buffer, \<open>try_one_request\<close> parses what the buffer happens to hold behind the part; for
  a length of at most 4092 the parser always returns.  When these bytes are no command, the connection is
  closed.  When they are one, it is executed, if that returns the response is put into the write buffer,
  and then the count of remaining bytes wraps around: \<open>memmove\<close> is called with a count close to \<open>2 ^ 64\<close>,
  which runs out of the read buffer.
\<close>

theorem partial_request_not_awaited:
  assumes "wbuf_ok c" "wbuf_sent c = 0" "rbuf_ok c" "4 \<le> rbuf_size c" "read32 (rbuf c) 0 = Some len"
    and "unat len \<le> k_max_msg" "unat (rbuf_size c) < 4 + unat len"
  shows "(unat len + 4 \<le> k_max_msg \<longrightarrow> parse_req (drop 4 (rbuf c)) (unat len) \<noteq> None) \<and>
    (parse_req (drop 4 (rbuf c)) (unat len) = Some Bad_req \<longrightarrow>
      try_one_request rs g c = Some (False, g, c\<lparr>cstate := STATE_END\<rparr>, [], rs)) \<and>
    (\<forall>cmd g' out. parse_req (drop 4 (rbuf c)) (unat len) = Some (Cmd cmd) \<and> do_request g cmd [] = Some (g', out) \<longrightarrow>
      (\<exists>c1. put_response c (limit_response out) = Some c1 \<and> pending c1 = frame (limit_response out) \<and>
        unat (rbuf_size c1 - ucast len - 4) = 2 ^ 64 - (4 + unat len - unat (rbuf_size c)) \<and>
        slice_opt (rbuf c1) (unat (len + 4)) (unat (rbuf_size c1 - ucast len - 4)) = None \<and>
        drop_request c1 len = None) \<and>
      try_one_request rs g c = None)"
proof (intro conjI allI impI)
  have cap: "length (drop 4 (rbuf c)) = k_max_msg" using assms(3) by (simp add: rbuf_ok_def buf_cap_def)
  show "parse_req (drop 4 (rbuf c)) (unat len) \<noteq> None" if "unat len + 4 \<le> k_max_msg"
    using parse_req_total that cap by simp
  show "try_one_request rs g c = Some (False, g, c\<lparr>cstate := STATE_END\<rparr>, [], rs)"
    if "parse_req (drop 4 (rbuf c)) (unat len) = Some Bad_req"
    using that assms(4-6) by (simp add: try_one_request_def)
  fix cmd g' out
  assume p: "parse_req (drop 4 (rbuf c)) (unat len) = Some (Cmd cmd) \<and> do_request g cmd [] = Some (g', out)"
  from put_response_frame [OF assms(1,2) length_limit_response] obtain w n where
    pr: "put_response c (limit_response out) = Some (c\<lparr>wbuf := w, wbuf_size := n\<rparr>)"
      "pending (c\<lparr>wbuf := w, wbuf_size := n\<rparr>) = frame (limit_response out)" by blast
  let ?c1 = "c\<lparr>wbuf := w, wbuf_size := n\<rparr>"
  have count: "unat (rbuf_size c - ucast len - 4) = 2 ^ 64 - (4 + unat len - unat (rbuf_size c))"
    by (rule remain_wraps [OF assms(6,7)])
  then have out: "slice_opt (rbuf ?c1) (unat (len + 4)) (unat (rbuf_size ?c1 - ucast len - 4)) = None"
    using assms(3,6) by (simp add: slice_opt_def rbuf_ok_def buf_cap_def k_max_msg_def)
  have "0 < rbuf_size c - ucast len - 4"
    unfolding word_less_nat_alt count using assms(6) by (simp add: k_max_msg_def)
  then have drop: "drop_request ?c1 len = None" using out by (simp add: drop_request_def)
  show "\<exists>c1. put_response c (limit_response out) = Some c1 \<and> pending c1 = frame (limit_response out) \<and>
      unat (rbuf_size c1 - ucast len - 4) = 2 ^ 64 - (4 + unat len - unat (rbuf_size c)) \<and>
      slice_opt (rbuf c1) (unat (len + 4)) (unat (rbuf_size c1 - ucast len - 4)) = None \<and> drop_request c1 len = None"
    using pr count out drop by (intro exI [of _ ?c1]) simp
  show "try_one_request rs g c = None"
    using p pr(1) drop assms(4-6) by (simp add: try_one_request_def)
qed

text \<open>
  In the witness four bytes have arrived, the length of a request.  With the length 9 the zeros behind it
  are no command; with the length 4 they are the empty one.
\<close>

theorem partial_request_not_awaited_witness:
  "try_one_request [] gdata0 (conn0\<lparr>rbuf := bytes32 9 @ replicate 4096 0, rbuf_size := 4\<rparr>) =
     Some (False, gdata0, conn0\<lparr>rbuf := bytes32 9 @ replicate 4096 0, rbuf_size := 4, cstate := STATE_END\<rparr>, [], []) \<and>
   (\<exists>c1. put_response (conn0\<lparr>rbuf := bytes32 4 @ replicate 4096 0, rbuf_size := 4\<rparr>)
       (reply_bytes (err_reply ERR_UNKNOWN ''Unknown cmd'')) = Some c1 \<and>
     unat (rbuf_size c1 - 4 - 4) = 2 ^ 64 - 4 \<and> drop_request c1 4 = None) \<and>
   try_one_request [] gdata0 (conn0\<lparr>rbuf := bytes32 4 @ replicate 4096 0, rbuf_size := 4\<rparr>) = None"
proof -
  let ?c = "\<lambda>n. conn0\<lparr>rbuf := bytes32 n @ replicate 4096 0, rbuf_size := 4\<rparr>"
  let ?out = "reply_bytes (err_reply ERR_UNKNOWN ''Unknown cmd'')"
  have len: "read32 (rbuf (?c n)) 0 = Some n" for n using read_bytes32 [of "[]"] by simp
  have "wbuf_ok conn0" "wbuf_sent conn0 = 0" using conn0_ok(1,2) by (simp_all add: conn_ok_def)
  then have ok: "wbuf_ok (?c n)" "wbuf_sent (?c n) = 0" "rbuf_ok (?c n)" "4 \<le> rbuf_size (?c n)" for n
    by (simp_all add: wbuf_ok_def rbuf_ok_def buf_cap_def k_max_msg_def)
  have zeros: "read32 (replicate 4096 0) 0 = Some 0" by (simp add: read32_def slice_opt_def) code_simp
  have nine: "parse_req (drop 4 (rbuf (?c 9))) (unat (9 :: u32)) = Some Bad_req"
    using zeros by (simp add: parse_req_def parse_args.simps)
  have four: "parse_req (drop 4 (rbuf (?c 4))) (unat (4 :: u32)) = Some (Cmd [])"
    using zeros by (simp add: parse_req_def parse_args.simps)
  have r: "do_request gdata0 [] [] = Some (gdata0, ?out)"
    by (simp add: do_request_def err_reply_def out_err_def)
  have l: "limit_response ?out = ?out"
    by (simp add: limit_response_def err_reply_def ascii_def k_max_msg_def)
  have small: "unat (9 :: u32) \<le> k_max_msg" "unat (4 :: u32) \<le> k_max_msg" by (simp_all add: k_max_msg_def)
  have short: "unat (rbuf_size (?c n)) < 4 + unat m" if "0 < unat m" for n and m :: u32 using that by simp
  show ?thesis
    using partial_request_not_awaited [OF ok len small(1) short, of "[]" gdata0] nine
      partial_request_not_awaited [OF ok len small(2) short, of "[]" gdata0] four r l
    by auto
qed

text \<open>The events of a connection, one after the other, until it is closed.\<close>

fun conn_events :: "io list \<Rightarrow> gdata \<Rightarrow> conn \<Rightarrow> (gdata \<times> conn \<times> byte list) option" where
  "conn_events [] g c = Some (g, c, [])"
| "conn_events (rs # evs) g c =
     (if cstate c = STATE_END then Some (g, c, [])
      else do {
        (g, c, sent, _) \<leftarrow> conn_dispatch rs g c;
        (g, c, sent') \<leftarrow> conn_events evs g c;
        Some (g, c, sent @ sent') })"

text \<open>In such an event the client sends nothing; it may have gone.\<close>

definition no_bytes :: "io \<Rightarrow> bool" where
  "no_bytes rs \<longleftrightarrow> (\<forall>bs. fst (next_result rs) = Got bs \<longrightarrow> bs = [])"

lemma dispatch_no_bytes:
  assumes "conn_ok c" "cstate c = STATE_REQ" "no_bytes rs"
  shows "\<exists>c' rs'. conn_dispatch rs g c = Some (g, c', [], rs') \<and> (c' = c \<or> c' = c\<lparr>cstate := STATE_END\<rparr>) \<and>
    (fst (next_result rs) = Again \<longrightarrow> c' = c)"
proof -
  obtain r rs' where nr: "next_result rs = (r, rs')" by fastforce
  have "unat (rbuf_size c) < buf_cap" using assms(1,2) by (auto simp: conn_ok_def)
  then have "rbuf_size c < of_nat buf_cap" by (simp add: word_less_nat_alt buf_cap_def k_max_msg_def)
  then have "\<exists>c'. try_fill_buffer rs g c = Some (False, g, c', [], rs') \<and> (c' = c \<or> c' = c\<lparr>cstate := STATE_END\<rparr>) \<and>
    (fst (next_result rs) = Again \<longrightarrow> c' = c)"
    using nr assms(3) by (cases r) (auto simp: try_fill_buffer_def no_bytes_def)
  then show ?thesis using assms(2)
    by (simp add: conn_dispatch_def) (subst state_req.simps, auto)
qed

lemma events_no_bytes:
  assumes "conn_ok c" "cstate c = STATE_REQ" "\<forall>rs \<in> set evs. no_bytes rs"
  shows "\<exists>c'. conn_events evs g c = Some (g, c', []) \<and> (c' = c \<or> c' = c\<lparr>cstate := STATE_END\<rparr>) \<and>
    ((\<forall>rs \<in> set evs. fst (next_result rs) = Again) \<longrightarrow> c' = c)"
  using assms(3)
proof (induction evs)
  case (Cons rs evs)
  from dispatch_no_bytes [OF assms(1,2), of rs g] Cons.prems obtain c1 rs' where
    d: "conn_dispatch rs g c = Some (g, c1, [], rs')" "c1 = c \<or> c1 = c\<lparr>cstate := STATE_END\<rparr>"
      "fst (next_result rs) = Again \<longrightarrow> c1 = c" by auto
  show ?case
  proof (cases "c1 = c")
    case True
    with Cons d(1) assms(2) show ?thesis by auto
  next
    case False
    with d assms(2) show ?thesis by (cases evs) auto
  qed
qed simp

text \<open>
  C39. Requests that were already read wait until the client sends more.  When a response that was blocked
  has been sent completely, no request is taken out of the read buffer and executed, however many are in
  it, in this event and in any number of further events in which the client sends nothing: the keyspace
  and the unread bytes stay, and nothing is sent.  The connection stays open when the client only keeps
  silent; then its next bytes, even if they complete no request, bring the execution of all of them.
\<close>

theorem pipelined_requests_stall:
  assumes "conn_ok c" "cstate c = STATE_RES" "flushes rs (length (pending c)) rs'" "\<forall>rs \<in> set evs. no_bytes rs"
  shows "\<exists>c'. conn_events (rs # evs) g c = Some (g, c', pending c) \<and> unread c' = unread c \<and>
    cstate c' \<in> {STATE_REQ, STATE_END} \<and>
    ((\<forall>rs \<in> set evs. fst (next_result rs) = Again) \<longrightarrow> cstate c' = STATE_REQ) \<and>
    (\<forall>bs cmds rest g' outs ws ws'. cstate c' = STATE_REQ \<and> bs \<noteq> [] \<and>
      unread c @ bs = concat (map (\<lambda>cmd. frame (payload cmd)) cmds) @ rest \<and> length rest < 4 \<and>
      length (unread c @ bs) \<le> buf_cap \<and> (\<forall>cmd \<in> set cmds. fits cmd) \<and> run_requests g cmds = Some (g', outs) \<and>
      flushes_all ws (map length (responses outs)) ws' \<longrightarrow>
      (\<exists>c''. conn_dispatch (Got bs # ws) g c' = Some (g', c'', concat (responses outs), ws') \<and> unread c'' = rest))"
proof -
  let ?c = "flushed c"
  have ok: "conn_ok ?c" "cstate ?c = STATE_REQ" "unread ?c = unread c"
    using assms(1,2) by (auto simp: conn_ok_def wbuf_ok_def rbuf_ok_def unread_def)
  have "wbuf_ok c" using assms(1) by (simp add: conn_ok_def)
  from state_res_flushes [OF assms(3) this refl] have d: "conn_dispatch rs g c = Some (g, ?c, pending c, rs')"
    using assms(2) by (simp add: conn_dispatch_def)
  from events_no_bytes [OF ok(1,2) assms(4)] obtain c' where
    e: "conn_events evs g ?c = Some (g, c', [])" "c' = ?c \<or> c' = ?c\<lparr>cstate := STATE_END\<rparr>"
      "(\<forall>rs \<in> set evs. fst (next_result rs) = Again) \<longrightarrow> c' = ?c" by blast
  then have again: "(\<forall>rs \<in> set evs. fst (next_result rs) = Again) \<longrightarrow> cstate c' = STATE_REQ" by simp
  have "unread c' = unread c" using e(2) ok(3) by (auto simp: unread_def)
  moreover have st: "cstate c' \<in> {STATE_REQ, STATE_END}" "cstate c' = STATE_REQ \<longrightarrow> c' = ?c" using e(2) by auto
  moreover have "conn_events (rs # evs) g c = Some (g, c', pending c)" using d e(1) assms(2) by simp
  moreover have "\<exists>c''. conn_dispatch (Got bs # ws) g c' = Some (g', c'', concat (responses outs), ws') \<and> unread c'' = rest"
    if "cstate c' = STATE_REQ" "bs \<noteq> []" "unread c @ bs = concat (map (\<lambda>cmd. frame (payload cmd)) cmds) @ rest"
      "length rest < 4" "length (unread c @ bs) \<le> buf_cap" "\<forall>cmd \<in> set cmds. fits cmd"
      "run_requests g cmds = Some (g', outs)" "flushes_all ws (map length (responses outs)) ws'"
    for bs cmds rest g' outs ws ws'
  proof -
    have "c' = ?c" using st(2) that(1) by simp
    with state_req_serves [OF ok(1,2), unfolded ok(3), OF that(3,4,2,5-8)] show ?thesis by blast
  qed
  ultimately show ?thesis using again by (intro exI [of _ c'] conjI) blast+
qed

text \<open>
  In the witness five bytes of a response are blocked and a whole request is in the read buffer: it is not
  executed when the response is sent, nor later, until two more bytes come.
\<close>

theorem pipelined_requests_stall_witness:
  "\<exists>c' c''. conn_events [[Sent 9], [], []] gdata0 (conn0\<lparr>cstate := STATE_RES, wbuf_size := 5,
      rbuf := frame (payload []) @ replicate 4092 0, rbuf_size := 8\<rparr>) = Some (gdata0, c', replicate 5 0) \<and>
    cstate c' = STATE_REQ \<and> unread c' = frame (payload []) \<and>
    conn_dispatch [Got [1, 2], Sent 4096] gdata0 c' =
      Some (gdata0, c'', frame (reply_bytes (err_reply ERR_UNKNOWN ''Unknown cmd'')), []) \<and> unread c'' = [1, 2]"
proof -
  let ?c = "conn0\<lparr>cstate := STATE_RES, wbuf_size := 5, rbuf := frame (payload []) @ replicate 4092 0, rbuf_size := 8\<rparr>"
  let ?out = "reply_bytes (err_reply ERR_UNKNOWN ''Unknown cmd'')"
  have p: "length (payload []) = 4" by (simp add: length_payload)
  have c: "conn_ok ?c" "pending ?c = replicate 5 0" "cstate ?c = STATE_RES" "unread ?c = frame (payload [])"
    using p by (simp_all add: conn0_def conn_new_def conn_ok_def wbuf_ok_def rbuf_ok_def pending_def unread_def
      buf_cap_def k_max_msg_def)
  have r: "run_requests gdata0 [[]] = Some (gdata0, [?out])"
    by (simp add: do_request_def err_reply_def out_err_def)
  have l: "limit_response ?out = ?out" "length ?out \<le> 4092"
    by (simp_all add: limit_response_def err_reply_def ascii_def k_max_msg_def)
  then have fl: "flushes_all [Sent 4096] (map length (responses [?out])) []" by (auto intro!: flushes.last)
  have "flushes [Sent 9] (length (pending ?c)) []" "\<forall>rs \<in> set [[], []]. no_bytes rs"
    unfolding c(2) by (auto intro: flushes.last simp: no_bytes_def)
  from pipelined_requests_stall [OF c(1,3) this, of gdata0] obtain c' where
    s: "conn_events [[Sent 9], [], []] gdata0 ?c = Some (gdata0, c', replicate 5 0)" "unread c' = frame (payload [])"
      "(\<forall>rs \<in> set [[], []]. fst (next_result rs) = Again) \<longrightarrow> cstate c' = STATE_REQ"
      "\<forall>bs cmds rest g' outs ws ws'. cstate c' = STATE_REQ \<and> bs \<noteq> [] \<and>
      unread ?c @ bs = concat (map (\<lambda>cmd. frame (payload cmd)) cmds) @ rest \<and> length rest < 4 \<and>
      length (unread ?c @ bs) \<le> buf_cap \<and> (\<forall>cmd \<in> set cmds. fits cmd) \<and> run_requests gdata0 cmds = Some (g', outs) \<and>
      flushes_all ws (map length (responses outs)) ws' \<longrightarrow>
      (\<exists>c''. conn_dispatch (Got bs # ws) gdata0 c' = Some (g', c'', concat (responses outs), ws') \<and> unread c'' = rest)"
    unfolding c(2,4) by blast
  have "cstate c' = STATE_REQ" using s(3) by simp
  with s(4) [rule_format, of "[1, 2]" "[[]]" "[1, 2]" gdata0 "[?out]" "[Sent 4096]" "[]"] r fl l(1) p s(1,2)
  show ?thesis unfolding c(4) by (auto simp: fits_def buf_cap_def k_max_msg_def)
qed

end
