(* ===== verification/Conn_Stream.thy ===== *)
theory Conn_Stream
  imports Conn_Refine
begin

text \<open>
  A connection as a transducer of byte streams.  Whatever the socket does, an event that returns has
  executed exactly the requests whose encodings stand at the front of the bytes received, in their order
  and nothing else, and the framed replies are, in the same order, what was sent and what is pending.
\<close>

section \<open>One request\<close>

abbreviation requests :: "byte list list list \<Rightarrow> byte list list" where
  "requests cmds \<equiv> map (\<lambda>cmd. frame (payload cmd)) cmds"

lemma state_update_sel [simp]:
  "unread (c\<lparr>cstate := s\<rparr>) = unread c" "pending (c\<lparr>cstate := s\<rparr>) = pending c"
  by (simp_all add: unread_def pending_def)

lemma sends_pending: "sends c c' sent \<Longrightarrow> pending c = sent @ pending c'"
  by (auto simp: sends_def)

lemma sends_unread:
  assumes "sends c c' sent"
  shows "unread c' = unread c"
proof (cases "c' = flushed c")
  case False
  with assms obtain s where s: "c' = c\<lparr>wbuf_sent := s, cstate := cstate c'\<rparr>" unfolding sends_def by auto
  show ?thesis unfolding unread_def by (subst (1 2) s) simp
qed (simp add: unread_def)

lemma unread_prefix:
  assumes "rbuf_ok c" "n \<le> unat (rbuf_size c)"
  shows "take n (rbuf c) = take n (unread c)"
  using assms by (simp add: unread_def min_absorb1)

text \<open>
  The request that \<open>try_one_request\<close> executes was received completely: \<open>parse_req\<close> accepts exact
  encodings only, and taking a longer one out of the buffer fails.
\<close>

lemma try_one_request_stream:
  assumes "wbuf_ok c" "rbuf_ok c" "wbuf_sent c = 0" "wbuf_size c = 0"
    and "try_one_request rs g c = Some (b, g', c', sent, rs')"
  shows "\<not> b \<and> g' = g \<and> unread c' = unread c \<and> sent = [] \<and> pending c' = [] \<and>
      (cstate c' = STATE_END \<or> c' = c \<and> length (unread c) < 4) \<or>
    (\<exists>cmd out. fits cmd \<and> do_request g cmd [] = Some (g', out) \<and>
      unread c = frame (payload cmd) @ unread c' \<and> frame (limit_response out) = sent @ pending c' \<and>
      (b \<longleftrightarrow> cstate c' = STATE_REQ))"
    (is "?stop \<or> ?go")
proof (cases "rbuf_size c < 4")
  case True
  then show ?thesis using assms by (auto simp: try_one_request_def pending_def unread_def word_less_nat_alt rbuf_ok_def)
next
  case False
  have none_left: "pending c = []" using assms(3,4) by (simp add: pending_def)
  from assms(5) False obtain len where len: "read32 (rbuf c) 0 = Some len"
    by (auto simp: try_one_request_def bind_eq_Some_conv)
  show ?thesis
  proof (cases "\<not> unat len > k_max_msg \<and> (\<exists>cmd. parse_req (drop 4 (rbuf c)) (unat len) = Some (Cmd cmd))")
    case stop: False
    have "\<not> b \<and> g' = g \<and> c' = c\<lparr>cstate := STATE_END\<rparr> \<and> sent = []"
    proof (cases "unat len > k_max_msg")
      case True
      then show ?thesis using assms(5) False len by (auto simp: try_one_request_def)
    next
      case small: False
      then obtain p where p: "parse_req (drop 4 (rbuf c)) (unat len) = Some p"
        using assms(5) False len by (auto simp: try_one_request_def bind_eq_Some_conv)
      then have "parse_req (drop 4 (rbuf c)) (unat len) = Some Bad_req" using stop small by (cases p) auto
      then show ?thesis using assms(5) False len small by (auto simp: try_one_request_def)
    qed
    then have e: "\<not> b" "g' = g" "sent = []" and c': "c' = c\<lparr>cstate := STATE_END\<rparr>" by auto
    have "pending c' = []" "unread c' = unread c" "cstate c' = STATE_END" unfolding c' by (simp_all add: none_left)
    with e have ?stop by blast
    then show ?thesis ..
  next
    case True
    then obtain cmd where small: "unat len \<le> k_max_msg" and p: "parse_req (drop 4 (rbuf c)) (unat len) = Some (Cmd cmd)"
      by auto
    from assms(5) False len small p obtain out c1 c2 where
      s: "do_request g cmd [] = Some (g', out)" "put_response c (limit_response out) = Some c1"
        "drop_request c1 len = Some c2" "state_res rs (c2\<lparr>cstate := STATE_RES\<rparr>) = Some (c', sent, rs')"
        "b \<longleftrightarrow> cstate c' = STATE_REQ"
      by (auto simp: try_one_request_def bind_eq_Some_conv)
    from parse_req_sound [OF p] small have pl: "unat len = length (payload cmd)"
      "take (unat len) (drop 4 (rbuf c)) = payload cmd" "length cmd \<le> 1024" by (auto simp: k_max_msg_def)
    from put_response_frame [OF assms(1,3) length_limit_response, of out] s(2) obtain w n where
      c1: "c1 = c\<lparr>wbuf := w, wbuf_size := n\<rparr>" "wbuf_ok c1" "pending c1 = frame (limit_response out)" by auto
    have r1: "rbuf_ok c1" "unread c1 = unread c" using assms(2) c1(1) by (simp_all add: rbuf_ok_def unread_def)
    from drop_request_Some [OF r1(1) small s(3)] obtain m where m: "unat len + 4 + m = unat (rbuf_size c1)" by auto
    then have long: "4 + unat len \<le> unat (rbuf_size c)" using c1(1) by simp
    have "take (4 + unat len) (rbuf c) = take 4 (rbuf c) @ take (unat len) (drop 4 (rbuf c))" by (rule take_add)
    also have "\<dots> = bytes32 len @ payload cmd" using read32_bytes [OF len] pl(2) by simp
    also have "\<dots> = frame (payload cmd)" by (simp add: frame_def flip: pl(1))
    finally have u: "unread c = frame (payload cmd) @ drop (4 + unat len) (unread c)"
      using unread_prefix [OF assms(2) long] by (metis append_take_drop_id)
    have lenw: "of_nat (length (payload cmd)) = len" by (simp flip: pl(1))
    from drop_request_rest [OF r1(1)] u r1(2) small pl(1) lenw s(3) have
      c2: "unread c2 = drop (4 + unat len) (unread c)" "\<exists>r n. c2 = c1\<lparr>rbuf := r, rbuf_size := n\<rparr>" by fastforce+
    let ?c = "c2\<lparr>cstate := STATE_RES\<rparr>"
    from c2(2) c1 have w: "wbuf_ok ?c" "pending ?c = frame (limit_response out)"
      by (auto simp: wbuf_ok_def pending_def)
    from state_res_sends [OF w(1), of rs] s(4) have sends: "sends ?c c' sent" by auto
    have "unread c' = unread c2" using sends_unread [OF sends] by (simp add: unread_def)
    then have ?go using s(1,5) pl(1,3) small u c2(1) sends_pending [OF sends] w(2)
      by (intro exI [of _ cmd] exI [of _ out]) (auto simp: fits_def)
    then show ?thesis ..
  qed
qed

section \<open>A whole event\<close>

text \<open>
  What one event does between the read buffers, keyspaces and bytes to send: \<open>got\<close> came in, \<open>sent\<close> went
  out.
\<close>

definition transduces :: "gdata \<Rightarrow> conn \<Rightarrow> byte list \<Rightarrow> gdata \<Rightarrow> conn \<Rightarrow> byte list \<Rightarrow> bool" where
  "transduces g c got g' c' sent \<longleftrightarrow>
     (\<exists>cmds outs. (\<forall>cmd \<in> set cmds. fits cmd) \<and> run_requests g cmds = Some (g', outs) \<and>
        unread c @ got = concat (requests cmds) @ unread c' \<and>
        pending c @ concat (responses outs) = sent @ pending c')"

lemma transduces_nothing: "unread c' = unread c \<Longrightarrow> pending c = sent @ pending c' \<Longrightarrow> transduces g c [] g c' sent"
  unfolding transduces_def by (intro exI [of _ "[]"]) simp

lemma transduces_request:
  assumes "fits cmd" "do_request g cmd [] = Some (g1, out)" "unread c = frame (payload cmd) @ unread c1"
    and "pending c = []" "frame (limit_response out) = sent @ pending c1"
    and "transduces g1 c1 [] g' c' sent'"
  shows "transduces g c [] g' c' (sent @ sent')"
proof -
  from assms(6) obtain cmds outs where "\<forall>cmd \<in> set cmds. fits cmd" "run_requests g1 cmds = Some (g', outs)"
    "unread c1 = concat (requests cmds) @ unread c'" "pending c1 @ concat (responses outs) = sent' @ pending c'"
    unfolding transduces_def by auto
  then show ?thesis using assms(1-5) unfolding transduces_def
    by (intro exI [of _ "cmd # cmds"] exI [of _ "out # outs"]) auto
qed

lemma request_loop_stream:
  assumes "wbuf_ok c" "rbuf_ok c" "cstate c = STATE_REQ" "wbuf_sent c = 0" "wbuf_size c = 0"
    and "request_loop rs g c = Some (g', c', sent, rs')"
  shows "transduces g c [] g' c' sent \<and> (cstate c' = STATE_REQ \<longrightarrow> length (unread c') < 4)"
  using assms
proof (induction "unat (rbuf_size c)" arbitrary: c rs g sent rule: less_induct)
  case less
  from less.prems(6) obtain b g1 c1 sent1 rs1 where t: "try_one_request rs g c = Some (b, g1, c1, sent1, rs1)"
    by (subst (asm) request_loop.simps) (auto simp: bind_eq_Some_conv)
  note ok = try_one_request_ok [OF less.prems(1-5) t]
  have p: "pending c = []" using less.prems(4,5) by (simp add: pending_def)
  show ?case
  proof (cases b)
    case True
    then obtain sent2 where l: "request_loop rs1 g1 c1 = Some (g', c', sent2, rs')" "sent = sent1 @ sent2"
      using less.prems(6) t by (subst (asm) request_loop.simps) (auto simp: bind_eq_Some_conv)
    with less.hyps [of c1] ok True have "transduces g1 c1 [] g' c' sent2"
      "cstate c' = STATE_REQ \<longrightarrow> length (unread c') < 4" by auto
    with try_one_request_stream [OF less.prems(1,2,4,5) t] True l(2) p show ?thesis
      by (blast intro: transduces_request)
  next
    case False
    then have l: "c' = c1" "g' = g1" "sent = sent1" using less.prems(6) t by (subst (asm) request_loop.simps, auto)+
    from try_one_request_stream [OF less.prems(1,2,4,5) t] False show ?thesis
    proof (elim disjE exE conjE)
      fix cmd out
      assume "fits cmd" "do_request g cmd [] = Some (g1, out)" "unread c = frame (payload cmd) @ unread c1"
        "frame (limit_response out) = sent1 @ pending c1" "b \<longleftrightarrow> cstate c1 = STATE_REQ"
      moreover have "transduces g1 c1 [] g1 c1 []" by (rule transduces_nothing) simp_all
      ultimately show ?thesis using transduces_request [of cmd g g1 out c c1 sent1 g1 c1 "[]"] p l False by simp
    qed (use p l in \<open>auto intro: transduces_nothing\<close>)
  qed
qed

text \<open>The bytes that \<open>recv\<close> hands to a connection in an event.\<close>

definition received :: "io \<Rightarrow> conn \<Rightarrow> byte list" where
  "received rs c = (if cstate c = STATE_REQ
     then case fst (next_result rs) of Got bs \<Rightarrow> take (buf_cap - length (unread c)) bs | _ \<Rightarrow> [] else [])"

lemma try_fill_buffer_stream:
  assumes "conn_ok c" "cstate c = STATE_REQ" "try_fill_buffer rs g c = Some (b, g', c', sent, rs')"
  shows "transduces g c (received rs c) g' c' sent \<and>
    (cstate c' = STATE_REQ \<longrightarrow> received rs c = [] \<and> c' = c \<or> length (unread c') < 4)"
proof -
  obtain r rs1 where nr: "next_result rs = (r, rs1)" by fastforce
  have lt: "rbuf_size c < of_nat buf_cap" using assms(3) by (auto simp: try_fill_buffer_def split: if_splits)
  have size: "unat (rbuf_size c) < buf_cap" "length (rbuf c) = buf_cap"
    using assms(1,2) by (auto simp: conn_ok_def rbuf_ok_def)
  have p: "pending c = []" using assms(1,2) by (simp add: conn_ok_def pending_def)
  have idle: "transduces g c [] g c []" "transduces g c [] g (c\<lparr>cstate := STATE_END\<rparr>) []"
    by (simp_all add: transduces_nothing)
  show ?thesis
  proof (cases "\<exists>bs. r = Got bs \<and> bs \<noteq> []")
    case False
    then have "received rs c = []" using nr by (auto simp: received_def split: io_result.split)
    moreover from False have "g' = g \<and> sent = [] \<and> (c' = c \<or> c' = c\<lparr>cstate := STATE_END\<rparr>)"
      using assms(3) nr lt by (cases r) (auto simp: try_fill_buffer_def Let_def)
    ultimately show ?thesis using idle by auto
  next
    case True
    then obtain bs where bs: "r = Got bs" "bs \<noteq> []" by blast
    let ?cap = "of_nat buf_cap - rbuf_size c :: u64"
    have lu: "length (unread c) = unat (rbuf_size c)" using size by (simp add: unread_def)
    have "unat (of_nat buf_cap :: u64) = buf_cap" by (simp add: buf_cap_def k_max_msg_def)
    then have room: "unat ?cap = buf_cap - unat (rbuf_size c)" using lt by (simp add: unat_sub)
    define got where "got = take (unat ?cap) bs"
    have got: "got = received rs c" using nr bs(1) assms(2) lu room by (simp add: received_def got_def)
    from assms(3) nr bs lt obtain rb rs2 where f: "put_at (rbuf c) (unat (rbuf_size c)) got = Some rb"
      "request_loop rs2 g (c\<lparr>rbuf := rb, rbuf_size := rbuf_size c + of_nat (length got)\<rparr>) = Some (g', c', sent, rs')"
      by (auto simp: try_fill_buffer_def bind_eq_Some_conv Let_def got_def)
    let ?c = "c\<lparr>rbuf := rb, rbuf_size := rbuf_size c + of_nat (length got)\<rparr>"
    have gl: "unat (rbuf_size c) + length got \<le> buf_cap" using room size(1) by (simp add: got_def)
    then have "unat (of_nat (length got) :: u64) = length got"
      by (simp add: buf_cap_def k_max_msg_def unsigned_of_nat take_bit_nat_eq_self_iff)
    then have n: "unat (rbuf_size c + of_nat (length got)) = unat (rbuf_size c) + length got"
      using gl by (subst unat_add_small) (simp_all add: buf_cap_def k_max_msg_def)
    have rb: "length rb = buf_cap" "take (unat (rbuf_size c) + length got) rb = unread c @ got"
      using f(1) size gl by (auto simp: put_at_def unread_def split: if_splits)
    then have c: "rbuf_ok ?c" "unread ?c = unread c @ got" using gl n by (simp_all add: rbuf_ok_def unread_def)
    moreover have "wbuf_ok ?c" using assms(1) by (simp add: conn_ok_def wbuf_ok_def)
    ultimately have t: "transduces g ?c [] g' c' sent" "cstate c' = STATE_REQ \<longrightarrow> length (unread c') < 4"
      using request_loop_stream [OF _ _ _ _ _ f(2)] assms(1,2) by (auto simp: conn_ok_def)
    have "pending ?c = pending c" by (simp add: pending_def)
    then have "transduces g c got g' c' sent" using t(1) c(2) by (simp add: transduces_def)
    with t(2) got show ?thesis by auto
  qed
qed

lemma conn_dispatch_stream:
  assumes "conn_ok c" "conn_dispatch rs g c = Some (g', c', sent, rs')"
  shows "transduces g c (received rs c) g' c' sent \<and>
    (cstate c' = STATE_REQ \<longrightarrow> received rs c = [] \<and> unread c' = unread c \<or> length (unread c') < 4)"
proof (cases "cstate c = STATE_REQ")
  case True
  then have "state_req rs g c = Some (g', c', sent, rs')" using assms(2) by (simp add: conn_dispatch_def)
  moreover from this obtain b g1 c1 sent1 rs1 where t: "try_fill_buffer rs g c = Some (b, g1, c1, sent1, rs1)"
    by (subst (asm) state_req.simps) (auto simp: bind_eq_Some_conv)
  moreover from try_fill_buffer_ok [OF assms(1) True t] have "\<not> b" by blast
  ultimately have "g' = g1" "c' = c1" "sent = sent1" by (subst (asm) state_req.simps, simp)+
  with try_fill_buffer_stream [OF assms(1) True t] show ?thesis by auto
next
  case False
  then have res: "g' = g" "state_res rs c = Some (c', sent, rs')"
    using assms(2) by (auto simp: conn_dispatch_def bind_eq_Some_conv split: if_splits)
  have "wbuf_ok c" using assms(1) by (simp add: conn_ok_def)
  from state_res_sends [OF this, of rs] res(2) have s: "sends c c' sent" by auto
  have "received rs c = []" using False by (simp add: received_def)
  then show ?thesis using transduces_nothing [OF sends_unread [OF s] sends_pending [OF s]] sends_unread [OF s] res(1) by simp
qed

section \<open>The property\<close>

text \<open>
  C6. An event executes the requests it received, in order and nothing else.  Whatever the socket does and
  whatever bytes come in, when the handling of an event returns, the connection is well-formed, the bytes
  in the read buffer with those received are the encodings of the executed commands followed by what the
  buffer holds now, and the framed replies to these commands are, behind the bytes that were pending,
  exactly what was sent followed by what is pending now.  When the connection goes on reading, nothing
  was received or less than the length of a request is left.
\<close>

theorem conn_event_stream:
  assumes "conn_ok c" "conn_dispatch rs g c = Some (g', c', sent, rs')"
  shows "conn_ok c' \<and> (\<exists>cmds outs. run_requests g cmds = Some (g', outs) \<and>
      unread c @ received rs c = concat (map (\<lambda>cmd. frame (payload cmd)) cmds) @ unread c' \<and>
      pending c @ concat (map (\<lambda>out. frame (limit_response out)) outs) = sent @ pending c') \<and>
    (cstate c' = STATE_REQ \<longrightarrow> received rs c = [] \<and> unread c' = unread c \<or> length (unread c') < 4)"
  using conn_dispatch_ok [OF assms] conn_dispatch_stream [OF assms] unfolding transduces_def by blast

theorem conn_event_stream_witness:
  "\<exists>c' sent cmds outs. conn_dispatch [Got (frame (payload []) @ [1, 2]), Intr, Sent 3, Sent 4096] gdata0 conn0 =
      Some (gdata0, c', sent, []) \<and> run_requests gdata0 cmds = Some (gdata0, outs) \<and>
    frame (payload []) @ [1, 2] = concat (requests cmds) @ unread c' \<and>
    concat (responses outs) = sent @ pending c'"
proof -
  let ?out = "reply_bytes (err_reply ERR_UNKNOWN ''Unknown cmd'')" and ?in = "frame (payload []) @ [1, 2]"
  have r: "run_requests gdata0 [[]] = Some (gdata0, [?out])"
    by (simp add: do_request_def err_reply_def out_err_def)
  have "4 + length (limit_response ?out) \<le> k_max_msg" by (rule length_limit_response)
  then have fl: "flushes_all [Intr, Sent 3, Sent 4096] (map length (responses [?out])) []"
    by (auto intro!: flushes.intr flushes.part flushes.last simp: k_max_msg_def)
  have len: "length ?in \<le> buf_cap" by (simp add: payload_def buf_cap_def k_max_msg_def)
  have p: "pending conn0 = []" by (simp add: conn0_def conn_new_def pending_def)
  have "received (Got ?in # [Intr, Sent 3, Sent 4096]) conn0 = ?in"
    using conn0_ok(2,3) len by (simp add: received_def)
  moreover from state_req_serves [OF conn0_ok(1,2) _ _ _ _ _ r fl, of ?in "[1, 2]"] obtain c' sent where
    d: "conn_dispatch (Got ?in # [Intr, Sent 3, Sent 4096]) gdata0 conn0 = Some (gdata0, c', sent, [])"
    using len by (auto simp: conn0_ok(3) fits_def payload_def frame_def k_max_msg_def)
  moreover note conn_event_stream [OF conn0_ok(1) d]
  ultimately show ?thesis using conn0_ok(3) p by auto
qed

end
