(* ===== verification/DList.thy ===== *)
theory DList
  imports Prelude
begin

text \<open>
  The intrusive doubly linked list of \<open>src/include/list.h\<close>, circular with a head node that is embedded
  in no object.  The second half represents a list by the addresses of its nodes and states what the
  event loop relies on as the locale \<open>timer_queue\<close>.
\<close>

section \<open>The pointer code\<close>

record dnode =
  dprev :: ptr
  dnext :: ptr

type_synonym dl_heap = "ptr \<rightharpoonup> dnode"

definition dlist_init :: "dl_heap \<Rightarrow> ptr \<Rightarrow> dl_heap option" where
  "dlist_init h node = modify h node (\<lambda>v. v\<lparr>dprev := node, dnext := node\<rparr>)"

definition dlist_empty :: "dl_heap \<Rightarrow> ptr \<Rightarrow> bool option" where
  "dlist_empty h node = do { v \<leftarrow> deref h node; Some (dnext v = node) }"

definition dlist_detach :: "dl_heap \<Rightarrow> ptr \<Rightarrow> dl_heap option" where
  "dlist_detach h node = do {
     v \<leftarrow> deref h node;
     let prev = dprev v;
     let nxt = dnext v;
     h \<leftarrow> modify h prev (\<lambda>v. v\<lparr>dnext := nxt\<rparr>);
     modify h nxt (\<lambda>v. v\<lparr>dprev := prev\<rparr>)
   }"

definition dlist_insert_before :: "dl_heap \<Rightarrow> ptr \<Rightarrow> ptr \<Rightarrow> dl_heap option" where
  "dlist_insert_before h target rookie = do {
     v \<leftarrow> deref h target;
     let prev = dprev v;
     h \<leftarrow> modify h prev (\<lambda>v. v\<lparr>dnext := rookie\<rparr>);
     h \<leftarrow> modify h rookie (\<lambda>v. v\<lparr>dprev := prev\<rparr>);
     h \<leftarrow> modify h rookie (\<lambda>v. v\<lparr>dnext := target\<rparr>);
     modify h target (\<lambda>v. v\<lparr>dprev := rookie\<rparr>)
   }"

section \<open>Rings\<close>

text \<open>Consecutive nodes of \<open>xs\<close> point at each other.\<close>

fun linked :: "dl_heap \<Rightarrow> ptr list \<Rightarrow> bool" where
  "linked h (x # y # zs) \<longleftrightarrow>
     (\<exists>v w. h x = Some v \<and> dnext v = y \<and> h y = Some w \<and> dprev w = x) \<and> linked h (y # zs)"
| "linked h xs \<longleftrightarrow> True"

definition ring :: "dl_heap \<Rightarrow> ptr \<Rightarrow> ptr list \<Rightarrow> bool" where
  "ring h a xs \<longleftrightarrow> linked h (a # xs @ [a]) \<and> distinct (a # xs) \<and> NULL \<notin> set (a # xs)"

lemma linked_split: "linked h (xs @ x # ys) \<longleftrightarrow> linked h (xs @ [x]) \<and> linked h (x # ys)"
proof (induction xs)
  case (Cons a xs)
  then show ?case by (cases xs) auto
qed simp

text \<open>A link is read at its two ends: \<open>dnext\<close> of all nodes but the last, \<open>dprev\<close> of all but the first.\<close>

lemma linked_cong:
  assumes "linked h xs" "\<And>x v. x \<in> set (butlast xs) \<Longrightarrow> h x = Some v \<Longrightarrow> \<exists>v'. h' x = Some v' \<and> dnext v' = dnext v"
    and "\<And>x v. x \<in> set (tl xs) \<Longrightarrow> h x = Some v \<Longrightarrow> \<exists>v'. h' x = Some v' \<and> dprev v' = dprev v"
  shows "linked h' xs"
  using assms
proof (induction h xs rule: linked.induct)
  case (1 h x y zs)
  from 1(2) obtain v w where v: "h x = Some v" "dnext v = y" "h y = Some w" "dprev w = x" "linked h (y # zs)" by auto
  obtain v' where v': "h' x = Some v'" "dnext v' = y" using 1(3) [of x v] v by auto
  obtain w' where w': "h' y = Some w'" "dprev w' = x" using 1(4) [of y w] v by auto
  have "linked h' (y # zs)" using 1(3,4) v(5) by (intro 1(1)) (auto split: if_splits)
  with v' w' show ?case by auto
qed simp_all

lemma ring_mem: "ring h a xs \<Longrightarrow> x \<in> set (a # xs) \<Longrightarrow> x \<noteq> NULL \<and> h x \<noteq> None"
proof -
  have "linked h ys \<Longrightarrow> 2 \<le> length ys \<Longrightarrow> y \<in> set ys \<Longrightarrow> h y \<noteq> None" for ys y
  proof (induction h ys rule: linked.induct)
    case (1 h x y' zs)
    then show ?case by (cases zs) auto
  qed simp_all
  from this [of "a # xs @ [a]" x] show "ring h a xs \<Longrightarrow> x \<in> set (a # xs) \<Longrightarrow> x \<noteq> NULL \<and> h x \<noteq> None"
    by (auto simp: ring_def intro: gr0I)
qed

lemma ring_init: "h a \<noteq> None \<Longrightarrow> a \<noteq> NULL \<Longrightarrow> \<exists>h'. dlist_init h a = Some h' \<and> ring h' a [] \<and> same_outside {a} h h'"
  by (auto simp: dlist_init_def ring_def same_outside_def)

lemma ring_empty: "ring h a xs \<Longrightarrow> dlist_empty h a = Some (xs = [])"
  by (cases xs) (auto simp: ring_def dlist_empty_def)

lemma ring_first: "ring h a (x # xs) \<Longrightarrow> map_option dnext (deref h a) = Some x"
  by (auto simp: ring_def)


lemma ring_detach:
  assumes "ring h a xs" "x \<in> set xs"
  shows "\<exists>h'. dlist_detach h x = Some h' \<and> ring h' a (remove1 x xs) \<and> same_outside (set (a # xs) - {x}) h h' \<and> h' x = h x"
proof -
  from split_list [OF assms(2)] obtain us vs where xs: "xs = us @ x # vs" by blast
  define p where "p = last (a # us)"
  define q where "q = hd (vs @ [a])"
  have e1: "a # us = butlast (a # us) @ [p]" and e2: "vs @ [a] = q # tl (vs @ [a])" by (simp_all add: p_def q_def)
  have d: "distinct (a # us @ x # vs)" "NULL \<notin> set (a # us @ x # vs)"
    and l: "linked h ((a # us) @ x # vs @ [a])" using assms(1) xs by (auto simp: ring_def)
  have x: "x \<notin> set (a # us)" "x \<notin> set (vs @ [a])" using d(1) by auto
  have pq: "p \<in> set (a # us)" "q \<in> set (vs @ [a])" unfolding p_def q_def by (cases vs; simp)+
  have l1: "linked h (butlast (a # us) @ [p, x])" "linked h (x # q # tl (vs @ [a]))"
    using l linked_split [of h "a # us" x "vs @ [a]"] e1 e2 by (metis append.assoc append_Cons append_Nil)+
  then have "linked h (butlast (a # us) @ [p])" "linked h [p, x]"
    using linked_split [of h "butlast (a # us)" p "[x]"] by auto
  then have us: "linked h (a # us)" using e1 by metis
  have vs: "linked h (vs @ [a])" using l1(2) e2 by (metis linked.simps(1))
  obtain vp vx vq where v: "h p = Some vp" "h x = Some vx" "h q = Some vq" "dprev vx = p" "dnext vx = q"
    using \<open>linked h [p, x]\<close> l1(2) by auto
  have nn: "p \<noteq> NULL" "x \<noteq> NULL" "q \<noteq> NULL" using pq d(2) by (auto intro: gr0I)
  have ne: "p \<noteq> x" "q \<noteq> x" using pq x by auto
  define h1 where "h1 = h(p \<mapsto> vp\<lparr>dnext := q\<rparr>)"
  obtain vq1 where vq1: "h1 q = Some vq1" "dnext vq1 = (if p = q then q else dnext vq)"
    by (cases "p = q") (simp_all add: h1_def v(3))
  define h2 where "h2 = h1(q \<mapsto> vq1\<lparr>dprev := p\<rparr>)"
  have det: "dlist_detach h x = Some h2"
    using v nn vq1 unfolding dlist_detach_def h2_def by (simp flip: h1_def)
  have nx: "\<exists>v'. h2 y = Some v' \<and> dnext v' = dnext w" if "h y = Some w" "y \<noteq> p" for y w
    using that vq1 v by (auto simp: h2_def h1_def)
  have px: "\<exists>v'. h2 y = Some v' \<and> dprev v' = dprev w" if "h y = Some w" "y \<noteq> q" for y w
    using that v by (auto simp: h2_def h1_def)
  have "p \<notin> set (butlast (a # us))" using d(1) e1 by (metis distinct_append distinct.simps(2) append_Cons disjoint_insert(1) list.simps(15) not_distinct_conv_prefix)
  moreover have "q \<notin> set (tl (a # us))" using d(1) pq(2) by auto
  ultimately have us2: "linked h2 (a # us)" by (intro linked_cong [OF us]) (use nx px in metis)+
  have "q \<notin> set (tl (vs @ [a]))" using d(1) e2 by (cases vs) (auto simp: q_def)
  moreover have "p \<notin> set (butlast (vs @ [a]))" using d(1) pq(1) by auto
  ultimately have vs2: "linked h2 (vs @ [a])" by (intro linked_cong [OF vs]) (use nx px in metis)+
  have "linked h2 [p, q]" using v vq1 ne by (auto simp: h2_def h1_def)
  then have "linked h2 (p # q # tl (vs @ [a]))" using vs2 e2 by (metis linked.simps(1))
  moreover have "linked h2 (butlast (a # us) @ [p])" using us2 e1 by metis
  ultimately have "linked h2 (butlast (a # us) @ p # q # tl (vs @ [a]))"
    using linked_split [of h2 "butlast (a # us)" p "q # tl (vs @ [a])"] by blast
  then have "linked h2 (a # (us @ vs) @ [a])" using e1 e2 by (metis append.assoc append_Cons append_Nil)
  then have "ring h2 a (us @ vs)" using d by (auto simp: ring_def)
  moreover have "remove1 x xs = us @ vs" using x xs by (simp add: remove1_append)
  moreover have "same_outside (set (a # xs) - {x}) h h2" "h2 x = h x"
    using pq ne xs by (auto simp: same_outside_def h2_def h1_def)
  ultimately show ?thesis using det by auto
qed


lemma ring_insert:
  assumes "ring h a xs" "h x \<noteq> None" "x \<noteq> NULL" "x \<notin> set (a # xs)"
  shows "\<exists>h'. dlist_insert_before h a x = Some h' \<and> ring h' a (xs @ [x]) \<and> same_outside (insert x (set (a # xs))) h h'"
proof -
  define p where "p = last (a # xs)"
  have e: "a # xs = butlast (a # xs) @ [p]" by (simp add: p_def)
  have p: "p \<in> set (a # xs)" by (simp add: p_def)
  have d: "distinct (a # xs)" "NULL \<notin> set (a # xs)" and l: "linked h (a # xs @ [a])" using assms(1) by (auto simp: ring_def)
  have l1: "linked h (butlast (a # xs) @ [p, a])" using l e by (metis append.assoc append_Cons append_Nil)
  then have "linked h (butlast (a # xs) @ [p])" and pa: "linked h [p, a]"
    using linked_split [of h "butlast (a # xs)" p "[a]"] by auto
  then have xs: "linked h (a # xs)" using e by metis
  obtain vp va where v: "h p = Some vp" "h a = Some va" "dprev va = p" using pa by auto
  obtain vx where vx: "h x = Some vx" using assms(2) by auto
  have nn: "p \<noteq> NULL" "a \<noteq> NULL" using p d(2) by (auto intro: gr0I)
  have ne: "x \<noteq> a" "x \<noteq> p" using assms(4) p by auto
  define h1 where "h1 = h(p \<mapsto> vp\<lparr>dnext := x\<rparr>)"
  define h2 where "h2 = h1(x \<mapsto> vx\<lparr>dprev := p, dnext := a\<rparr>)"
  obtain va2 where va2: "h2 a = Some va2" "dnext va2 = (if p = a then x else dnext va)"
    using ne v(2) by (cases "p = a") (simp_all add: h2_def h1_def)
  define h3 where "h3 = h2(a \<mapsto> va2\<lparr>dprev := x\<rparr>)"
  have ins: "dlist_insert_before h a x = Some h3"
    using v nn assms(3) vx ne va2 unfolding dlist_insert_before_def h3_def by (simp add: h2_def h1_def)
  have nx: "\<exists>v'. h3 y = Some v' \<and> dnext v' = dnext w" if "h y = Some w" "y \<noteq> p" "y \<noteq> x" for y w
    using that va2 v by (auto simp: h3_def h2_def h1_def)
  have px: "\<exists>v'. h3 y = Some v' \<and> dprev v' = dprev w" if "h y = Some w" "y \<noteq> a" "y \<noteq> x" for y w
    using that v by (auto simp: h3_def h2_def h1_def)
  have "p \<notin> set (butlast (a # xs))"
    using d(1) e by (metis distinct_append distinct.simps(2) append_Cons disjoint_insert(1) list.simps(15) not_distinct_conv_prefix)
  moreover have "x \<notin> set (butlast (a # xs))" using assms(4) by (metis in_set_butlastD)
  moreover have "a \<notin> set (tl (a # xs))" "x \<notin> set (tl (a # xs))" using d(1) assms(4) by auto
  ultimately have "linked h3 (a # xs)" by (intro linked_cong [OF xs]) (use nx px in metis)+
  moreover have "linked h3 [p, x, a]" using va2 v vx ne by (auto simp: h3_def h2_def h1_def)
  ultimately have "linked h3 (butlast (a # xs) @ p # [x, a])"
    using e linked_split [of h3 "butlast (a # xs)" p "[x, a]"] by auto
  then have "linked h3 (a # (xs @ [x]) @ [a])" using e by (metis append.assoc append_Cons append_Nil)
  then have "ring h3 a (xs @ [x])" using d assms(3,4) by (auto simp: ring_def)
  moreover have "same_outside (insert x (set (a # xs))) h h3"
    using p by (auto simp: same_outside_def h3_def h2_def h1_def)
  ultimately show ?thesis using ins by blast
qed


text \<open>Nodes outside the ring may be allocated and freed.\<close>

lemma linked_outside: "linked h xs \<Longrightarrow> x \<notin> set xs \<Longrightarrow> linked (h(x := v)) xs"
  by (induction h xs rule: linked.induct) auto

lemma ring_outside: "ring h a xs \<Longrightarrow> x \<notin> set (a # xs) \<Longrightarrow> ring (h(x := v)) a xs"
  unfolding ring_def by (auto intro!: linked_outside)

section \<open>The interface\<close>

definition dlist_next :: "dl_heap \<Rightarrow> ptr \<Rightarrow> ptr option" where
  "dlist_next h node = map_option dnext (deref h node)"

definition dl_live :: "dl_heap \<Rightarrow> ptr \<Rightarrow> bool" where
  "dl_live h x \<longleftrightarrow> h x \<noteq> None"

definition dl_put :: "dl_heap \<Rightarrow> ptr \<Rightarrow> dnode option \<Rightarrow> dl_heap" where
  "dl_put h x v = h(x := v)"

text \<open>
  The timers of the event loop need a queue: nodes that are in it can be taken out in any place, nodes
  that are not can be put behind all others, and the front is visible.
\<close>

locale timer_queue =
  fixes rep :: "'h \<Rightarrow> ptr \<Rightarrow> ptr list \<Rightarrow> bool"
    and live :: "'h \<Rightarrow> ptr \<Rightarrow> bool"
    and is_empty :: "'h \<Rightarrow> ptr \<Rightarrow> bool option"
    and first :: "'h \<Rightarrow> ptr \<Rightarrow> ptr option"
    and take_out :: "'h \<Rightarrow> ptr \<Rightarrow> 'h option"
    and push :: "'h \<Rightarrow> ptr \<Rightarrow> ptr \<Rightarrow> 'h option"
  assumes mem_law: "rep h a xs \<Longrightarrow> x \<in> set xs \<Longrightarrow> x \<noteq> NULL \<and> x \<noteq> a \<and> live h x"
    and distinct_law: "rep h a xs \<Longrightarrow> distinct xs"
    and empty_law: "rep h a xs \<Longrightarrow> is_empty h a = Some (xs = [])"
    and first_law: "rep h a (x # xs) \<Longrightarrow> first h a = Some x"
    and take_out_law: "rep h a xs \<Longrightarrow> x \<in> set xs \<Longrightarrow>
      \<exists>h'. take_out h x = Some h' \<and> rep h' a (remove1 x xs) \<and> live h' = live h"
    and push_law: "rep h a xs \<Longrightarrow> live h x \<Longrightarrow> x \<noteq> NULL \<Longrightarrow> x \<noteq> a \<Longrightarrow> x \<notin> set xs \<Longrightarrow>
      \<exists>h'. push h a x = Some h' \<and> rep h' a (xs @ [x]) \<and> live h' = live h"
begin

text \<open>A node that had activity goes to the end of the queue.\<close>

lemma touch:
  assumes "rep h a xs" "x \<in> set xs"
  shows "\<exists>h1 h2. take_out h x = Some h1 \<and> push h1 a x = Some h2 \<and> rep h2 a (remove1 x xs @ [x]) \<and> live h2 = live h"
proof -
  from take_out_law [OF assms] obtain h1 where
    h1: "take_out h x = Some h1" "rep h1 a (remove1 x xs)" "live h1 = live h" by blast
  have x: "x \<noteq> NULL" "x \<noteq> a" "live h1 x" "x \<notin> set (remove1 x xs)"
    using mem_law [OF assms] h1(3) distinct_law [OF assms(1)] by auto
  from push_law [OF h1(2) x(3,1,2,4)] h1 show ?thesis by auto
qed

lemma take_first:
  assumes "rep h a (x # xs)"
  shows "\<exists>h'. take_out h x = Some h' \<and> rep h' a xs \<and> live h' = live h"
  using take_out_law [OF assms, of x] by simp

end

interpretation dl: timer_queue ring dl_live dlist_empty dlist_next dlist_detach dlist_insert_before
proof
  fix h a xs x
  assume r: "ring h a xs"
  show "x \<noteq> NULL \<and> x \<noteq> a \<and> dl_live h x" if "x \<in> set xs"
    using ring_mem [OF r, of x] that r by (auto simp: ring_def dl_live_def)
  show "distinct xs" using r by (simp add: ring_def)
  show "dlist_empty h a = Some (xs = [])" by (rule ring_empty [OF r])
  have live: "dl_live h' = dl_live h" if "ring h' a ys" "same_outside S h h'" "S \<subseteq> set (a # xs) \<union> set ys"
    "\<forall>y \<in> set xs. h' y \<noteq> None" "\<forall>y \<in> set ys. h y \<noteq> None" for h' ys S
  proof
    fix y
    have "h y \<noteq> None" "h' y \<noteq> None" if "y \<in> S"
      using that \<open>S \<subseteq> _\<close> ring_mem [OF r, of y] ring_mem [OF \<open>ring h' a ys\<close>, of y]
        \<open>\<forall>y \<in> set xs. h' y \<noteq> None\<close> \<open>\<forall>y \<in> set ys. h y \<noteq> None\<close> by auto
    then show "dl_live h' y = dl_live h y"
      using \<open>same_outside S h h'\<close> by (cases "y \<in> S") (auto simp: dl_live_def same_outside_def)
  qed
  show "\<exists>h'. dlist_detach h x = Some h' \<and> ring h' a (remove1 x xs) \<and> dl_live h' = dl_live h" if "x \<in> set xs"
  proof -
    from ring_detach [OF r that] obtain h' where h': "dlist_detach h x = Some h'" "ring h' a (remove1 x xs)"
      "same_outside (set (a # xs) - {x}) h h'" "h' x = h x" by blast
    have "h' y \<noteq> None" if "y \<in> set xs" for y
      using ring_mem [OF h'(2), of y] ring_mem [OF r, of y] that h'(4) by (cases "y = x") auto
    then have "\<forall>y \<in> set xs. h' y \<noteq> None" by blast
    moreover have "\<forall>y \<in> set (remove1 x xs). h y \<noteq> None"
      using ring_mem [OF r] notin_set_remove1 by (metis list.set_intros(2))
    moreover have "set (a # xs) - {x} \<subseteq> set (a # xs) \<union> set (remove1 x xs)" by blast
    ultimately have "dl_live h' = dl_live h" by (intro live [OF h'(2,3)])
    with h'(1,2) show ?thesis by blast
  qed
  show "\<exists>h'. dlist_insert_before h a x = Some h' \<and> ring h' a (xs @ [x]) \<and> dl_live h' = dl_live h"
    if "dl_live h x" "x \<noteq> NULL" "x \<noteq> a" "x \<notin> set xs"
  proof -
    from ring_insert [OF r, of x] that obtain h' where h': "dlist_insert_before h a x = Some h'" "ring h' a (xs @ [x])"
      "same_outside (insert x (set (a # xs))) h h'" by (auto simp: dl_live_def)
    have "\<forall>y \<in> set xs. h' y \<noteq> None" using ring_mem [OF h'(2)] by simp
    moreover have "\<forall>y \<in> set (xs @ [x]). h y \<noteq> None" using ring_mem [OF r] that(1) by (simp add: dl_live_def)
    moreover have "insert x (set (a # xs)) \<subseteq> set (a # xs) \<union> set (xs @ [x])" by auto
    ultimately have "dl_live h' = dl_live h" by (intro live [OF h'(2,3)])
    with h'(1,2) show ?thesis by blast
  qed
qed (simp add: dlist_next_def ring_first)

section \<open>The property\<close>

text \<open>
  C27. Taking a node out of a list, wherever it is, and inserting it before the head puts it behind all
  other nodes and keeps their order: \<open>dlist_detach\<close> followed by \<open>dlist_insert_before\<close>, the way
  \<open>connection_io\<close> keeps the connections in the order of their last activity.
\<close>

theorem dlist_move_to_end:
  assumes "ring h a xs" "x \<in> set xs"
  shows "dlist_empty h a = Some False \<and> (\<exists>h1 h2. dlist_detach h x = Some h1 \<and> ring h1 a (remove1 x xs) \<and>
    dlist_insert_before h1 a x = Some h2 \<and> ring h2 a (remove1 x xs @ [x]))"
proof -
  have "dlist_empty h a = Some False" using ring_empty [OF assms(1)] assms(2) by auto
  with dl.touch [OF assms] dl.take_out_law [OF assms] show ?thesis by auto
qed

theorem dlist_move_to_end_witness:
  "let h = [1 \<mapsto> \<lparr>dprev = 3, dnext = 2\<rparr>, 2 \<mapsto> \<lparr>dprev = 1, dnext = 3\<rparr>, 3 \<mapsto> \<lparr>dprev = 2, dnext = 1\<rparr>]
   in \<exists>h1 h2. dlist_detach h 2 = Some h1 \<and> dlist_insert_before h1 1 2 = Some h2 \<and> ring h2 1 [3, 2]"
proof -
  let ?h = "[1 \<mapsto> \<lparr>dprev = 3, dnext = 2\<rparr>, 2 \<mapsto> \<lparr>dprev = 1, dnext = 3\<rparr>, 3 \<mapsto> \<lparr>dprev = 2, dnext = 1\<rparr>]"
  have "ring ?h 1 [2, 3]" by (simp add: ring_def deref_def)
  from dlist_move_to_end [OF this, of 2] show ?thesis by (auto simp: Let_def)
qed

end
