(* ===== verification/Server.thy ===== *)
theory Server
  imports Conn DList
begin

text \<open>
  The event loop of \<open>src/src/server.cpp\<close>: the table of connections by descriptor, the timers of idle
  connections, \<open>connection_io\<close>, \<open>accept_new_conn\<close>, \<open>conn_done\<close>, \<open>next_timer_ms\<close>, \<open>process_timers\<close> and one
  iteration of the loop of \<open>main\<close>.  A \<open>Conn\<close> and its \<open>idle_list\<close> node share an address.  The clock, the
  results of \<open>poll\<close>, \<open>accept\<close>, \<open>malloc\<close> and of the socket calls are arguments.  Addresses of connections
  are handed out upwards from \<open>heap_top\<close>; \<open>free\<close> removes the object from the heaps.
\<close>

section \<open>State\<close>

record server =
  gd :: gdata
  conn_h :: "ptr \<rightharpoonup> conn"
  dl_h :: dl_heap
  fd2conn :: "ptr list"
  idle_list :: ptr
  heap_top :: ptr

definition k_idle_timeout_ms :: u64 where
  "k_idle_timeout_ms = 5 * 1000"

text \<open>The state when the loop of \<open>main\<close> starts: \<open>g_data.idle_list\<close> is at address 1.\<close>

definition server_init :: "gdata \<Rightarrow> server option" where
  "server_init g = do {
     h \<leftarrow> dlist_init [1 \<mapsto> \<lparr>dprev = NULL, dnext = NULL\<rparr>] 1;
     Some \<lparr>gd = g, conn_h = Map.empty, dl_h = h, fd2conn = [], idle_list = 1, heap_top = 2\<rparr>
   }"

section \<open>Connections\<close>

definition connection_io :: "u64 \<Rightarrow> io \<Rightarrow> server \<Rightarrow> ptr \<Rightarrow> (server \<times> byte list) option" where
  "connection_io now rs s p = do {
     c \<leftarrow> deref (conn_h s) p;
     let c = c\<lparr>idle_start := now\<rparr>;
     h \<leftarrow> dlist_detach (dl_h s) p;
     h \<leftarrow> dlist_insert_before h (idle_list s) p;
     (g, c, sent, rs) \<leftarrow> conn_dispatch rs (gd s) c;
     Some (s\<lparr>gd := g, conn_h := (conn_h s)(p \<mapsto> c), dl_h := h\<rparr>, sent)
   }"

definition conn_put :: "ptr list \<Rightarrow> ptr \<Rightarrow> nat \<Rightarrow> ptr list" where
  "conn_put tbl p fd =
     (let tbl = (if length tbl \<le> fd then tbl @ replicate (fd + 1 - length tbl) NULL else tbl)
      in tbl[fd := p])"

text \<open>
  \<open>accept\<close> gives a descriptor or fails, which ends the process; \<open>malloc\<close> gives uninitialised buffers or
  fails, and the descriptor is closed.
\<close>

definition accept_new_conn ::
  "nat option \<Rightarrow> (byte list \<times> byte list) option \<Rightarrow> u64 \<Rightarrow> server \<Rightarrow> (server \<times> int) option" where
  "accept_new_conn accepted malloced now s = do {
     connfd \<leftarrow> accepted;
     case malloced of
       None \<Rightarrow> Some (s, - 1)
     | Some (rb, wb) \<Rightarrow> do {
         let p = heap_top s;
         h \<leftarrow> dlist_insert_before ((dl_h s)(p \<mapsto> \<lparr>dprev = NULL, dnext = NULL\<rparr>)) (idle_list s) p;
         Some (s\<lparr>conn_h := (conn_h s)(p \<mapsto> conn_new connfd now rb wb), dl_h := h,
                 fd2conn := conn_put (fd2conn s) p connfd, heap_top := p + 1\<rparr>, 0) }
   }"

definition conn_done :: "server \<Rightarrow> ptr \<Rightarrow> server option" where
  "conn_done s p = do {
     c \<leftarrow> deref (conn_h s) p;
     tbl \<leftarrow> put_opt (fd2conn s) (cfd c) NULL;
     h \<leftarrow> dlist_detach (dl_h s) p;
     Some (s\<lparr>fd2conn := tbl, dl_h := h(p := None), conn_h := (conn_h s)(p := None)\<rparr>)
   }"

section \<open>Timers\<close>

text \<open>\<open>next->idle_start + k_idle_timeout_ms * 1000\<close>, in microseconds.\<close>

definition next_us :: "conn \<Rightarrow> u64" where
  "next_us c = idle_start c + k_idle_timeout_ms * 1000"

definition next_timer_ms :: "u64 \<Rightarrow> server \<Rightarrow> u32 option" where
  "next_timer_ms now_us s = do {
     e \<leftarrow> dlist_empty (dl_h s) (idle_list s);
     if e then Some 10000
     else do {
       p \<leftarrow> dlist_next (dl_h s) (idle_list s);
       c \<leftarrow> deref (conn_h s) p;
       Some (if next_us c \<le> now_us then 0 else ucast ((next_us c - now_us) div 1000)) } }"

partial_function (option) process_timers :: "u64 \<Rightarrow> server \<Rightarrow> server option" where
  "process_timers now_us s = do {
     e \<leftarrow> dlist_empty (dl_h s) (idle_list s);
     if e then Some s
     else do {
       p \<leftarrow> dlist_next (dl_h s) (idle_list s);
       c \<leftarrow> deref (conn_h s) p;
       if next_us c \<ge> now_us + 1000 then Some s
       else do {
         s \<leftarrow> conn_done s p;
         process_timers now_us s } } }"

declare process_timers.simps [code]

section \<open>The loop of \<open>main\<close>\<close>

text \<open>The arguments of \<open>poll\<close> for the connections: descriptor, and whether it waits for input.\<close>

fun poll_args :: "(ptr \<rightharpoonup> conn) \<Rightarrow> ptr list \<Rightarrow> (nat \<times> bool) list option" where
  "poll_args ch [] = Some []"
| "poll_args ch (p # ps) =
     (if p = NULL then poll_args ch ps
      else do {
        c \<leftarrow> deref ch p;
        args \<leftarrow> poll_args ch ps;
        Some ((cfd c, cstate c = STATE_REQ) # args) })"

text \<open>
  The loop over the results of \<open>poll\<close>: for an active descriptor the time of its handling and the results
  of its socket calls, \<open>None\<close> for an inactive one.
\<close>

fun handle_active :: "(nat \<times> bool) list \<Rightarrow> (u64 \<times> io) option list \<Rightarrow> server \<Rightarrow> (server \<times> (nat \<times> byte list) list) option" where
  "handle_active ((fd, _) # args) (Some (now, rs) # evs) s = do {
     p \<leftarrow> nth_opt (fd2conn s) fd;
     (s, sent) \<leftarrow> connection_io now rs s p;
     c \<leftarrow> deref (conn_h s) p;
     s \<leftarrow> (if cstate c = STATE_END then conn_done s p else Some s);
     (s, out) \<leftarrow> handle_active args evs s;
     Some (s, (fd, sent) # out)
   }"
| "handle_active (_ # args) (None # evs) s = handle_active args evs s"
| "handle_active _ _ s = Some (s, [])"

record turn =
  timer_now :: u64
  active :: "(u64 \<times> io) option list"
  process_now :: u64
  incoming :: "(nat option \<times> (byte list \<times> byte list) option \<times> u64) option"

text \<open>
  One iteration up to the timers, and with the new connection; the results are the timeout passed to
  \<open>poll\<close> and what was sent to each descriptor.
\<close>

definition serve_turn :: "turn \<Rightarrow> server \<Rightarrow> (server \<times> u32 \<times> (nat \<times> byte list) list) option" where
  "serve_turn t s = do {
     args \<leftarrow> poll_args (conn_h s) (fd2conn s);
     timeout_ms \<leftarrow> next_timer_ms (timer_now t) s;
     (s, out) \<leftarrow> handle_active args (active t) s;
     s \<leftarrow> process_timers (process_now t) s;
     Some (s, timeout_ms, out)
   }"

definition main_turn :: "turn \<Rightarrow> server \<Rightarrow> (server \<times> u32 \<times> (nat \<times> byte list) list) option" where
  "main_turn t s = do {
     (s, timeout_ms, out) \<leftarrow> serve_turn t s;
     s \<leftarrow> (case incoming t of
            None \<Rightarrow> Some s
          | Some (accepted, malloced, now) \<Rightarrow> map_option fst (accept_new_conn accepted malloced now s));
     Some (s, timeout_ms, out)
   }"

section \<open>The program\<close>

text \<open>
  The loop over the addresses of \<open>getaddrinfo\<close>: what \<open>socket\<close>, \<open>setsockopt\<close> and \<open>bind\<close> do for each of
  them; \<open>None\<close> is \<open>exit(1)\<close> in the loop, otherwise whether an address was bound.
\<close>

datatype bind_attempt = No_sock | No_reuse | No_bind | Bound

fun bind_first :: "bind_attempt list \<Rightarrow> bool option" where
  "bind_first [] = Some False"
| "bind_first (a # as) = (case a of Bound \<Rightarrow> Some True | No_reuse \<Rightarrow> None | _ \<Rightarrow> bind_first as)"

text \<open>The exit code when the set-up of the listening socket fails, 0 when it does not.\<close>

definition server_setup :: "bind_attempt list option \<Rightarrow> bool \<Rightarrow> int" where
  "server_setup addrs listens = (case addrs of
     None \<Rightarrow> 1
   | Some attempts \<Rightarrow>
       (case bind_first attempts of
          None \<Rightarrow> 1
        | Some bound \<Rightarrow> if \<not> bound then 1 else if \<not> listens then 1 else 0))"

text \<open>The endless loop, for as many iterations as there are turns.\<close>

fun main_loop :: "turn list \<Rightarrow> server \<Rightarrow> (server \<times> (nat \<times> byte list) list list) option" where
  "main_loop [] s = Some (s, [])"
| "main_loop (t # ts) s = do {
     (s, timeout_ms, out) \<leftarrow> main_turn t s;
     (s, outs) \<leftarrow> main_loop ts s;
     Some (s, out # outs)
   }"

definition server_main ::
  "bind_attempt list option \<Rightarrow> bool \<Rightarrow> turn list \<Rightarrow> gdata \<Rightarrow> (int + server \<times> (nat \<times> byte list) list list) option" where
  "server_main addrs listens ts g = do {
     s \<leftarrow> server_init g;
     let rv = server_setup addrs listens;
     if rv \<noteq> 0 then Some (Inl rv) else map_option Inr (main_loop ts s)
   }"

end
