(* ===== verification/Server_Refine.thy ===== *)
theory Server_Refine
  imports Server Conn_Refine
begin

text \<open>
  The invariant of the event loop: the idle list is a ring of exactly the live connections, ordered by
  the time of their last activity, and the table by descriptor has exactly these connections.  Timers,
  \<open>accept\<close> and closing are shown to return and keep it, a whole turn to keep it in every reachable state.
\<close>

section \<open>The invariant\<close>

definition idle_of :: "(ptr \<rightharpoonup> conn) \<Rightarrow> ptr \<Rightarrow> u64" where
  "idle_of ch p = (case ch p of Some c \<Rightarrow> idle_start c | None \<Rightarrow> 0)"

text \<open>\<open>xs\<close> are the connections in the order of the idle list, \<open>t\<close> is the latest time that was read.\<close>

definition table_ok :: "(ptr \<rightharpoonup> conn) \<Rightarrow> ptr list \<Rightarrow> bool" where
  "table_ok ch tbl \<longleftrightarrow>
     (\<forall>p c. ch p = Some c \<longrightarrow> p \<noteq> NULL \<and> cfd c < length tbl \<and> tbl ! cfd c = p) \<and>
     (\<forall>fd < length tbl. tbl ! fd \<noteq> NULL \<longrightarrow> (\<exists>c. ch (tbl ! fd) = Some c \<and> cfd c = fd))"

definition server_inv :: "server \<Rightarrow> u64 \<Rightarrow> ptr list \<Rightarrow> bool" where
  "server_inv s t xs \<longleftrightarrow>
     ring (dl_h s) (idle_list s) xs \<and> set xs = dom (conn_h s) \<and>
     idle_list s < heap_top s \<and> (\<forall>p \<in> set xs. p < heap_top s) \<and>
     table_ok (conn_h s) (fd2conn s) \<and>
     (\<forall>p c. conn_h s p = Some c \<longrightarrow> conn_ok c \<and> idle_start c \<le> t) \<and>
     sorted (map (idle_of (conn_h s)) xs)"

text \<open>No connection waits to be closed.\<close>

definition none_ended :: "server \<Rightarrow> bool" where
  "none_ended s \<longleftrightarrow> (\<forall>p c. conn_h s p = Some c \<longrightarrow> cstate c \<noteq> STATE_END)"

lemma server_invD:
  assumes "server_inv s t xs"
  shows "ring (dl_h s) (idle_list s) xs" "set xs = dom (conn_h s)" "idle_list s < heap_top s"
    "\<And>p. p \<in> set xs \<Longrightarrow> p < heap_top s" "table_ok (conn_h s) (fd2conn s)"
    "\<And>p c. conn_h s p = Some c \<Longrightarrow> conn_ok c \<and> idle_start c \<le> t" "sorted (map (idle_of (conn_h s)) xs)"
    "distinct xs" "\<And>p. p \<in> set xs \<Longrightarrow> p \<noteq> NULL \<and> p \<noteq> idle_list s"
  using assms dl.mem_law [of "dl_h s" "idle_list s" xs] dl.distinct_law [of "dl_h s" "idle_list s" xs]
  by (auto simp: server_inv_def)

lemma idle_of_Some [simp]: "ch p = Some c \<Longrightarrow> idle_of ch p = idle_start c"
  by (simp add: idle_of_def)

lemma server_inv_mono: "server_inv s t xs \<Longrightarrow> t \<le> t' \<Longrightarrow> server_inv s t' xs"
  unfolding server_inv_def by (meson order_trans)

lemma table_okD:
  "table_ok ch tbl \<Longrightarrow> ch p = Some c \<Longrightarrow> p \<noteq> NULL \<and> cfd c < length tbl \<and> tbl ! cfd c = p"
  "table_ok ch tbl \<Longrightarrow> fd < length tbl \<Longrightarrow> tbl ! fd \<noteq> NULL \<Longrightarrow> \<exists>c. ch (tbl ! fd) = Some c \<and> cfd c = fd"
  unfolding table_ok_def by blast+

lemma table_okI:
  assumes "\<And>p c. ch p = Some c \<Longrightarrow> p \<noteq> NULL \<and> cfd c < length tbl \<and> tbl ! cfd c = p"
    and "\<And>fd. fd < length tbl \<Longrightarrow> tbl ! fd \<noteq> NULL \<Longrightarrow> \<exists>c. ch (tbl ! fd) = Some c \<and> cfd c = fd"
  shows "table_ok ch tbl"
  using assms unfolding table_ok_def by blast

lemma sorted_map_cong: "(\<And>x. x \<in> set xs \<Longrightarrow> f x = g x) \<Longrightarrow> sorted (map f xs) = sorted (map g xs)"
  by (simp cong: map_cong)

section \<open>Closing a connection\<close>

lemma table_ok_close:
  assumes "table_ok ch tbl" "ch p = Some c"
  shows "table_ok (ch(p := None)) (tbl[cfd c := NULL])"
proof (rule table_okI)
  fix q e
  assume "(ch(p := None)) q = Some e"
  then have q: "q \<noteq> p" "ch q = Some e" by (auto split: if_splits)
  from table_okD(1) [OF assms(1) q(2)] table_okD(1) [OF assms] q(1)
  show "q \<noteq> NULL \<and> cfd e < length (tbl[cfd c := NULL]) \<and> tbl[cfd c := NULL] ! cfd e = q"
    by (metis length_list_update nth_list_update_neq)
next
  fix fd
  assume "fd < length (tbl[cfd c := NULL])" "tbl[cfd c := NULL] ! fd \<noteq> NULL"
  then have fd: "fd < length tbl" "fd \<noteq> cfd c" "tbl ! fd \<noteq> NULL" by (cases "fd = cfd c"; simp)+
  from table_okD(2) [OF assms(1) fd(1,3)] obtain e where e: "ch (tbl ! fd) = Some e" "cfd e = fd" by blast
  with assms(2) fd(2) have "tbl ! fd \<noteq> p" by auto
  with e fd(2) show "\<exists>e. (ch(p := None)) (tbl[cfd c := NULL] ! fd) = Some e \<and> cfd e = fd" by simp
qed

lemma conn_done_inv:
  assumes "server_inv s t xs" "p \<in> set xs"
  shows "\<exists>s'. conn_done s p = Some s' \<and> server_inv s' t (remove1 p xs) \<and> conn_h s' = (conn_h s)(p := None) \<and>
    gd s' = gd s"
proof -
  note d = server_invD [OF assms(1)]
  obtain c where c: "conn_h s p = Some c" using assms(2) d(2) by auto
  from dl.take_out_law [OF d(1) assms(2)] obtain h where
    h: "dlist_detach (dl_h s) p = Some h" "ring h (idle_list s) (remove1 p xs)" by blast
  have nn: "p \<noteq> NULL" "p \<noteq> idle_list s" using d(9) [OF assms(2)] by auto
  have fd: "cfd c < length (fd2conn s)" using d(5) c by (auto simp: table_ok_def)
  let ?s = "s\<lparr>fd2conn := (fd2conn s)[cfd c := NULL], dl_h := h(p := None), conn_h := (conn_h s)(p := None)\<rparr>"
  have mem: "set (remove1 p xs) = set xs - {p}" using d(8) by (rule set_remove1_eq)
  have "ring (h(p := None)) (idle_list s) (remove1 p xs)"
    using h(2) nn(2) mem by (intro ring_outside) auto
  moreover have "sorted (map (idle_of ((conn_h s)(p := None))) (remove1 p xs))"
    using sorted_map_remove1 [OF d(7), of p] mem
    by (subst sorted_map_cong [where g = "idle_of (conn_h s)"]) (auto simp: idle_of_def)
  ultimately have "server_inv ?s t (remove1 p xs)"
    using d(2-6) table_ok_close [OF d(5) c] mem by (auto simp: server_inv_def)
  moreover have "conn_done s p = Some ?s" using c h(1) nn fd by (simp add: conn_done_def)
  ultimately show ?thesis by auto
qed

section \<open>Handling an event\<close>

lemma table_ok_same:
  assumes "table_ok ch tbl" "ch p = Some c" "cfd c' = cfd c"
  shows "table_ok (ch(p \<mapsto> c')) tbl"
proof (rule table_okI)
  show "q \<noteq> NULL \<and> cfd e < length tbl \<and> tbl ! cfd e = q" if "(ch(p \<mapsto> c')) q = Some e" for q e
    using that table_okD(1) [OF assms(1), of q e] table_okD(1) [OF assms(1,2)] assms(3)
    by (auto split: if_splits)
  show "\<exists>e. (ch(p \<mapsto> c')) (tbl ! fd) = Some e \<and> cfd e = fd" if "fd < length tbl" "tbl ! fd \<noteq> NULL" for fd
    using table_okD(2) [OF assms(1) that] assms(2,3) by (cases "tbl ! fd = p") auto
qed

lemma connection_io_inv:
  assumes "server_inv s t xs" "p \<in> set xs" "t \<le> now" "connection_io now rs s p = Some (s', sent)"
  shows "\<exists>c'. server_inv s' now (remove1 p xs @ [p]) \<and> conn_h s' = (conn_h s)(p \<mapsto> c') \<and> idle_start c' = now"
proof -
  note d = server_invD [OF assms(1)]
  obtain c where c: "conn_h s p = Some c" using assms(2) d(2) by auto
  have nn: "p \<noteq> NULL" using d(9) [OF assms(2)] by auto
  from dl.touch [OF d(1) assms(2)] obtain h1 h2 where
    h: "dlist_detach (dl_h s) p = Some h1" "dlist_insert_before h1 (idle_list s) p = Some h2"
      "ring h2 (idle_list s) (remove1 p xs @ [p])" by blast
  let ?c = "c\<lparr>idle_start := now\<rparr>"
  from assms(4) c nn h obtain g c' rs' where
    f: "conn_dispatch rs (gd s) ?c = Some (g, c', sent, rs')"
      "s' = s\<lparr>gd := g, conn_h := (conn_h s)(p \<mapsto> c'), dl_h := h2\<rparr>"
    by (auto simp: connection_io_def bind_eq_Some_conv Let_def)
  have "conn_ok ?c" using d(6) [OF c] by (simp add: conn_ok_def wbuf_ok_def rbuf_ok_def)
  from conn_dispatch_ok [OF this f(1)] have ok: "conn_ok c'" "cfd c' = cfd c" "idle_start c' = now"
    by (auto simp: same_id_def)
  have mem: "set (remove1 p xs) = set xs - {p}" using d(8) by (rule set_remove1_eq)
  have "sorted (map (idle_of ((conn_h s)(p \<mapsto> c'))) (remove1 p xs))"
    using sorted_map_remove1 [OF d(7), of p] mem
    by (subst sorted_map_cong [where g = "idle_of (conn_h s)"]) (auto simp: idle_of_def)
  moreover have "\<forall>q \<in> set (remove1 p xs). idle_of ((conn_h s)(p \<mapsto> c')) q \<le> now"
    using mem d(2,6) assms(3) by (fastforce simp: idle_of_def intro: order_trans)
  ultimately have "sorted (map (idle_of ((conn_h s)(p \<mapsto> c'))) (remove1 p xs @ [p]))"
    using ok(3) by (simp add: sorted_append)
  moreover have "\<forall>q c. ((conn_h s)(p \<mapsto> c')) q = Some c \<longrightarrow> conn_ok c \<and> idle_start c \<le> now"
    using d(6) ok assms(3) by (auto intro: order_trans)
  moreover have "set (remove1 p xs @ [p]) = dom ((conn_h s)(p \<mapsto> c'))" using mem d(2) assms(2) by auto
  moreover have "\<forall>q \<in> set (remove1 p xs @ [p]). q < heap_top s" using mem d(4) assms(2) by auto
  ultimately have "server_inv s' now (remove1 p xs @ [p])"
    using h(3) d(3) table_ok_same [OF d(5) c ok(2)] unfolding server_inv_def f(2)
    by (simp del: fun_upd_apply set_append)
  then show ?thesis using f(2) ok(3) by auto
qed

section \<open>Accepting a connection\<close>

lemma conn_put_nth:
  "length (conn_put tbl p fd) = max (length tbl) (fd + 1)"
  "i < length (conn_put tbl p fd) \<Longrightarrow>
    conn_put tbl p fd ! i = (if i = fd then p else if i < length tbl then tbl ! i else NULL)"
  by (auto simp: conn_put_def Let_def nth_list_update nth_append)

text \<open>The kernel hands out a descriptor that is not in use.\<close>

definition fd_free :: "ptr list \<Rightarrow> nat \<Rightarrow> bool" where
  "fd_free tbl fd \<longleftrightarrow> (fd < length tbl \<longrightarrow> tbl ! fd = NULL)"

lemma table_ok_put:
  assumes "table_ok ch tbl" "ch p = None" "p \<noteq> NULL" "fd_free tbl fd" "cfd c = fd"
  shows "table_ok (ch(p \<mapsto> c)) (conn_put tbl p fd)"
proof (rule table_okI)
  fix q e
  assume a: "(ch(p \<mapsto> c)) q = Some e"
  show "q \<noteq> NULL \<and> cfd e < length (conn_put tbl p fd) \<and> conn_put tbl p fd ! cfd e = q"
  proof (cases "q = p")
    case True
    then show ?thesis using a assms(3,5) by (simp add: conn_put_nth)
  next
    case False
    then have q: "q \<noteq> NULL" "cfd e < length tbl" "tbl ! cfd e = q" using a table_okD(1) [OF assms(1), of q e] by auto
    then have "cfd e \<noteq> fd" using assms(4) by (auto simp: fd_free_def)
    then show ?thesis using q by (simp add: conn_put_nth)
  qed
next
  fix i
  assume "i < length (conn_put tbl p fd)" "conn_put tbl p fd ! i \<noteq> NULL"
  then show "\<exists>e. (ch(p \<mapsto> c)) (conn_put tbl p fd ! i) = Some e \<and> cfd e = i"
    using table_okD(2) [OF assms(1), of i] assms(2,5) by (auto simp: conn_put_nth split: if_splits)
qed

lemma accept_inv:
  assumes "server_inv s t xs" "t \<le> now" "fd_free (fd2conn s) fd" "length rb = buf_cap" "length wb = buf_cap"
  shows "\<exists>s'. accept_new_conn (Some fd) (Some (rb, wb)) now s = Some (s', 0) \<and> server_inv s' now (xs @ [heap_top s]) \<and>
    conn_h s' = (conn_h s)(heap_top s \<mapsto> conn_new fd now rb wb)"
proof -
  note d = server_invD [OF assms(1)]
  let ?p = "heap_top s" and ?c = "conn_new fd now rb wb"
  let ?h = "(dl_h s)(?p \<mapsto> \<lparr>dprev = NULL, dnext = NULL\<rparr>)"
  have new: "?p \<notin> set xs" "?p \<noteq> idle_list s" "?p \<noteq> NULL" using d(3,4) by auto
  then have "ring ?h (idle_list s) xs" using d(1) by (intro ring_outside) auto
  from dl.push_law [OF this _ new(3,2,1)] obtain h' where
    h': "dlist_insert_before ?h (idle_list s) ?p = Some h'" "ring h' (idle_list s) (xs @ [?p])"
    by (auto simp: dl_live_def)
  let ?s = "s\<lparr>conn_h := (conn_h s)(?p \<mapsto> ?c), dl_h := h', fd2conn := conn_put (fd2conn s) ?p fd, heap_top := ?p + 1\<rparr>"
  have none: "conn_h s ?p = None" using new(1) d(2) by auto
  have "sorted (map (idle_of ((conn_h s)(?p \<mapsto> ?c))) xs)"
    using d(7) new(1) by (subst sorted_map_cong [where g = "idle_of (conn_h s)"]) (auto simp: idle_of_def)
  moreover have "\<forall>q \<in> set xs. idle_of ((conn_h s)(?p \<mapsto> ?c)) q \<le> now"
    using new(1) d(2,6) assms(2) by (fastforce simp: idle_of_def intro: order_trans)
  ultimately have "sorted (map (idle_of ((conn_h s)(?p \<mapsto> ?c))) (xs @ [?p]))"
    by (simp add: sorted_append conn_new_def)
  moreover have "table_ok (conn_h ?s) (fd2conn ?s)"
    using table_ok_put [OF d(5) none new(3) assms(3)] by (simp add: conn_new_def)
  moreover have "\<forall>q c. ((conn_h s)(?p \<mapsto> ?c)) q = Some c \<longrightarrow> conn_ok c \<and> idle_start c \<le> now"
    using d(6) assms(2) conn_new_ok(1) [OF assms(4,5)] by (auto simp: conn_new_def intro: order_trans)
  ultimately have "server_inv ?s now (xs @ [?p])"
    using h'(2) d(2-4) by (auto simp: server_inv_def less_Suc_eq)
  moreover have "accept_new_conn (Some fd) (Some (rb, wb)) now s = Some (?s, 0)"
    using h'(1) by (simp add: accept_new_conn_def Let_def)
  ultimately show ?thesis by auto
qed


section \<open>Timers\<close>

text \<open>Times below \<open>2 ^ 63\<close> microseconds, three hundred thousand years after boot.\<close>

definition clock_ok :: "u64 \<Rightarrow> bool" where
  "clock_ok t \<longleftrightarrow> t < 2 ^ 63"

definition expired :: "u64 \<Rightarrow> conn \<Rightarrow> bool" where
  "expired now c \<longleftrightarrow> unat (idle_start c) + 5000000 < unat now + 1000"

lemma unat_next_us: "clock_ok t \<Longrightarrow> idle_start c \<le> t \<Longrightarrow> unat (next_us c) = unat (idle_start c) + 5000000"
  unfolding next_us_def k_idle_timeout_ms_def
  by (subst unat_add_small) (auto simp: clock_ok_def word_le_nat_alt word_less_nat_alt)

lemma timer_expired:
  assumes "clock_ok t" "idle_start c \<le> t" "t \<le> now" "clock_ok now"
  shows "now + 1000 \<le> next_us c \<longleftrightarrow> \<not> expired now c"
proof -
  have "unat (now + 1000) = unat now + 1000"
    using assms(4) by (subst unat_add_small) (auto simp: clock_ok_def word_less_nat_alt)
  then show ?thesis using unat_next_us [OF assms(1,2)] by (auto simp: word_le_nat_alt expired_def)
qed

definition live_conns :: "u64 \<Rightarrow> (ptr \<rightharpoonup> conn) \<Rightarrow> ptr \<rightharpoonup> conn" where
  "live_conns now ch = (\<lambda>p. case ch p of Some c \<Rightarrow> if expired now c then None else Some c | None \<Rightarrow> None)"

lemma process_timers_inv:
  assumes "server_inv s t xs" "t \<le> now" "clock_ok now"
  shows "\<exists>s' ys. process_timers now s = Some s' \<and> server_inv s' t ys \<and> conn_h s' = live_conns now (conn_h s) \<and>
    gd s' = gd s"
  using assms
proof (induction xs arbitrary: s)
  case Nil
  note d = server_invD [OF Nil(1)]
  have "conn_h s = Map.empty" using d(2) by auto
  moreover have "process_timers now s = Some s"
    using dl.empty_law [OF d(1)] by (subst process_timers.simps) simp
  ultimately show ?case using Nil(1) by (auto simp: live_conns_def)
next
  case (Cons p xs)
  note d = server_invD [OF Cons.prems(1)]
  obtain c where c: "conn_h s p = Some c" using d(2) by auto
  have t: "clock_ok t" "idle_start c \<le> t" using d(6) [OF c] Cons.prems(2,3) by (auto simp: clock_ok_def)
  note ex = timer_expired [OF t Cons.prems(2,3)]
  have step: "process_timers now s = (if expired now c then conn_done s p \<bind> process_timers now else Some s)"
    using dl.empty_law [OF d(1)] dl.first_law [OF d(1)] c d(9) [of p] ex
    by (subst process_timers.simps) simp
  show ?case
  proof (cases "expired now c")
    case True
    from conn_done_inv [OF Cons.prems(1), of p] obtain s1 where
      s1: "conn_done s p = Some s1" "server_inv s1 t xs" "conn_h s1 = (conn_h s)(p := None)" "gd s1 = gd s" by auto
    from Cons.IH [OF s1(2) Cons.prems(2,3)] obtain s' ys where
      i: "process_timers now s1 = Some s'" "server_inv s' t ys" "conn_h s' = live_conns now (conn_h s1)" "gd s' = gd s1" by blast
    have "live_conns now (conn_h s1) = live_conns now (conn_h s)"
      using s1(3) c True by (auto simp: live_conns_def)
    with i s1(1,4) step True show ?thesis by auto
  next
    case False
    have "\<not> expired now c'" if "conn_h s q = Some c'" for q c'
    proof -
      have "q \<in> set (p # xs)" using that d(2) by auto
      then have "idle_start c \<le> idle_start c'" using d(7) c that by auto
      with False show ?thesis by (simp add: expired_def word_le_nat_alt)
    qed
    then have "live_conns now (conn_h s) = conn_h s" by (auto simp: live_conns_def split: option.split)
    with False step Cons.prems(1) show ?thesis by auto
  qed
qed

lemma next_timer_ms_inv:
  assumes "server_inv s t xs" "t \<le> now" "clock_ok now"
  shows "\<exists>ms. next_timer_ms now s = Some ms \<and>
    (case xs of [] \<Rightarrow> ms = 10000
     | p # _ \<Rightarrow> unat ms = (unat (idle_of (conn_h s) p) + 5000000 - unat now) div 1000)"
proof (cases xs)
  case Nil
  then show ?thesis using dl.empty_law [OF server_invD(1) [OF assms(1)]] by (simp add: next_timer_ms_def)
next
  case (Cons p ys)
  note d = server_invD [OF assms(1)]
  obtain c where c: "conn_h s p = Some c" using d(2) Cons by auto
  have t: "clock_ok t" "idle_start c \<le> t" using d(6) [OF c] assms(2,3) by (auto simp: clock_ok_def)
  note n = unat_next_us [OF t]
  have le: "unat (idle_start c) \<le> unat now" using t(2) assms(2) by (simp add: word_le_nat_alt)
  have r: "next_timer_ms now s = Some (if next_us c \<le> now then 0 else ucast ((next_us c - now) div 1000))"
    using dl.empty_law [OF d(1)] dl.first_law [OF d(1) [unfolded Cons]] c d(9) [of p] Cons by (simp add: next_timer_ms_def)
  show ?thesis
  proof (cases "next_us c \<le> now")
    case True
    then show ?thesis using r n Cons c by (simp add: word_le_nat_alt)
  next
    case False
    then have sub: "unat (next_us c - now) = unat (idle_start c) + 5000000 - unat now"
      using n by (simp add: unat_sub)
    then have "unat ((next_us c - now) div 1000) = (unat (idle_start c) + 5000000 - unat now) div 1000"
      by (simp add: unat_div)
    moreover have "(unat (idle_start c) + 5000000 - unat now) div 1000 < 2 ^ 32" using le by simp
    ultimately have "unat (ucast ((next_us c - now) div 1000) :: u32) = (unat (idle_start c) + 5000000 - unat now) div 1000"
      by (simp add: unsigned_ucast_eq take_bit_nat_eq_self_iff)
    then show ?thesis using r False Cons c by simp
  qed
qed


section \<open>Turns of the loop\<close>

fun in_order :: "u64 \<Rightarrow> (u64 \<times> io) option list \<Rightarrow> bool" where
  "in_order t [] \<longleftrightarrow> True"
| "in_order t (None # evs) \<longleftrightarrow> in_order t evs"
| "in_order t (Some (now, _) # evs) \<longleftrightarrow> t \<le> now \<and> in_order now evs"

fun last_time :: "u64 \<Rightarrow> (u64 \<times> io) option list \<Rightarrow> u64" where
  "last_time t [] = t"
| "last_time t (None # evs) = last_time t evs"
| "last_time t (Some (now, _) # evs) = last_time now evs"

lemma last_time_mono: "in_order t evs \<Longrightarrow> t \<le> last_time t evs"
  by (induction t evs rule: in_order.induct) (auto intro: order_trans)

lemma handle_active_inv:
  assumes "server_inv s t xs" "none_ended s" "in_order t evs" "handle_active args evs s = Some (s', out)"
  shows "\<exists>ys. server_inv s' (last_time t evs) ys \<and> none_ended s'"
  using assms
proof (induction args evs s arbitrary: t xs out rule: handle_active.induct)
  case (1 fd w args now rs evs s)
  note d = server_invD [OF 1(2)]
  from 1(5) obtain p s1 sent c s2 out' where
    st: "nth_opt (fd2conn s) fd = Some p" "connection_io now rs s p = Some (s1, sent)" "deref (conn_h s1) p = Some c"
      "(if cstate c = STATE_END then conn_done s1 p else Some s1) = Some s2" "handle_active args evs s2 = Some (s', out')"
    by (auto simp: bind_eq_Some_conv)
  have p: "p \<in> set xs" using st(2) d(2) by (auto simp: connection_io_def bind_eq_Some_conv deref_def split: if_splits)
  have t: "t \<le> now" "in_order now evs" using 1(4) by auto
  from connection_io_inv [OF 1(2) p t(1) st(2)] obtain c' where
    i: "server_inv s1 now (remove1 p xs @ [p])" "conn_h s1 = (conn_h s)(p \<mapsto> c')" by blast
  have "c' = c" using st(3) i(2) d(9) [OF p] by simp
  have "\<exists>ys. server_inv s2 now ys \<and> none_ended s2"
  proof (cases "cstate c = STATE_END")
    case True
    from conn_done_inv [OF i(1), of p] st(4) True obtain ys where
      "server_inv s2 now ys" "conn_h s2 = (conn_h s1)(p := None)" by auto
    then show ?thesis using i(2) 1(3) by (auto simp: none_ended_def)
  next
    case False
    then show ?thesis using i st(4) 1(3) \<open>c' = c\<close> by (auto simp: none_ended_def)
  qed
  then obtain ys where "server_inv s2 now ys" "none_ended s2" by blast
  from 1(1) [OF st(1,2) refl st(3,4) this t(2) st(5)] show ?case by simp
qed (auto intro: server_inv_mono last_time_mono)

text \<open>
  What a turn gets from outside: the clock goes forward, and \<open>accept\<close> gives a descriptor that is free
  when it is called, \<open>malloc\<close> memory of the right size.
\<close>

fun incoming_ok :: "server \<Rightarrow> u64 \<Rightarrow> (nat option \<times> (byte list \<times> byte list) option \<times> u64) option \<Rightarrow> bool" where
  "incoming_ok s t None \<longleftrightarrow> True"
| "incoming_ok s t (Some (accepted, malloced, now)) \<longleftrightarrow> t \<le> now \<and> clock_ok now \<and>
     (case accepted of None \<Rightarrow> True | Some fd \<Rightarrow> fd_free (fd2conn s) fd) \<and>
     (case malloced of None \<Rightarrow> True | Some (rb, wb) \<Rightarrow> length rb = buf_cap \<and> length wb = buf_cap)"

fun incoming_time :: "u64 \<Rightarrow> (nat option \<times> (byte list \<times> byte list) option \<times> u64) option \<Rightarrow> u64" where
  "incoming_time t None = t"
| "incoming_time t (Some (_, _, now)) = now"

definition turn_ok :: "u64 \<Rightarrow> turn \<Rightarrow> bool" where
  "turn_ok t tr \<longleftrightarrow> t \<le> timer_now tr \<and> in_order (timer_now tr) (active tr) \<and>
     last_time (timer_now tr) (active tr) \<le> process_now tr \<and> clock_ok (process_now tr)"

lemma none_ended_live: "none_ended s \<Longrightarrow> conn_h s' = live_conns now (conn_h s) \<Longrightarrow> none_ended s'"
  by (auto simp: none_ended_def live_conns_def split: option.splits if_splits)

lemma serve_turn_inv:
  assumes "server_inv s t xs" "none_ended s" "turn_ok t tr" "serve_turn tr s = Some (s', ms, out)"
  shows "\<exists>ys. server_inv s' (process_now tr) ys \<and> none_ended s'"
proof -
  from assms(4) obtain args s1 where
    st: "handle_active args (active tr) s = Some (s1, out)" "process_timers (process_now tr) s1 = Some s'"
    by (auto simp: serve_turn_def bind_eq_Some_conv)
  have t: "t \<le> timer_now tr" "in_order (timer_now tr) (active tr)"
    "last_time (timer_now tr) (active tr) \<le> process_now tr" "clock_ok (process_now tr)"
    using assms(3) by (auto simp: turn_ok_def)
  from handle_active_inv [OF server_inv_mono [OF assms(1) t(1)] assms(2) t(2) st(1)] obtain ys where
    y: "server_inv s1 (last_time (timer_now tr) (active tr)) ys" "none_ended s1" by blast
  from process_timers_inv [OF y(1) t(3,4)] st(2) obtain zs where
    "server_inv s' (last_time (timer_now tr) (active tr)) zs" "conn_h s' = live_conns (process_now tr) (conn_h s1)" by auto
  then show ?thesis using server_inv_mono [OF _ t(3)] none_ended_live [OF y(2)] by blast
qed

lemma main_turn_inv:
  assumes "server_inv s t xs" "none_ended s" "turn_ok t tr" "main_turn tr s = Some (s', ms, out)"
    and "\<And>s1 ms out. serve_turn tr s = Some (s1, ms, out) \<Longrightarrow> incoming_ok s1 (process_now tr) (incoming tr)"
  shows "\<exists>ys. server_inv s' (incoming_time (process_now tr) (incoming tr)) ys \<and> none_ended s'"
proof -
  from assms(4) obtain s1 where st: "serve_turn tr s = Some (s1, ms, out)"
    "(case incoming tr of None \<Rightarrow> Some s1
      | Some (accepted, malloced, now) \<Rightarrow> map_option fst (accept_new_conn accepted malloced now s1)) = Some s'"
    by (auto simp: main_turn_def bind_eq_Some_conv)
  from serve_turn_inv [OF assms(1-3) st(1)] obtain ys where
    y: "server_inv s1 (process_now tr) ys" "none_ended s1" by blast
  show ?thesis
  proof (cases "incoming tr")
    case None
    then show ?thesis using st(2) y by auto
  next
    case (Some i)
    obtain accepted malloced now where i: "i = (accepted, malloced, now)" by (cases i)
    from st(2) Some i obtain fd where fd: "accepted = Some fd" by (auto simp: accept_new_conn_def bind_eq_Some_conv)
    have ok: "process_now tr \<le> now" "fd_free (fd2conn s1) fd" using assms(5) [OF st(1)] Some i fd by auto
    show ?thesis
    proof (cases malloced)
      case None
      then show ?thesis using st(2) Some i fd y server_inv_mono [OF y(1) ok(1)] by (auto simp: accept_new_conn_def)
    next
      case (Some m)
      obtain rb wb where m: "m = (rb, wb)" by (cases m)
      then have "length rb = buf_cap" "length wb = buf_cap"
        using assms(5) [OF st(1)] \<open>incoming tr = Some i\<close> i Some by auto
      from accept_inv [OF y(1) ok this] obtain s2 where
        a: "accept_new_conn accepted malloced now s1 = Some (s2, 0)" "server_inv s2 now (ys @ [heap_top s1])"
          "conn_h s2 = (conn_h s1)(heap_top s1 \<mapsto> conn_new fd now rb wb)" using fd Some m by auto
      then have "s' = s2" using st(2) \<open>incoming tr = Some i\<close> i by simp
      then show ?thesis using a(2,3) y(2) \<open>incoming tr = Some i\<close> i by (auto simp: none_ended_def conn_new_def)
    qed
  qed
qed

text \<open>The states the server gets into at the top of its loop, with the latest time.\<close>

inductive reachable :: "gdata \<Rightarrow> u64 \<Rightarrow> server \<Rightarrow> bool" for g where
  start: "server_init g = Some s \<Longrightarrow> reachable g 0 s"
| turn: "reachable g t s \<Longrightarrow> turn_ok t tr \<Longrightarrow> main_turn tr s = Some (s', ms, out) \<Longrightarrow>
    \<forall>s1 ms out. serve_turn tr s = Some (s1, ms, out) \<longrightarrow> incoming_ok s1 (process_now tr) (incoming tr) \<Longrightarrow>
    reachable g (incoming_time (process_now tr) (incoming tr)) s'"

lemma server_init_inv:
  assumes "server_init g = Some s"
  shows "server_inv s 0 []" "none_ended s"
  using assms by (auto simp: server_init_def dlist_init_def server_inv_def ring_def table_ok_def none_ended_def)

lemma reachable_inv: "reachable g t s \<Longrightarrow> \<exists>xs. server_inv s t xs \<and> none_ended s"
proof (induction rule: reachable.induct)
  case (start s)
  from server_init_inv [OF start] show ?case by blast
next
  case (turn t s tr s' ms out)
  then obtain xs where "server_inv s t xs" "none_ended s" by blast
  from main_turn_inv [OF this turn(2,3)] turn(4) show ?case by blast
qed

text \<open>A run of \<open>main\<close> whose turns get proper input stays in these states.\<close>

fun turns_ok :: "u64 \<Rightarrow> turn list \<Rightarrow> server \<Rightarrow> bool" where
  "turns_ok t [] s \<longleftrightarrow> True"
| "turns_ok t (tr # trs) s \<longleftrightarrow> turn_ok t tr \<and>
     (\<forall>s1 ms out. serve_turn tr s = Some (s1, ms, out) \<longrightarrow> incoming_ok s1 (process_now tr) (incoming tr)) \<and>
     (\<forall>s' ms out. main_turn tr s = Some (s', ms, out) \<longrightarrow>
        turns_ok (incoming_time (process_now tr) (incoming tr)) trs s')"

lemma main_loop_reachable:
  "reachable g t s \<Longrightarrow> turns_ok t trs s \<Longrightarrow> main_loop trs s = Some (s', outs) \<Longrightarrow> \<exists>t'. reachable g t' s'"
proof (induction trs arbitrary: t s outs)
  case (Cons tr trs)
  from Cons.prems(3) obtain s1 ms out outs' where
    m: "main_turn tr s = Some (s1, ms, out)" "main_loop trs s1 = Some (s', outs')"
    by (auto simp: bind_eq_Some_conv)
  have r: "reachable g (incoming_time (process_now tr) (incoming tr)) s1"
    using reachable.turn [OF Cons.prems(1) _ m(1)] Cons.prems(2) by auto
  from Cons.IH [OF r _ m(2)] Cons.prems(2) m(1) show ?case by auto
qed auto

lemma server_main_reachable:
  assumes "server_main addrs listens ts g = Some (Inr (s', outs))" "\<forall>s. server_init g = Some s \<longrightarrow> turns_ok 0 ts s"
  shows "\<exists>t. reachable g t s'"
proof -
  from assms(1) obtain s where "server_init g = Some s" "main_loop ts s = Some (s', outs)"
    by (auto simp: server_main_def Let_def bind_eq_Some_conv split: if_splits)
  then show ?thesis using main_loop_reachable [OF reachable.start] assms(2) by blast
qed

text \<open>A first turn, in which a client connects and gets descriptor 5.\<close>

definition first_turn :: turn where
  "first_turn = \<lparr>timer_now = 1, active = [], process_now = 2,
     incoming = Some (Some 5, Some (replicate buf_cap 0, replicate buf_cap 0), 3)\<rparr>"

lemma empty_server_turn:
  assumes "server_init g = Some s"
  shows "serve_turn first_turn s = Some (s, 10000, [])"
proof -
  from assms have s: "dl_h s = [1 \<mapsto> \<lparr>dprev = 1, dnext = 1\<rparr>]" "conn_h s = Map.empty" "fd2conn s = []" "idle_list s = 1"
    by (auto simp: server_init_def dlist_init_def)
  then have "dlist_empty (dl_h s) (idle_list s) = Some True" by (simp add: dlist_empty_def)
  then have "next_timer_ms 1 s = Some 10000" "process_timers 2 s = Some s"
    by (simp_all add: next_timer_ms_def process_timers.simps [of 2 s])
  then show ?thesis using s(2,3) by (simp add: serve_turn_def first_turn_def)
qed

lemma first_turn_runs:
  "\<exists>s. server_main (Some [No_bind, Bound]) True [first_turn] gdata0 = Some (Inr (s, [[]])) \<and>
     (\<forall>s. server_init gdata0 = Some s \<longrightarrow> turns_ok 0 [first_turn] s) \<and> dom (conn_h s) = {2}"
proof -
  obtain s where s: "server_init gdata0 = Some s" by (auto simp: server_init_def dlist_init_def)
  then have f: "fd_free (fd2conn s) 5" "heap_top s = 2" "conn_h s = Map.empty"
    by (auto simp: server_init_def dlist_init_def fd_free_def)
  have "(0::u64) \<le> 3" by simp
  from accept_inv [OF server_init_inv(1) [OF s] this f(1), of "replicate buf_cap 0" "replicate buf_cap 0"] f
  obtain s' where s': "accept_new_conn (Some 5) (Some (replicate buf_cap 0, replicate buf_cap 0)) 3 s = Some (s', 0)"
    "dom (conn_h s') = {2}" by auto
  have "main_turn first_turn s = Some (s', 10000, [])"
    using empty_server_turn [OF s] s'(1) by (simp add: main_turn_def) (simp add: first_turn_def)
  then have "server_main (Some [No_bind, Bound]) True [first_turn] gdata0 = Some (Inr (s', [[]]))"
    using s by (simp add: server_main_def server_setup_def)
  moreover have "turn_ok 0 first_turn" by (simp add: turn_ok_def first_turn_def clock_ok_def)
  moreover have "incoming_ok s (process_now first_turn) (incoming first_turn)"
    using f(1) by (simp add: first_turn_def clock_ok_def)
  ultimately show ?thesis using s'(2) s empty_server_turn [OF s] by auto
qed

section \<open>Properties of the event loop\<close>

text \<open>
  C8. The invariant of the server.  Whenever \<open>main\<close> is at the top of its loop, the idle list is a ring of
  exactly the live connections in the order of their last activity, the most recent one at its end (the
  README says that an active connection moves to the head), the table by descriptor points at
  exactly these connections, each under its own descriptor, every connection has its buffers in bounds,
  and none waits to be closed.
\<close>

theorem server_invariant:
  assumes "server_main addrs listens ts g = Some (Inr (s, outs))"
    and "\<forall>s. server_init g = Some s \<longrightarrow> turns_ok 0 ts s"
  shows "\<exists>xs. ring (dl_h s) (idle_list s) xs \<and> set xs = dom (conn_h s) \<and>
    sorted (map (idle_of (conn_h s)) xs) \<and> table_ok (conn_h s) (fd2conn s) \<and>
    (\<forall>p c. conn_h s p = Some c \<longrightarrow> conn_ok c \<and> cstate c \<noteq> STATE_END)"
proof -
  from server_main_reachable [OF assms] obtain t where "reachable g t s" by blast
  from reachable_inv [OF this] show ?thesis unfolding server_inv_def none_ended_def by blast
qed

theorem server_invariant_witness:
  "\<exists>s xs. server_main (Some [No_bind, Bound]) True [first_turn] gdata0 = Some (Inr (s, [[]])) \<and>
     ring (dl_h s) (idle_list s) xs \<and> set xs = {2} \<and> table_ok (conn_h s) (fd2conn s)"
proof -
  from first_turn_runs obtain s where s:
    "server_main (Some [No_bind, Bound]) True [first_turn] gdata0 = Some (Inr (s, [[]]))"
    "\<forall>s. server_init gdata0 = Some s \<longrightarrow> turns_ok 0 [first_turn] s" "dom (conn_h s) = {2}" by blast
  from server_invariant [OF s(1,2)] s(1,3) show ?thesis by metis
qed

text \<open>
  C9. The timers close exactly the idle connections.  \<open>process_timers\<close> returns; a connection is still
  there, unchanged, if and only if its last activity is less than 4.999 seconds ago (the timeout of five
  seconds less the resolution of \<open>poll\<close>), and the invariant is kept.
\<close>

theorem process_timers_exact:
  assumes "server_inv s t xs" "t \<le> now" "clock_ok now"
  shows "\<exists>s' ys. process_timers now s = Some s' \<and> server_inv s' t ys \<and> gd s' = gd s \<and>
    conn_h s' = (\<lambda>p. case conn_h s p of
      Some c \<Rightarrow> if unat (idle_start c) + 5000000 < unat now + 1000 then None else Some c | None \<Rightarrow> None)"
  using process_timers_inv [OF assms] unfolding live_conns_def expired_def by metis

lemma one_conn_server:
  "\<exists>s xs. server_inv s 7 xs \<and> conn_h s = [2 \<mapsto> conn_new 5 7 (replicate buf_cap 0) (replicate buf_cap 0)]"
proof -
  obtain s where s: "server_init gdata0 = Some s" by (auto simp: server_init_def dlist_init_def)
  then have "fd_free (fd2conn s) 5" "heap_top s = 2" "conn_h s = Map.empty"
    by (auto simp: server_init_def dlist_init_def fd_free_def)
  then show ?thesis using accept_inv [OF server_init_inv(1) [OF s], of 7 5 "replicate buf_cap 0" "replicate buf_cap 0"]
    by auto
qed

theorem process_timers_exact_witness:
  "\<exists>s xs s'. server_inv s 7 xs \<and> conn_h s 2 \<noteq> None \<and> process_timers 6000000 s = Some s' \<and> conn_h s' 2 = None"
proof -
  from one_conn_server obtain s xs where
    s: "server_inv s 7 xs" "conn_h s = [2 \<mapsto> conn_new 5 7 (replicate buf_cap 0) (replicate buf_cap 0)]" by blast
  from process_timers_exact [OF s(1), of 6000000] obtain s' where "process_timers 6000000 s = Some s'" "conn_h s' 2 = None"
    using s(2) by (auto simp: clock_ok_def conn_new_def)
  with s show ?thesis by auto
qed

text \<open>
  C26. \<open>poll\<close> wakes up for the timers and does not spin.  \<open>next_timer_ms\<close> returns the milliseconds, rounded
  down, until the first connection has been idle for five seconds, 10000 without connections; and when it
  is 0, a call of \<open>process_timers\<close> at the same time closes at least one connection.
\<close>

theorem next_timer_accurate:
  assumes "server_inv s t xs" "t \<le> now" "clock_ok now"
  shows "\<exists>ms. next_timer_ms now s = Some ms \<and> (conn_h s = Map.empty \<longrightarrow> ms = 10000) \<and>
    (\<forall>p c. conn_h s p = Some c \<longrightarrow> unat ms \<le> (unat (idle_start c) + 5000000 - unat now) div 1000) \<and>
    (conn_h s \<noteq> Map.empty \<longrightarrow> (\<exists>p c. conn_h s p = Some c \<and>
       unat ms = (unat (idle_start c) + 5000000 - unat now) div 1000)) \<and>
    (ms = 0 \<longrightarrow> (\<exists>p c s'. conn_h s p = Some c \<and> process_timers now s = Some s' \<and> conn_h s' p = None))"
proof (cases xs)
  case Nil
  then have "conn_h s = Map.empty" using server_invD(2) [OF assms(1)] by auto
  with next_timer_ms_inv [OF assms] Nil show ?thesis by auto
next
  case (Cons p ys)
  note d = server_invD [OF assms(1)]
  obtain c where c: "conn_h s p = Some c" using d(2) Cons by auto
  from next_timer_ms_inv [OF assms] Cons c obtain ms where
    ms: "next_timer_ms now s = Some ms" "unat ms = (unat (idle_start c) + 5000000 - unat now) div 1000" by auto
  have first: "unat (idle_start c) \<le> unat (idle_start e)" if "conn_h s q = Some e" for q e
  proof -
    have "q \<in> set xs" using that d(2) by auto
    then have "idle_start c \<le> idle_start e" using d(7) c that Cons by auto
    then show ?thesis by (simp add: word_le_nat_alt)
  qed
  have "unat ms \<le> (unat (idle_start e) + 5000000 - unat now) div 1000" if "conn_h s q = Some e" for q e
    unfolding ms(2) using first [OF that] by (intro div_le_mono diff_le_mono) simp
  moreover have "\<exists>p c s'. conn_h s p = Some c \<and> process_timers now s = Some s' \<and> conn_h s' p = None" if "ms = 0"
  proof -
    have "expired now c" using ms(2) that by (simp add: expired_def div_eq_0_iff)
    with process_timers_inv [OF assms] c show ?thesis by (fastforce simp: live_conns_def)
  qed
  moreover have "conn_h s \<noteq> Map.empty" using c by auto
  ultimately show ?thesis using ms c by (intro exI [of _ ms]) (auto simp del: fun_upd_apply)
qed

theorem next_timer_accurate_witness:
  "\<exists>s xs ms. server_inv s 7 xs \<and> next_timer_ms 1000007 s = Some ms \<and> unat ms = 4000"
proof -
  from one_conn_server obtain s xs where
    s: "server_inv s 7 xs" "conn_h s = [2 \<mapsto> conn_new 5 7 (replicate buf_cap 0) (replicate buf_cap 0)]" by blast
  from next_timer_accurate [OF s(1), of 1000007] obtain ms where
    m: "next_timer_ms 1000007 s = Some ms" "\<exists>p c. conn_h s p = Some c \<and> unat ms = (unat (idle_start c) + 5000000 - 1000007) div 1000"
    using s(2) by (auto simp: clock_ok_def)
  then have "unat ms = 4000" using s(2) by (auto simp: conn_new_def split: if_splits)
  with s m show ?thesis by blast
qed

text \<open>
  Accepting a connection.  With a free descriptor and memory, \<open>accept_new_conn\<close> returns 0; the new
  connection reads its first request, is in the table under its descriptor and last in the idle list, and
  all others are as before.
\<close>

theorem accept_correct:
  assumes "server_inv s t xs" "t \<le> now" "fd_free (fd2conn s) fd" "length rb = buf_cap" "length wb = buf_cap"
  shows "\<exists>s' p. accept_new_conn (Some fd) (Some (rb, wb)) now s = Some (s', 0) \<and> server_inv s' now (xs @ [p]) \<and>
    conn_h s p = None \<and> conn_h s' = (conn_h s)(p \<mapsto> conn_new fd now rb wb)"
proof -
  have "heap_top s \<notin> set xs" using server_invD(4) [OF assms(1)] by auto
  then have "conn_h s (heap_top s) = None" using server_invD(2) [OF assms(1)] by auto
  with accept_inv [OF assms] show ?thesis by blast
qed

theorem accept_correct_witness:
  "\<exists>s s' p. server_init gdata0 = Some s \<and>
    accept_new_conn (Some 5) (Some (replicate buf_cap 0, replicate buf_cap 0)) 7 s = Some (s', 0) \<and> server_inv s' 7 [p]"
proof -
  obtain s where s: "server_init gdata0 = Some s" by (auto simp: server_init_def dlist_init_def)
  then have "fd_free (fd2conn s) 5" by (auto simp: server_init_def dlist_init_def fd_free_def)
  from accept_correct [OF server_init_inv(1) [OF s] _ this, of 7 "replicate buf_cap 0" "replicate buf_cap 0"] s
  show ?thesis by fastforce
qed

end
