(* ===== verification/Server_Spec.thy ===== *)
theory Server_Spec
  imports Server_Refine Conn_Stream
begin

text \<open>
  The event loop without addresses: its state is the keyspace and a map from descriptors to connections.
  The table of pointers, the intrusive list and the timers are shown to implement it step by step,
  including that none of them is a reason for the loop to fail.
\<close>

section \<open>The specification\<close>

type_synonym net = "gdata \<times> (nat \<rightharpoonup> conn)"

text \<open>An event for a descriptor; the connection is removed when it has ended.\<close>

definition spec_event :: "nat \<Rightarrow> u64 \<Rightarrow> io \<Rightarrow> net \<Rightarrow> (net \<times> byte list) option" where
  "spec_event fd now rs a = (case a of (g, cs) \<Rightarrow> do {
     c \<leftarrow> cs fd;
     (g, c, sent, rs) \<leftarrow> conn_dispatch rs g (c\<lparr>idle_start := now\<rparr>);
     Some ((g, cs(fd := if cstate c = STATE_END then None else Some c)), sent) })"

fun spec_active :: "nat list \<Rightarrow> (u64 \<times> io) option list \<Rightarrow> net \<Rightarrow> (net \<times> (nat \<times> byte list) list) option" where
  "spec_active (fd # fds) (Some (now, rs) # evs) a = do {
     (a, sent) \<leftarrow> spec_event fd now rs a;
     (a, out) \<leftarrow> spec_active fds evs a;
     Some (a, (fd, sent) # out)
   }"
| "spec_active (_ # fds) (None # evs) a = spec_active fds evs a"
| "spec_active _ _ a = Some (a, [])"

definition spec_timers :: "u64 \<Rightarrow> net \<Rightarrow> net" where
  "spec_timers now a = (case a of (g, cs) \<Rightarrow>
     (g, \<lambda>fd. case cs fd of Some c \<Rightarrow> if expired now c then None else Some c | None \<Rightarrow> None))"

definition spec_serve :: "turn \<Rightarrow> net \<Rightarrow> (net \<times> (nat \<times> byte list) list) option" where
  "spec_serve t a = do {
     (a, out) \<leftarrow> spec_active (sorted_list_of_set (dom (snd a))) (active t) a;
     Some (spec_timers (process_now t) a, out)
   }"

fun spec_incoming :: "(nat option \<times> (byte list \<times> byte list) option \<times> u64) option \<Rightarrow> net \<Rightarrow> net option" where
  "spec_incoming None a = Some a"
| "spec_incoming (Some (None, _, _)) a = None"
| "spec_incoming (Some (Some fd, None, _)) a = Some a"
| "spec_incoming (Some (Some fd, Some (rb, wb), now)) (g, cs) = Some (g, cs(fd \<mapsto> conn_new fd now rb wb))"

definition spec_turn :: "turn \<Rightarrow> net \<Rightarrow> (net \<times> (nat \<times> byte list) list) option" where
  "spec_turn t a = do {
     (a, out) \<leftarrow> spec_serve t a;
     a \<leftarrow> spec_incoming (incoming t) a;
     Some (a, out)
   }"

fun spec_loop :: "turn list \<Rightarrow> net \<Rightarrow> (net \<times> (nat \<times> byte list) list list) option" where
  "spec_loop [] a = Some (a, [])"
| "spec_loop (t # ts) a = do {
     (a, out) \<leftarrow> spec_turn t a;
     (a, outs) \<leftarrow> spec_loop ts a;
     Some (a, out # outs)
   }"

section \<open>The abstraction\<close>

definition conns_of :: "server \<Rightarrow> nat \<rightharpoonup> conn" where
  "conns_of s fd = (if fd < length (fd2conn s) then conn_h s (fd2conn s ! fd) else None)"

definition net_of :: "server \<Rightarrow> net" where
  "net_of s = (gd s, conns_of s)"

definition implements :: "server \<Rightarrow> u64 \<Rightarrow> net \<Rightarrow> bool" where
  "implements s t a \<longleftrightarrow> (\<exists>xs. server_inv s t xs) \<and> none_ended s \<and> net_of s = a"

lemma conns_of_live:
  assumes "server_inv s t xs"
  shows "conns_of s fd = Some c \<longleftrightarrow> (\<exists>p. conn_h s p = Some c \<and> cfd c = fd)"
proof -
  note d = server_invD [OF assms]
  have null: "conn_h s NULL = None" using d(2,9) by fastforce
  show ?thesis
  proof
    assume "conns_of s fd = Some c"
    then have fd: "fd < length (fd2conn s)" "conn_h s (fd2conn s ! fd) = Some c"
      by (auto simp: conns_of_def split: if_splits)
    then have "fd2conn s ! fd \<noteq> NULL" using null by (metis option.distinct(1))
    from table_okD(2) [OF d(5) fd(1) this] fd(2) show "\<exists>p. conn_h s p = Some c \<and> cfd c = fd" by auto
  next
    assume "\<exists>p. conn_h s p = Some c \<and> cfd c = fd"
    then show "conns_of s fd = Some c" using table_okD(1) [OF d(5)] by (auto simp: conns_of_def)
  qed
qed

lemma conns_of_cfd: "server_inv s t xs \<Longrightarrow> conn_h s p = Some c \<Longrightarrow> conns_of s (cfd c) = Some c"
  using conns_of_live by blast

lemma net_of_eqI:
  assumes "server_inv s t xs" "gd s = g" "\<And>fd c. cs fd = Some c \<longleftrightarrow> (\<exists>p. conn_h s p = Some c \<and> cfd c = fd)"
  shows "net_of s = (g, cs)"
proof -
  have "conns_of s fd = cs fd" for fd
  proof -
    have "conns_of s fd = Some c \<longleftrightarrow> cs fd = Some c" for c
      using conns_of_live [OF assms(1), of fd] assms(3) [of fd] by blast
    then show ?thesis by (metis not_None_eq)
  qed
  then show ?thesis using assms(2) by (auto simp: net_of_def)
qed

section \<open>The arguments of \<open>poll\<close>\<close>

lemma poll_args_live:
  "(\<And>p. p \<in> set ps \<Longrightarrow> p \<noteq> NULL \<Longrightarrow> ch p \<noteq> None) \<Longrightarrow>
    poll_args ch ps = Some (map (\<lambda>p. (cfd (the (ch p)), cstate (the (ch p)) = STATE_REQ)) (filter (\<lambda>p. p \<noteq> NULL) ps))"
proof (induction ps)
  case (Cons p ps)
  have IH: "poll_args ch ps = Some (map (\<lambda>p. (cfd (the (ch p)), cstate (the (ch p)) = STATE_REQ)) (filter (\<lambda>p. p \<noteq> NULL) ps))"
    using Cons by simp
  show ?case using Cons.prems [of p] IH by auto
qed simp

lemma poll_args_net:
  assumes "server_inv s t xs"
  shows "poll_args (conn_h s) (fd2conn s) =
    Some (map (\<lambda>fd. (fd, cstate (the (conns_of s fd)) = STATE_REQ)) (sorted_list_of_set (dom (conns_of s))))"
proof -
  note d = server_invD [OF assms]
  have null: "conn_h s NULL = None" using d(2,9) by fastforce
  let ?tbl = "fd2conn s"
  define fds where "fds = filter (\<lambda>fd. ?tbl ! fd \<noteq> NULL) [0..<length ?tbl]"
  have live: "\<exists>c. conn_h s (?tbl ! fd) = Some c \<and> cfd c = fd" if "fd \<in> set fds" for fd
    using table_okD(2) [OF d(5)] that by (auto simp: fds_def)
  have "set fds = dom (conns_of s)"
  proof (rule set_eqI)
    fix fd
    have "conns_of s fd \<noteq> None \<longleftrightarrow> fd < length ?tbl \<and> ?tbl ! fd \<noteq> NULL"
      using live [of fd] null unfolding conns_of_def fds_def by (cases "?tbl ! fd = NULL") auto
    then show "fd \<in> set fds \<longleftrightarrow> fd \<in> dom (conns_of s)" by (auto simp: fds_def)
  qed
  moreover have "sorted fds" "distinct fds" by (simp_all add: fds_def sorted_wrt_filter)
  ultimately have fds: "fds = sorted_list_of_set (dom (conns_of s))"
    by (metis sorted_list_of_set.idem_if_sorted_distinct)
  have nonnull: "filter (\<lambda>p. p \<noteq> NULL) ?tbl = map (\<lambda>fd. ?tbl ! fd) fds"
    unfolding fds_def by (subst (1) map_nth [symmetric]) (simp add: filter_map comp_def)
  have "poll_args (conn_h s) ?tbl =
      Some (map (\<lambda>p. (cfd (the (conn_h s p)), cstate (the (conn_h s p)) = STATE_REQ)) (map (\<lambda>fd. ?tbl ! fd) fds))"
    unfolding nonnull [symmetric] using table_okD(2) [OF d(5)] by (intro poll_args_live) (fastforce simp: in_set_conv_nth)
  also have "\<dots> = Some (map (\<lambda>fd. (fd, cstate (the (conns_of s fd)) = STATE_REQ)) fds)"
    using live by (fastforce simp: conns_of_def fds_def)
  finally show ?thesis unfolding fds .
qed

section \<open>Events\<close>

lemma implements_conn:
  assumes "server_inv s t xs" "conns_of s fd = Some c"
  obtains p where "p \<in> set xs" "conn_h s p = Some c" "cfd c = fd" "nth_opt (fd2conn s) fd = Some p" "p \<noteq> NULL"
proof -
  note d = server_invD [OF assms(1)]
  from conns_of_live [OF assms(1)] assms(2) obtain p where p: "conn_h s p = Some c" "cfd c = fd" by blast
  have "nth_opt (fd2conn s) fd = Some p" "p \<noteq> NULL" using table_okD(1) [OF d(5) p(1)] p(2) by (simp_all add: nth_opt_def)
  moreover have "p \<in> set xs" using d(2) p(1) by auto
  ultimately show ?thesis using p that by blast
qed

text \<open>
  What the loop does for an active descriptor: the table, the list and \<open>conn_done\<close> never fail, so the
  event is handled if and only if \<open>conn_dispatch\<close> returns.
\<close>

lemma event_refines:
  assumes "server_inv s t xs" "none_ended s" "t \<le> now" "p \<in> set xs" "conn_h s p = Some c"
  shows "case conn_dispatch rs (gd s) (c\<lparr>idle_start := now\<rparr>) of
      None \<Rightarrow> connection_io now rs s p = None
    | Some (g, c', sent, rs') \<Rightarrow> \<exists>s1 s2. connection_io now rs s p = Some (s1, sent) \<and> deref (conn_h s1) p = Some c' \<and>
        (if cstate c' = STATE_END then conn_done s1 p else Some s1) = Some s2 \<and>
        implements s2 now (g, (conns_of s)(cfd c := if cstate c' = STATE_END then None else Some c'))"
proof -
  note d = server_invD [OF assms(1)]
  have nn: "p \<noteq> NULL" using d(9) [OF assms(4)] by blast
  from dl.touch [OF d(1) assms(4)] obtain h1 h2 where
    h: "dlist_detach (dl_h s) p = Some h1" "dlist_insert_before h1 (idle_list s) p = Some h2" by blast
  let ?c = "c\<lparr>idle_start := now\<rparr>"
  have io: "connection_io now rs s p = (case conn_dispatch rs (gd s) ?c of None \<Rightarrow> None
      | Some (g, c', sent, rs') \<Rightarrow> Some (s\<lparr>gd := g, conn_h := (conn_h s)(p \<mapsto> c'), dl_h := h2\<rparr>, sent))"
    using assms(5) nn h by (simp add: connection_io_def Let_def split: option.split)
  show ?thesis
  proof (cases "conn_dispatch rs (gd s) ?c")
    case None
    then show ?thesis using io by simp
  next
    case (Some r)
    obtain g c' sent rs' where r: "r = (g, c', sent, rs')" by (cases r)
    define s1 where "s1 = s\<lparr>gd := g, conn_h := (conn_h s)(p \<mapsto> c'), dl_h := h2\<rparr>"
    have s1: "connection_io now rs s p = Some (s1, sent)" using io Some r by (simp add: s1_def)
    have sel: "gd s1 = g" "conn_h s1 = (conn_h s)(p \<mapsto> c')" by (simp_all add: s1_def)
    from connection_io_inv [OF assms(1,4,3) s1] have inv: "server_inv s1 now (remove1 p xs @ [p])" by blast
    have "conn_ok ?c" using d(6) [OF assms(5)] by (simp add: conn_ok_def wbuf_ok_def rbuf_ok_def)
    from conn_dispatch_ok [OF this Some [unfolded r]] have id: "cfd c' = cfd c" by (simp add: same_id_def)
    have uniq: "q = p" if "conn_h s q = Some e" "cfd e = cfd c" for q e
      using table_okD(1) [OF d(5) that(1)] table_okD(1) [OF d(5) assms(5)] that(2) by simp
    have other: "(conns_of s) fd = Some e \<longleftrightarrow> (\<exists>q. q \<noteq> p \<and> conn_h s q = Some e \<and> cfd e = fd)" if "fd \<noteq> cfd c" for fd e
      using conns_of_live [OF assms(1)] that assms(5) by (metis option.inject)
    show ?thesis
    proof (cases "cstate c' = STATE_END")
      case True
      from conn_done_inv [OF inv, of p] obtain s2 where
        s2: "conn_done s1 p = Some s2" "server_inv s2 now (remove1 p (remove1 p xs @ [p]))"
          "conn_h s2 = (conn_h s1)(p := None)" "gd s2 = gd s1" by auto
      have "net_of s2 = (g, (conns_of s)(cfd c := None))"
      proof (rule net_of_eqI [OF s2(2)])
        show "((conns_of s)(cfd c := None)) fd = Some e \<longleftrightarrow> (\<exists>q. conn_h s2 q = Some e \<and> cfd e = fd)" for fd e
          using other [of fd e] uniq s2(3) sel(2) by (cases "fd = cfd c") auto
      qed (use s2(4) sel(1) in simp)
      moreover have "none_ended s2" using assms(2) s2(3) sel(2) by (auto simp: none_ended_def)
      ultimately have "implements s2 now (g, (conns_of s)(cfd c := None))" using s2(2) by (auto simp: implements_def)
      then show ?thesis using Some r s1 s2(1) sel(2) True nn by auto
    next
      case False
      have "net_of s1 = (g, (conns_of s)(cfd c \<mapsto> c'))"
      proof (rule net_of_eqI [OF inv sel(1)])
        show "((conns_of s)(cfd c \<mapsto> c')) fd = Some e \<longleftrightarrow> (\<exists>q. conn_h s1 q = Some e \<and> cfd e = fd)" for fd e
          using other [of fd e] uniq id sel(2) by (cases "fd = cfd c") auto
      qed
      moreover have "none_ended s1" using assms(2) sel(2) False by (auto simp: none_ended_def)
      ultimately have "implements s1 now (g, (conns_of s)(cfd c \<mapsto> c'))" using inv by (auto simp: implements_def)
      then show ?thesis using Some r s1 sel(2) False nn by auto
    qed
  qed
qed

lemma active_refines:
  assumes "implements s t a" "in_order t evs" "distinct (map fst args)" "set (map fst args) \<subseteq> dom (snd a)"
  shows "case spec_active (map fst args) evs a of
      None \<Rightarrow> handle_active args evs s = None
    | Some (a', out) \<Rightarrow> \<exists>s'. handle_active args evs s = Some (s', out) \<and> implements s' (last_time t evs) a'"
  using assms
proof (induction args evs s arbitrary: t a rule: handle_active.induct)
  case (1 fd w args now rs evs s)
  from 1(2) obtain xs where i: "server_inv s t xs" "none_ended s" "a = (gd s, conns_of s)"
    by (auto simp: implements_def net_of_def)
  from 1(5) i(3) obtain c where c: "conns_of s fd = Some c" by auto
  from implements_conn [OF i(1) c] obtain p where
    p: "p \<in> set xs" "conn_h s p = Some c" "cfd c = fd" "nth_opt (fd2conn s) fd = Some p" "p \<noteq> NULL" .
  have t: "t \<le> now" "in_order now evs" using 1(3) by auto
  note ev = event_refines [OF i(1,2) t(1) p(1,2), of rs]
  show ?case
  proof (cases "conn_dispatch rs (gd s) (c\<lparr>idle_start := now\<rparr>)")
    case None
    then show ?thesis using ev p(4) c i(3) by (simp add: spec_event_def)
  next
    case (Some r)
    obtain g c' sent rs' where r: "r = (g, c', sent, rs')" by (cases r)
    define a1 where "a1 = (g, (conns_of s)(fd := if cstate c' = STATE_END then None else Some c'))"
    from ev Some r p(3) obtain s1 s2 where
      s: "connection_io now rs s p = Some (s1, sent)" "deref (conn_h s1) p = Some c'"
        "(if cstate c' = STATE_END then conn_done s1 p else Some s1) = Some s2" "implements s2 now a1"
      by (auto simp: a1_def)
    have "spec_event fd now rs a = Some (a1, sent)"
      using Some r c i(3) by (simp add: spec_event_def a1_def)
    moreover have "set (map fst args) \<subseteq> dom (snd a1)" using 1(4,5) i(3) by (auto simp: a1_def)
    moreover note 1(1) [OF p(4) s(1) refl s(2,3,4) t(2)]
    ultimately show ?thesis using s(1-3) p(4) 1(4)
      by (cases "spec_active (map fst args) evs a1") (auto split: if_splits)
  qed
next
  case (2 x args evs s)
  from 2(1) [OF 2(2)] 2(3-5) show ?case by (cases "spec_active (map fst args) evs a") auto
qed (auto simp: implements_def intro: server_inv_mono last_time_mono)

section \<open>A turn\<close>

lemma keep_Some:
  "(case x of None \<Rightarrow> None | Some c \<Rightarrow> if P c then None else Some c) = Some c \<longleftrightarrow> x = Some c \<and> \<not> P c"
  by (auto split: option.splits)

lemma ran_fresh: "h q = None \<Longrightarrow> (\<exists>p. (h(q \<mapsto> n)) p = Some c) \<longleftrightarrow> c = n \<or> (\<exists>p. h p = Some c)"
  by (metis fun_upd_apply option.distinct(1) option.inject)

lemma serve_refines:
  assumes "implements s t a" "turn_ok t tr"
  shows "case spec_serve tr a of
      None \<Rightarrow> serve_turn tr s = None
    | Some (a', out) \<Rightarrow> \<exists>s' ms. serve_turn tr s = Some (s', ms, out) \<and> implements s' (process_now tr) a'"
proof -
  from assms(1) obtain xs where i: "server_inv s t xs" "a = (gd s, conns_of s)"
    by (auto simp: implements_def net_of_def)
  have t: "t \<le> timer_now tr" "in_order (timer_now tr) (active tr)"
    "last_time (timer_now tr) (active tr) \<le> process_now tr" "clock_ok (process_now tr)"
    using assms(2) by (auto simp: turn_ok_def)
  let ?args = "map (\<lambda>fd. (fd, cstate (the (conns_of s fd)) = STATE_REQ)) (sorted_list_of_set (dom (conns_of s)))"
  have args: "poll_args (conn_h s) (fd2conn s) = Some ?args" by (rule poll_args_net [OF i(1)])
  have "timer_now tr \<le> process_now tr" using last_time_mono [OF t(2)] t(3) by (rule order_trans)
  then have "clock_ok (timer_now tr)" using t(4) by (auto simp: clock_ok_def)
  from next_timer_ms_inv [OF i(1) t(1) this] obtain ms where ms: "next_timer_ms (timer_now tr) s = Some ms" by blast
  have "finite (dom (conns_of s))"
    by (rule finite_subset [of _ "{..<length (fd2conn s)}"]) (auto simp: conns_of_def split: if_splits)
  then have fds: "map fst ?args = sorted_list_of_set (dom (snd a))" "distinct (map fst ?args)" "set (map fst ?args) \<subseteq> dom (snd a)"
    using i(2) by (simp_all add: comp_def)
  have imp: "implements s (timer_now tr) a"
    using assms(1) server_inv_mono [OF _ t(1)] by (auto simp: implements_def)
  note ac = active_refines [OF imp t(2) fds(2,3), unfolded fds(1)]
  show ?thesis
  proof (cases "spec_active (sorted_list_of_set (dom (snd a))) (active tr) a")
    case None
    then show ?thesis using ac args ms by (simp add: spec_serve_def serve_turn_def)
  next
    case (Some r)
    obtain a1 out where r: "r = (a1, out)" by (cases r)
    from ac Some r obtain s1 where s1: "handle_active ?args (active tr) s = Some (s1, out)"
      "implements s1 (last_time (timer_now tr) (active tr)) a1" by auto
    from s1(2) obtain ys where y: "server_inv s1 (last_time (timer_now tr) (active tr)) ys" "none_ended s1"
      "a1 = (gd s1, conns_of s1)" by (auto simp: implements_def net_of_def)
    from process_timers_inv [OF y(1) t(3,4)] obtain s2 zs where
      s2: "process_timers (process_now tr) s1 = Some s2" "server_inv s2 (last_time (timer_now tr) (active tr)) zs"
        "conn_h s2 = live_conns (process_now tr) (conn_h s1)" "gd s2 = gd s1" by blast
    have "net_of s2 = spec_timers (process_now tr) a1"
      unfolding y(3) spec_timers_def prod.case
    proof (rule net_of_eqI [OF s2(2,4)])
      show "(case conns_of s1 fd of None \<Rightarrow> None | Some c \<Rightarrow> if expired (process_now tr) c then None else Some c) = Some c \<longleftrightarrow>
          (\<exists>p. conn_h s2 p = Some c \<and> cfd c = fd)" for fd c
        unfolding s2(3) live_conns_def keep_Some using conns_of_live [OF y(1), of fd c] by blast
    qed
    moreover have "server_inv s2 (process_now tr) zs" by (rule server_inv_mono [OF s2(2) t(3)])
    moreover have "none_ended s2" by (rule none_ended_live [OF y(2) s2(3)])
    ultimately have "implements s2 (process_now tr) (spec_timers (process_now tr) a1)" by (auto simp: implements_def)
    then show ?thesis using Some r s1(1) s2(1) args ms by (simp add: spec_serve_def serve_turn_def)
  qed
qed

fun spec_incoming_ok :: "net \<Rightarrow> u64 \<Rightarrow> (nat option \<times> (byte list \<times> byte list) option \<times> u64) option \<Rightarrow> bool" where
  "spec_incoming_ok a t None \<longleftrightarrow> True"
| "spec_incoming_ok a t (Some (accepted, malloced, now)) \<longleftrightarrow> t \<le> now \<and> clock_ok now \<and>
     (case accepted of None \<Rightarrow> True | Some fd \<Rightarrow> snd a fd = None) \<and>
     (case malloced of None \<Rightarrow> True | Some (rb, wb) \<Rightarrow> length rb = buf_cap \<and> length wb = buf_cap)"

lemma accept_refines:
  assumes "implements s t a" "spec_incoming_ok a t inc"
  shows "case spec_incoming inc a of
      None \<Rightarrow> (case inc of None \<Rightarrow> Some s | Some (accepted, malloced, now) \<Rightarrow>
                map_option fst (accept_new_conn accepted malloced now s)) = None
    | Some a' \<Rightarrow> \<exists>s'. (case inc of None \<Rightarrow> Some s | Some (accepted, malloced, now) \<Rightarrow>
                map_option fst (accept_new_conn accepted malloced now s)) = Some s' \<and>
                implements s' (incoming_time t inc) a'"
  using assms
proof (induction inc a rule: spec_incoming.induct)
  case (4 fd rb wb now g cs)
  from 4(1) obtain xs where i: "server_inv s t xs" "none_ended s" "g = gd s" "cs = conns_of s"
    by (auto simp: implements_def net_of_def)
  note d = server_invD [OF i(1)]
  have ok: "t \<le> now" "conns_of s fd = None" "length rb = buf_cap" "length wb = buf_cap" using 4(2) i(4) by auto
  have free: "fd_free (fd2conn s) fd"
  proof (rule ccontr)
    assume "\<not> fd_free (fd2conn s) fd"
    then have "fd < length (fd2conn s)" "fd2conn s ! fd \<noteq> NULL" by (auto simp: fd_free_def)
    from table_okD(2) [OF d(5) this] this(1) ok(2) show False by (auto simp: conns_of_def)
  qed
  from accept_inv [OF i(1) ok(1) free ok(3,4)] obtain s' where
    s': "accept_new_conn (Some fd) (Some (rb, wb)) now s = Some (s', 0)" "server_inv s' now (xs @ [heap_top s])"
      "conn_h s' = (conn_h s)(heap_top s \<mapsto> conn_new fd now rb wb)" by blast
  have gd: "gd s' = gd s" using s'(1) by (auto simp: accept_new_conn_def Let_def bind_eq_Some_conv)
  have new: "conn_h s (heap_top s) = None" using d(2,4) by (metis domIff less_irrefl)
  have "net_of s' = (g, cs(fd \<mapsto> conn_new fd now rb wb))"
  proof (rule net_of_eqI [OF s'(2)])
    show "(cs(fd \<mapsto> conn_new fd now rb wb)) k = Some c \<longleftrightarrow> (\<exists>p. conn_h s' p = Some c \<and> cfd c = k)" for k c
      using conns_of_live [OF i(1), of k c] ok(2) ran_fresh [where h = "conn_h s" and q = "heap_top s" and n = "conn_new fd now rb wb" and c = c, OF new] unfolding i(4) s'(3)
      by (cases "k = fd") (auto simp: conn_new_def)
  qed (simp add: gd i(3))
  moreover have "none_ended s'" using i(2) s'(3) by (auto simp: none_ended_def conn_new_def)
  ultimately have "implements s' now (g, cs(fd \<mapsto> conn_new fd now rb wb))" using s'(2) by (auto simp: implements_def)
  then show ?case using s'(1) by simp
qed (auto simp: accept_new_conn_def implements_def intro: server_inv_mono)

lemma turn_refines:
  assumes "implements s t a" "turn_ok t tr"
    and "case spec_serve tr a of None \<Rightarrow> True | Some (a1, out) \<Rightarrow> spec_incoming_ok a1 (process_now tr) (incoming tr)"
  shows "case spec_turn tr a of
      None \<Rightarrow> main_turn tr s = None
    | Some (a', out) \<Rightarrow> \<exists>s' ms. main_turn tr s = Some (s', ms, out) \<and>
        implements s' (incoming_time (process_now tr) (incoming tr)) a'"
proof (cases "spec_serve tr a")
  case None
  then show ?thesis using serve_refines [OF assms(1,2)] by (simp add: spec_turn_def main_turn_def)
next
  case (Some r)
  obtain a1 out where r: "r = (a1, out)" by (cases r)
  from serve_refines [OF assms(1,2)] Some r obtain s1 ms where
    s1: "serve_turn tr s = Some (s1, ms, out)" "implements s1 (process_now tr) a1" by auto
  have "spec_incoming_ok a1 (process_now tr) (incoming tr)" using assms(3) Some r by simp
  from accept_refines [OF s1(2) this] show ?thesis
    using Some r s1(1) by (cases "spec_incoming (incoming tr) a1") (auto simp: spec_turn_def main_turn_def)
qed

section \<open>The whole run\<close>

text \<open>What the turns of a run get from outside: the clock goes forward, \<open>accept\<close> gives unused descriptors.\<close>

fun inputs_ok :: "u64 \<Rightarrow> turn list \<Rightarrow> net \<Rightarrow> bool" where
  "inputs_ok t [] a \<longleftrightarrow> True"
| "inputs_ok t (tr # trs) a \<longleftrightarrow> turn_ok t tr \<and>
     (case spec_serve tr a of None \<Rightarrow> True | Some (a1, out) \<Rightarrow> spec_incoming_ok a1 (process_now tr) (incoming tr)) \<and>
     (case spec_turn tr a of None \<Rightarrow> True | Some (a', out) \<Rightarrow>
        inputs_ok (incoming_time (process_now tr) (incoming tr)) trs a')"

lemma loop_refines:
  assumes "implements s t a" "inputs_ok t trs a"
  shows "case spec_loop trs a of
      None \<Rightarrow> main_loop trs s = None
    | Some (a', outs) \<Rightarrow> \<exists>s' t'. main_loop trs s = Some (s', outs) \<and> implements s' t' a'"
  using assms
proof (induction trs arbitrary: s t a)
  case (Cons tr trs)
  have ok: "turn_ok t tr"
    "case spec_serve tr a of None \<Rightarrow> True | Some (a1, out) \<Rightarrow> spec_incoming_ok a1 (process_now tr) (incoming tr)"
    using Cons.prems(2) by simp_all
  note tr = turn_refines [OF Cons.prems(1) ok]
  show ?case
  proof (cases "spec_turn tr a")
    case None
    then show ?thesis using tr by simp
  next
    case (Some r)
    obtain a1 out where r: "r = (a1, out)" by (cases r)
    from tr Some r obtain s1 ms where s1: "main_turn tr s = Some (s1, ms, out)"
      "implements s1 (incoming_time (process_now tr) (incoming tr)) a1" by auto
    have "inputs_ok (incoming_time (process_now tr) (incoming tr)) trs a1" using Cons.prems(2) Some r by simp
    from Cons.IH [OF s1(2) this] s1(1) Some r show ?thesis by (cases "spec_loop trs a1") auto
  qed
qed auto

lemma init_implements:
  assumes "server_init g = Some s"
  shows "implements s 0 (g, Map.empty)"
proof -
  have "conns_of s = Map.empty" using assms by (auto simp: server_init_def conns_of_def dlist_init_def)
  moreover have "gd s = g" using assms by (auto simp: server_init_def dlist_init_def)
  ultimately show ?thesis using server_init_inv [OF assms] by (auto simp: implements_def net_of_def)
qed

lemma server_init_Some: "\<exists>s. server_init g = Some s"
  by (auto simp: server_init_def dlist_init_def)

lemma main_refines:
  assumes "server_setup addrs listens = 0" "inputs_ok 0 trs (g, Map.empty)"
  shows "case spec_loop trs (g, Map.empty) of
      None \<Rightarrow> server_main addrs listens trs g = None
    | Some (a, outs) \<Rightarrow> \<exists>s t. server_main addrs listens trs g = Some (Inr (s, outs)) \<and> implements s t a"
proof -
  from server_init_Some obtain s where s: "server_init g = Some s" by blast
  from loop_refines [OF init_implements [OF s] assms(2)] assms(1) s show ?thesis
    by (cases "spec_loop trs (g, Map.empty)") (auto simp: server_main_def)
qed

section \<open>A run with one client\<close>

text \<open>In the second turn the client of \<open>first_turn\<close> sends an empty command.\<close>

definition second_turn :: turn where
  "second_turn = \<lparr>timer_now = 4, active = [Some (4, [Got (frame (payload [])), Sent 4096])], process_now = 5, incoming = None\<rparr>"

abbreviation unknown_reply :: "byte list" where
  "unknown_reply \<equiv> reply_bytes (err_reply ERR_UNKNOWN ''Unknown cmd'')"

lemma unknown_cmd_event:
  assumes "conn_ok c" "cstate c = STATE_REQ" "unread c = []"
  shows "\<exists>c'. conn_dispatch [Got (frame (payload [])), Sent 4096] g c = Some (g, c', frame unknown_reply, []) \<and>
    cstate c' = STATE_REQ \<and> idle_start c' = idle_start c"
proof -
  have r: "run_requests g [[]] = Some (g, [unknown_reply])" by (simp add: do_request_def err_reply_def out_err_def)
  have l: "limit_response unknown_reply = unknown_reply"
    by (simp add: limit_response_def err_reply_def ascii_def k_max_msg_def)
  have "4 + length (limit_response unknown_reply) \<le> k_max_msg" by (rule length_limit_response)
  then have fl: "flushes_all [Sent 4096] (map length (responses [unknown_reply])) []"
    by (auto intro!: flushes.last simp: k_max_msg_def)
  have nonempty: "frame (payload []) \<noteq> []" by (metis length_frame list.size(3) add_is_0 zero_neq_numeral)
  from state_req_serves [OF assms(1,2) _ _ _ _ _ r fl, of "frame (payload [])" "[]"] obtain c' where
    d: "conn_dispatch [Got (frame (payload [])), Sent 4096] g c = Some (g, c', frame unknown_reply, [])" "cstate c' = STATE_REQ"
    using assms(3) l nonempty by (auto simp: fits_def length_payload buf_cap_def k_max_msg_def)
  with conn_dispatch_ok [OF assms(1) d(1)] show ?thesis by (auto simp: same_id_def)
qed

definition one_client :: net where
  "one_client = (gdata0, [5 \<mapsto> conn_new 5 3 (replicate buf_cap 0) (replicate buf_cap 0)])"

lemma first_turn_spec:
  "spec_serve first_turn (gdata0, Map.empty) = Some ((gdata0, Map.empty), [])"
  "spec_turn first_turn (gdata0, Map.empty) = Some (one_client, [])"
proof -
  show s: "spec_serve first_turn (gdata0, Map.empty) = Some ((gdata0, Map.empty), [])"
    by (simp add: spec_serve_def first_turn_def spec_timers_def)
  show "spec_turn first_turn (gdata0, Map.empty) = Some (one_client, [])"
    using s by (simp add: spec_turn_def one_client_def) (simp add: first_turn_def)
qed

lemma second_turn_spec:
  "\<exists>c. spec_event 5 4 [Got (frame (payload [])), Sent 4096] one_client = Some ((gdata0, [5 \<mapsto> c]), frame unknown_reply) \<and>
     spec_serve second_turn one_client = Some ((gdata0, [5 \<mapsto> c]), [(5, frame unknown_reply)])"
proof -
  let ?b = "replicate buf_cap (0 :: byte)"
  have new: "(conn_new 5 3 ?b ?b)\<lparr>idle_start := 4\<rparr> = conn_new 5 4 ?b ?b" by (simp add: conn_new_def)
  have "conn_ok (conn_new 5 4 ?b ?b)" "cstate (conn_new 5 4 ?b ?b) = STATE_REQ" "unread (conn_new 5 4 ?b ?b) = []"
    by (rule conn_new_ok; simp)+
  from unknown_cmd_event [OF this, of gdata0] obtain c where
    c: "conn_dispatch [Got (frame (payload [])), Sent 4096] gdata0 (conn_new 5 4 ?b ?b) = Some (gdata0, c, frame unknown_reply, [])"
      "cstate c = STATE_REQ" "idle_start c = 4" by (auto simp: conn_new_def)
  have "\<not> expired 5 c" using c(3) by (simp add: expired_def)
  moreover have e: "spec_event 5 4 [Got (frame (payload [])), Sent 4096] one_client = Some ((gdata0, [5 \<mapsto> c]), frame unknown_reply)"
    using c(1,2) new by (simp add: spec_event_def one_client_def)
  moreover have "sorted_list_of_set (dom (snd one_client)) = [5]" by (simp add: one_client_def)
  ultimately show ?thesis
    by (intro exI [of _ c]) (auto simp: spec_serve_def second_turn_def spec_timers_def fun_eq_iff)
qed

lemma one_client_run:
  "inputs_ok 0 [first_turn, second_turn] (gdata0, Map.empty)"
  "\<exists>c. spec_loop [first_turn, second_turn] (gdata0, Map.empty) =
     Some ((gdata0, [5 \<mapsto> c]), [[], [(5, frame unknown_reply)]])"
proof -
  from second_turn_spec obtain c where
    s: "spec_serve second_turn one_client = Some ((gdata0, [5 \<mapsto> c]), [(5, frame unknown_reply)])" by blast
  then have t: "spec_turn second_turn one_client = Some ((gdata0, [5 \<mapsto> c]), [(5, frame unknown_reply)])"
    by (simp add: spec_turn_def second_turn_def)
  have "turn_ok 0 first_turn" "turn_ok 3 second_turn"
    by (simp_all add: turn_ok_def first_turn_def second_turn_def clock_ok_def)
  moreover have "spec_incoming_ok (gdata0, Map.empty) (process_now first_turn) (incoming first_turn)"
    "incoming second_turn = None" "incoming_time (process_now first_turn) (incoming first_turn) = 3"
    by (simp_all add: first_turn_def second_turn_def clock_ok_def)
  ultimately show "inputs_ok 0 [first_turn, second_turn] (gdata0, Map.empty)" using first_turn_spec s t by simp
  show "\<exists>c. spec_loop [first_turn, second_turn] (gdata0, Map.empty) =
      Some ((gdata0, [5 \<mapsto> c]), [[], [(5, frame unknown_reply)]])"
    using first_turn_spec t by (intro exI [of _ c]) simp
qed

section \<open>The properties\<close>

text \<open>
  The event loop implements its specification.  For every configuration in which the listening socket
  can be set up and every course of events, \<open>main\<close> does exactly what the loop on a plain map from
  descriptors to connections does: it runs into a failure in the same cases (so never because of the
  table of pointers, the intrusive list, the timers or a freed connection), sends the same bytes to the
  same descriptors in the same turns, and ends with the same keyspace and connections.
\<close>

theorem server_main_refines:
  assumes "server_setup addrs listens = 0" "inputs_ok 0 trs (g, Map.empty)"
  shows "case spec_loop trs (g, Map.empty) of
      None \<Rightarrow> server_main addrs listens trs g = None
    | Some (a, outs) \<Rightarrow> \<exists>s. server_main addrs listens trs g = Some (Inr (s, outs)) \<and> gd s = fst a \<and> conns_of s = snd a"
  using main_refines [OF assms] by (cases "spec_loop trs (g, Map.empty)") (auto simp: implements_def net_of_def)

theorem server_main_refines_witness:
  "\<exists>s c. server_main (Some [Bound]) True [first_turn, second_turn] gdata0 =
     Some (Inr (s, [[], [(5, frame unknown_reply)]])) \<and> gd s = gdata0 \<and> conns_of s = [5 \<mapsto> c]"
proof -
  from one_client_run(2) obtain c where
    r: "spec_loop [first_turn, second_turn] (gdata0, Map.empty) = Some ((gdata0, [5 \<mapsto> c]), [[], [(5, frame unknown_reply)]])" ..
  have "server_setup (Some [Bound]) True = 0" by (simp add: server_setup_def)
  from server_main_refines [OF this one_client_run(1)] r show ?thesis by auto
qed

end
