(* ===== verification/Server_Host.thy ===== *)
theory Server_Host
  imports Server_Spec "HOL-Library.Signed_Division"
begin

unbundle bit_operations_syntax

text \<open>
  What lies between the event loop of \<open>src/src/server.cpp\<close> and the operating system: the clock
  (\<open>get_monotonic_usec\<close>), the descriptor flags (\<open>fd_set_nb\<close>) and the failures of \<open>poll\<close>, \<open>accept\<close> and
  \<open>fcntl\<close> that end the process (\<open>die\<close>).  A \<open>host_turn\<close> holds the results of the system calls of one iteration
  as the kernel gives them; \<open>turn_of\<close> is what the loop makes of them.  The hypotheses that the theorems on
  the loop have on its times are shown to follow from what \<open>CLOCK_MONOTONIC\<close> promises.
\<close>

section \<open>The clock\<close>

text \<open>\<open>time_t\<close> and \<open>long\<close> are signed 64-bit integers.\<close>

record timespec =
  tv_sec :: u64
  tv_nsec :: u64

definition get_monotonic_usec :: "timespec \<Rightarrow> u64" where
  "get_monotonic_usec tv = tv_sec tv * 1000000 + word_of_int (sint (tv_nsec tv) sdiv 1000)"

text \<open>A reading of the clock: less than a second of nanoseconds, and less than \<open>2 ^ 43\<close> seconds since boot.\<close>

definition tv_ok :: "timespec \<Rightarrow> bool" where
  "tv_ok tv \<longleftrightarrow> tv_sec tv < 2 ^ 43 \<and> tv_nsec tv < 1000000000"

definition nanos :: "timespec \<Rightarrow> nat" where
  "nanos tv = unat (tv_sec tv) * 1000000000 + unat (tv_nsec tv)"

lemma sdiv_nonneg: "0 \<le> a \<Longrightarrow> a sdiv 1000 = a div 1000" for a :: int
  by (cases "a = 0") (simp_all add: signed_divide_int_def)

lemma usec_floor:
  assumes "tv_ok tv"
  shows "unat (get_monotonic_usec tv) = nanos tv div 1000"
proof -
  let ?s = "unat (tv_sec tv)" and ?n = "unat (tv_nsec tv)"
  have b: "?s < 2 ^ 43" "?n < 1000000000"
    using assms by (simp_all add: tv_ok_def word_less_nat_alt)
  have "sint (tv_nsec tv) = int ?n"
  proof -
    have "int ?n < int 1000000000" using b(2) by (simp only: of_nat_less_iff)
    then have "uint (tv_nsec tv) < 2 ^ 63" by simp
    then show ?thesis by (simp add: sint_uint signed_take_bit_int_eq_self order.trans [OF _ unsigned_greater_eq])
  qed
  then have "sint (tv_nsec tv) sdiv 1000 = int (?n div 1000)"
    by (simp only: sdiv_nonneg [OF of_nat_0_le_iff] zdiv_int of_nat_numeral)
  then have "unat (word_of_int (sint (tv_nsec tv) sdiv 1000) :: u64) = ?n div 1000"
    using b(2) by (simp add: unat_of_nat)
  moreover have "?s * 1000000 + ?n div 1000 < 2 ^ 64" using b div_le_dividend [of ?n 1000] by simp
  ultimately have "unat (get_monotonic_usec tv) = ?s * 1000000 + ?n div 1000"
    unfolding get_monotonic_usec_def by (simp add: unat_word_ariths)
  then show ?thesis by (simp add: nanos_def)
qed

lemma usec_mono: "tv_ok tv \<Longrightarrow> tv_ok tv' \<Longrightarrow> nanos tv \<le> nanos tv' \<Longrightarrow> get_monotonic_usec tv \<le> get_monotonic_usec tv'"
  by (simp add: word_le_nat_alt usec_floor div_le_mono)

lemma usec_clock_ok:
  assumes "tv_ok tv"
  shows "clock_ok (get_monotonic_usec tv)"
proof -
  have "unat (tv_sec tv) < 2 ^ 43" "unat (tv_nsec tv) < 1000000000"
    using assms by (simp_all add: tv_ok_def word_less_nat_alt)
  then have "nanos tv div 1000 < 2 ^ 63" by (simp add: nanos_def)
  then show ?thesis using usec_floor [OF assms] by (simp add: clock_ok_def word_less_nat_alt)
qed

section \<open>Descriptors\<close>

definition O_NONBLOCK :: u32 where
  "O_NONBLOCK = 0x800"

text \<open>
  \<open>fd_set_nb\<close>: the flags \<open>fcntl(F_GETFL)\<close> reads, \<open>None\<close> when it sets \<open>errno\<close>, and whether \<open>fcntl(F_SETFL)\<close>
  succeeds.  The result is the new flags of the descriptor; \<open>None\<close> is the abort in \<open>die\<close>.
\<close>

definition fd_set_nb :: "u32 option \<Rightarrow> bool \<Rightarrow> u32 option" where
  "fd_set_nb getfl setfl = do {
     flags \<leftarrow> getfl;
     let flags = flags OR O_NONBLOCK;
     if setfl then Some flags else None
   }"

lemma fd_set_nb_flags:
  assumes "fd_set_nb (Some flags) setfl = Some flags'"
  shows "flags' AND O_NONBLOCK = O_NONBLOCK" "flags' AND NOT O_NONBLOCK = flags AND NOT O_NONBLOCK"
  using assms by (auto simp: fd_set_nb_def bit_simps split: if_splits intro!: bit_word_eqI)

text \<open>The first part of \<open>accept_new_conn\<close>: \<open>accept\<close> and the flags of the new descriptor.\<close>

definition accept_fd :: "int \<Rightarrow> u32 option \<Rightarrow> bool \<Rightarrow> nat option" where
  "accept_fd connfd getfl setfl =
     (if connfd = - 1 then None
      else do {
        _ \<leftarrow> fd_set_nb getfl setfl;
        Some (nat connfd) })"

section \<open>Iterations\<close>

text \<open>
  The system calls of one iteration in their order: the clock in \<open>next_timer_ms\<close>, \<open>poll\<close>, for each active
  descriptor the clock and the socket, the clock in \<open>process_timers\<close>, and for a new connection \<open>accept\<close>,
  \<open>fcntl\<close>, \<open>malloc\<close> and the clock.
\<close>

record host_turn =
  timer_tv :: timespec
  poll_rv :: int
  ready :: "(timespec \<times> io) option list"
  process_tv :: timespec
  arrival :: "(int \<times> u32 option \<times> bool \<times> (byte list \<times> byte list) option \<times> timespec) option"

definition turn_of :: "host_turn \<Rightarrow> turn option" where
  "turn_of ht =
     (if poll_rv ht < 0 then None
      else Some \<lparr>timer_now = get_monotonic_usec (timer_tv ht),
        active = map (map_option (\<lambda>(tv, rs). (get_monotonic_usec tv, rs))) (ready ht),
        process_now = get_monotonic_usec (process_tv ht),
        incoming = map_option (\<lambda>(connfd, getfl, setfl, malloced, tv).
          (accept_fd connfd getfl setfl, malloced, get_monotonic_usec tv)) (arrival ht)\<rparr>)"

fun host_loop :: "host_turn list \<Rightarrow> server \<Rightarrow> (server \<times> (nat \<times> byte list) list list) option" where
  "host_loop [] s = Some (s, [])"
| "host_loop (ht # hts) s = do {
     t \<leftarrow> turn_of ht;
     (s, timeout_ms, out) \<leftarrow> main_turn t s;
     (s, outs) \<leftarrow> host_loop hts s;
     Some (s, out # outs)
   }"

text \<open>\<open>main\<close>, with the results of \<open>fcntl\<close> for the listening socket.\<close>

definition host_main :: "bind_attempt list option \<Rightarrow> bool \<Rightarrow> u32 option \<Rightarrow> bool \<Rightarrow> host_turn list \<Rightarrow> gdata \<Rightarrow>
    (int + server \<times> (nat \<times> byte list) list list) option" where
  "host_main addrs listens getfl setfl hts g = do {
     s \<leftarrow> server_init g;
     let rv = server_setup addrs listens;
     if rv \<noteq> 0 then Some (Inl rv)
     else do {
       _ \<leftarrow> fd_set_nb getfl setfl;
       map_option Inr (host_loop hts s) }
   }"

text \<open>The turns of a run; none when a call of \<open>poll\<close> fails.\<close>

fun turns_of :: "host_turn list \<Rightarrow> turn list option" where
  "turns_of [] = Some []"
| "turns_of (ht # hts) = do { t \<leftarrow> turn_of ht; ts \<leftarrow> turns_of hts; Some (t # ts) }"

lemma host_loop_turns: "host_loop hts s = do { ts \<leftarrow> turns_of hts; main_loop ts s }"
proof (induction hts arbitrary: s)
  case (Cons ht hts)
  show ?case
  proof (cases "turn_of ht")
    case (Some t)
    then show ?thesis
      by (cases "turns_of hts"; cases "main_turn t s") (auto simp: Cons.IH split: prod.splits)
  qed simp
qed simp

lemma host_main_turns:
  assumes "server_setup addrs listens = 0" "fd_set_nb getfl setfl = Some flags"
  shows "host_main addrs listens getfl setfl hts g = do { ts \<leftarrow> turns_of hts; server_main addrs listens ts g }"
  using assms server_init_Some [of g]
  by (cases "turns_of hts") (auto simp: host_main_def server_main_def host_loop_turns)

section \<open>The clock of a run\<close>

definition readings :: "host_turn \<Rightarrow> timespec list" where
  "readings ht = timer_tv ht # map fst (List.map_filter id (ready ht)) @ process_tv ht #
     (case arrival ht of None \<Rightarrow> [] | Some (_, _, _, _, tv) \<Rightarrow> [tv])"

text \<open>What \<open>CLOCK_MONOTONIC\<close> promises of the readings of a run.\<close>

definition monotonic :: "timespec list \<Rightarrow> bool" where
  "monotonic tvs \<longleftrightarrow> (\<forall>tv \<in> set tvs. tv_ok tv) \<and> sorted (map nanos tvs)"

lemma monotonic_usec:
  assumes "monotonic tvs"
  shows "sorted (map get_monotonic_usec tvs)" "\<forall>u \<in> set (map get_monotonic_usec tvs). clock_ok u"
proof -
  show "sorted (map get_monotonic_usec tvs)"
    using assms by (induction tvs) (auto simp: monotonic_def intro!: usec_mono)
  show "\<forall>u \<in> set (map get_monotonic_usec tvs). clock_ok u"
    using assms by (auto simp: monotonic_def usec_clock_ok)
qed

lemma in_order_sorted:
  "sorted (t # map fst (List.map_filter id evs) @ u # rest) \<Longrightarrow>
    in_order t evs \<and> last_time t evs \<le> u \<and> sorted (u # rest)"
  by (induction t evs rule: in_order.induct) (auto simp: List.map_filter_simps)

definition times :: "turn \<Rightarrow> u64 list" where
  "times tr = timer_now tr # map fst (List.map_filter id (active tr)) @ process_now tr #
     (case incoming tr of None \<Rightarrow> [] | Some (_, _, now) \<Rightarrow> [now])"

lemma times_turn_of:
  assumes "turn_of ht = Some tr"
  shows "times tr = map get_monotonic_usec (readings ht)"
proof -
  have "map fst (List.map_filter id (map (map_option (\<lambda>(tv, rs). (get_monotonic_usec tv, rs))) evs)) =
      map get_monotonic_usec (map fst (List.map_filter id evs))" for evs :: "(timespec \<times> io) option list"
    by (induction evs) (auto simp: List.map_filter_simps split: option.splits)
  with assms show ?thesis
    by (auto simp: turn_of_def times_def readings_def split: if_splits option.splits prod.splits)
qed

lemma times_turn_ok:
  assumes "sorted (t # times tr @ rest)" "\<forall>u \<in> set (times tr). clock_ok u"
  shows "turn_ok t tr" "sorted (incoming_time (process_now tr) (incoming tr) # rest)"
    and "incoming tr = Some (accepted, malloced, now) \<Longrightarrow> process_now tr \<le> now \<and> clock_ok now"
proof -
  let ?rest = "(case incoming tr of None \<Rightarrow> [] | Some (_, _, now) \<Rightarrow> [now]) @ rest"
  have s: "t \<le> timer_now tr"
    "sorted (timer_now tr # map fst (List.map_filter id (active tr)) @ process_now tr # ?rest)"
    using assms(1) by (simp_all add: times_def)
  note o = in_order_sorted [OF s(2)]
  moreover have "clock_ok (process_now tr)" using assms(2) by (simp add: times_def)
  ultimately show "turn_ok t tr" using s(1) by (simp add: turn_ok_def)
  show "sorted (incoming_time (process_now tr) (incoming tr) # rest)"
    using o by (cases "incoming tr") auto
  show "process_now tr \<le> now \<and> clock_ok now" if "incoming tr = Some (accepted, malloced, now)"
    using o that assms(2) by (simp add: times_def)
qed

text \<open>What remains to ask of \<open>accept\<close> and \<open>malloc\<close>: an unused descriptor, memory of the right size.\<close>

fun fresh_ok :: "net \<Rightarrow> (nat option \<times> (byte list \<times> byte list) option \<times> u64) option \<Rightarrow> bool" where
  "fresh_ok a None \<longleftrightarrow> True"
| "fresh_ok a (Some (accepted, malloced, now)) \<longleftrightarrow>
     (case accepted of None \<Rightarrow> True | Some fd \<Rightarrow> snd a fd = None) \<and>
     (case malloced of None \<Rightarrow> True | Some (rb, wb) \<Rightarrow> length rb = buf_cap \<and> length wb = buf_cap)"

fun arrivals_ok :: "turn list \<Rightarrow> net \<Rightarrow> bool" where
  "arrivals_ok [] a \<longleftrightarrow> True"
| "arrivals_ok (tr # trs) a \<longleftrightarrow>
     (case spec_serve tr a of None \<Rightarrow> True | Some (a1, out) \<Rightarrow> fresh_ok a1 (incoming tr)) \<and>
     (case spec_turn tr a of None \<Rightarrow> True | Some (a', out) \<Rightarrow> arrivals_ok trs a')"

lemma clock_inputs_ok:
  assumes "arrivals_ok trs a" "sorted (t # concat (map times trs))"
    "\<forall>u \<in> set (concat (map times trs)). clock_ok u"
  shows "inputs_ok t trs a"
  using assms
proof (induction trs arbitrary: t a)
  case (Cons tr trs)
  have s: "sorted (t # times tr @ concat (map times trs))" "\<forall>u \<in> set (times tr). clock_ok u"
    using Cons.prems by auto
  note tr = times_turn_ok [OF s]
  have "spec_incoming_ok a1 (process_now tr) (incoming tr)" if "fresh_ok a1 (incoming tr)" for a1
    using that tr(3) by (cases "incoming tr") auto
  then show ?case
    using Cons.prems tr(1) Cons.IH [OF _ tr(2)] by (auto split: option.splits)
qed simp

lemma times_turns_of:
  "turns_of hts = Some trs \<Longrightarrow> concat (map times trs) = map get_monotonic_usec (concat (map readings hts))"
proof (induction hts arbitrary: trs)
  case (Cons ht hts)
  then obtain tr trs' where "turn_of ht = Some tr" "turns_of hts = Some trs'" "trs = tr # trs'"
    by (auto simp: bind_eq_Some_conv)
  with Cons.IH times_turn_of show ?case by simp
qed simp

lemma host_inputs_ok:
  assumes "monotonic (concat (map readings hts))" "turns_of hts = Some trs" "arrivals_ok trs a"
  shows "inputs_ok 0 trs a"
  using clock_inputs_ok [OF assms(3), of 0] monotonic_usec [OF assms(1)] unfolding times_turns_of [OF assms(2)]
  by simp

lemma inputs_arrivals: "inputs_ok t trs a \<Longrightarrow> arrivals_ok trs a"
proof (induction trs arbitrary: t a)
  case (Cons tr trs)
  have "fresh_ok a1 (incoming tr)" if "spec_incoming_ok a1 (process_now tr) (incoming tr)" for a1
    using that by (cases "(a1, incoming tr)" rule: fresh_ok.cases) auto
  with Cons show ?case by (auto split: option.splits)
qed simp

section \<open>A run on the host\<close>

text \<open>The run with one client again: a reading of \<open>n\<close> microseconds.\<close>

definition usec_tv :: "nat \<Rightarrow> timespec" where
  "usec_tv n = \<lparr>tv_sec = 0, tv_nsec = of_nat (n * 1000 + 7)\<rparr>"

definition host_turns :: "host_turn list" where
  "host_turns =
     [\<lparr>timer_tv = usec_tv 1, poll_rv = 1, ready = [], process_tv = usec_tv 2,
       arrival = Some (5, Some 2, True, Some (replicate buf_cap 0, replicate buf_cap 0), usec_tv 3)\<rparr>,
      \<lparr>timer_tv = usec_tv 4, poll_rv = 1, ready = [Some (usec_tv 4, [Got (frame (payload [])), Sent 4096])],
       process_tv = usec_tv 5, arrival = None\<rparr>]"

lemma host_turns_ok:
  "turns_of host_turns = Some [first_turn, second_turn]" "monotonic (concat (map readings host_turns))"
proof -
  have u: "get_monotonic_usec (usec_tv 1) = 1" "get_monotonic_usec (usec_tv 2) = 2" "get_monotonic_usec (usec_tv 3) = 3"
    "get_monotonic_usec (usec_tv 4) = 4" "get_monotonic_usec (usec_tv 5) = 5"
    by (simp_all add: get_monotonic_usec_def usec_tv_def signed_divide_int_def)
  then show "turns_of host_turns = Some [first_turn, second_turn]"
    by (simp add: host_turns_def turn_of_def first_turn_def second_turn_def accept_fd_def fd_set_nb_def)
  show "monotonic (concat (map readings host_turns))"
    by (simp add: host_turns_def readings_def List.map_filter_simps monotonic_def tv_ok_def nanos_def usec_tv_def)
qed

section \<open>The property\<close>

text \<open>
  C5. The program implements its specification on the host.  When the listening socket can be set up, the
  readings of the clock never decrease, and \<open>accept\<close> and \<open>malloc\<close> give unused descriptors and memory,
  \<open>main\<close> does exactly what the loop on a plain map from descriptors to connections does with the times in
  microseconds: it ends in the same cases (a failed system call, or a failure of the specification; never
  because of the table of pointers, the intrusive list, the timers or a freed connection), sends the same
  bytes to the same descriptors in the same turns, and has the same keyspace and connections.
\<close>

theorem host_main_refines:
  assumes "server_setup addrs listens = 0" "fd_set_nb getfl setfl = Some flags"
    and "monotonic (concat (map readings hts))" "\<forall>trs. turns_of hts = Some trs \<longrightarrow> arrivals_ok trs (g, Map.empty)"
  shows "case do { trs \<leftarrow> turns_of hts; spec_loop trs (g, Map.empty) } of
      None \<Rightarrow> host_main addrs listens getfl setfl hts g = None
    | Some (a, outs) \<Rightarrow> \<exists>s. host_main addrs listens getfl setfl hts g = Some (Inr (s, outs)) \<and>
        gd s = fst a \<and> conns_of s = snd a"
proof (cases "turns_of hts")
  case None
  then show ?thesis using host_main_turns [OF assms(1,2)] by simp
next
  case (Some trs)
  with assms(4) have "inputs_ok 0 trs (g, Map.empty)" using host_inputs_ok [OF assms(3)] by blast
  from main_refines [OF assms(1) this] Some host_main_turns [OF assms(1,2), of hts g] show ?thesis
    by (cases "spec_loop trs (g, Map.empty)") (auto simp: implements_def net_of_def)
qed

theorem host_main_refines_witness:
  "\<exists>s c. host_main (Some [Bound]) True (Some 2) True host_turns gdata0 =
     Some (Inr (s, [[], [(5, frame unknown_reply)]])) \<and> gd s = gdata0 \<and> conns_of s = [5 \<mapsto> c]"
proof -
  from one_client_run(2) obtain c where
    r: "spec_loop [first_turn, second_turn] (gdata0, Map.empty) = Some ((gdata0, [5 \<mapsto> c]), [[], [(5, frame unknown_reply)]])" ..
  have "server_setup (Some [Bound]) True = 0" by (simp add: server_setup_def)
  moreover have "fd_set_nb (Some 2) True = Some 0x802" by (simp add: fd_set_nb_def O_NONBLOCK_def)
  moreover have "\<forall>trs. turns_of host_turns = Some trs \<longrightarrow> arrivals_ok trs (gdata0, Map.empty)"
    using inputs_arrivals [OF one_client_run(1)] host_turns_ok(1) by simp
  ultimately show ?thesis
    using host_main_refines [OF _ _ host_turns_ok(2)] r unfolding host_turns_ok(1) by fastforce
qed

end
