(* ===== verification/Server_Log.thy ===== *)
theory Server_Log
  imports Server_Spec Keyspace_Run
begin

text \<open>
  What a run of the server has done, as a log of its events: which bytes a connection received and sent,
  which commands were executed for it with which replies.  The entries of the log, one after the other,
  form one serial run on the keyspace: the replies of an entry are those to its own commands, executed on
  the keyspace that the entries before it left.  The commands and replies of a single connection are what
  its client sent and was sent.
\<close>

section \<open>The log\<close>

text \<open>What can be seen from outside: a connection is accepted, or receives and sends bytes in an event.\<close>

datatype event = Accepted nat | Traffic nat "byte list" "byte list"

fun active_log :: "nat list \<Rightarrow> (u64 \<times> io) option list \<Rightarrow> net \<Rightarrow> event list" where
  "active_log (fd # fds) (Some (now, rs) # evs) a = (case (snd a fd, spec_event fd now rs a) of
     (Some c, Some (a', sent)) \<Rightarrow> Traffic fd (received rs c) sent # active_log fds evs a'
   | _ \<Rightarrow> [])"
| "active_log (_ # fds) (None # evs) a = active_log fds evs a"
| "active_log _ _ a = []"

fun accept_log :: "(nat option \<times> (byte list \<times> byte list) option \<times> u64) option \<Rightarrow> event list" where
  "accept_log (Some (Some fd, Some _, _)) = [Accepted fd]"
| "accept_log _ = []"

definition turn_log :: "turn \<Rightarrow> net \<Rightarrow> event list" where
  "turn_log t a = active_log (sorted_list_of_set (dom (snd a))) (active t) a @ accept_log (incoming t)"

fun run_log :: "turn list \<Rightarrow> net \<Rightarrow> event list" where
  "run_log [] a = []"
| "run_log (t # ts) a = turn_log t a @ (case spec_turn t a of None \<Rightarrow> [] | Some (a', _) \<Rightarrow> run_log ts a')"

text \<open>An entry of the full log has the executed commands and their replies as well.\<close>

datatype log_entry = Opened nat | Served nat "byte list" "byte list list list" "byte list list" "byte list"

fun visible :: "log_entry \<Rightarrow> event" where
  "visible (Opened fd) = Accepted fd"
| "visible (Served fd got cmds outs sent) = Traffic fd got sent"

fun cmds_of :: "log_entry \<Rightarrow> byte list list list" where
  "cmds_of (Opened fd) = []"
| "cmds_of (Served fd got cmds outs sent) = cmds"

fun outs_of :: "log_entry \<Rightarrow> byte list list" where
  "outs_of (Opened fd) = []"
| "outs_of (Served fd got cmds outs sent) = outs"

text \<open>
  The entries of the log are a serial run: each one takes the state from where the one before left it, by
  its own commands and with its own replies.  \<open>R\<close> is the run of the commands of one entry.
\<close>

fun serial :: "('s \<Rightarrow> byte list list list \<Rightarrow> 's \<Rightarrow> byte list list \<Rightarrow> bool) \<Rightarrow> 's \<Rightarrow> log_entry list \<Rightarrow> 's \<Rightarrow> bool" where
  "serial R x [] x' \<longleftrightarrow> x' = x"
| "serial R x (Opened fd # log) x' \<longleftrightarrow> serial R x log x'"
| "serial R x (Served fd got cmds outs sent # log) x' \<longleftrightarrow> (\<exists>x1. R x cmds x1 outs \<and> serial R x1 log x')"

abbreviation requests_run :: "gdata \<Rightarrow> byte list list list \<Rightarrow> gdata \<Rightarrow> byte list list \<Rightarrow> bool" where
  "requests_run g cmds g' outs \<equiv> run_requests g cmds = Some (g', outs)"

lemma serial_append: "serial R x (log @ log') x' \<longleftrightarrow> (\<exists>x1. serial R x log x1 \<and> serial R x1 log' x')"
proof (induction log arbitrary: x)
  case (Cons e log)
  then show ?case by (cases e) auto
qed simp

text \<open>The bytes received, the commands, the replies and the bytes sent since descriptor \<open>fd\<close> was opened last.\<close>

type_synonym session = "byte list \<times> byte list list list \<times> byte list list \<times> byte list"

fun add_entry :: "nat \<Rightarrow> session \<Rightarrow> log_entry \<Rightarrow> session" where
  "add_entry fd x (Opened k) = (if k = fd then ([], [], [], []) else x)"
| "add_entry fd (i, cs, os, out) (Served k got cmds outs sent) =
     (if k = fd then (i @ got, cs @ cmds, os @ outs, out @ sent) else (i, cs, os, out))"

definition session_of :: "nat \<Rightarrow> log_entry list \<Rightarrow> session" where
  "session_of fd log = foldl (add_entry fd) ([], [], [], []) log"

lemma session_of_snoc [simp]: "session_of fd (log @ [e]) = add_entry fd (session_of fd log) e"
  by (simp add: session_of_def)

text \<open>A session agrees with its connection: what is not executed is unread, what is not sent is pending.\<close>

definition agrees :: "conn \<Rightarrow> session \<Rightarrow> bool" where
  "agrees c x \<longleftrightarrow> (case x of (i, cs, os, out) \<Rightarrow>
     (\<forall>cmd \<in> set cs. fits cmd) \<and> i = concat (requests cs) @ unread c \<and> concat (responses os) = out @ pending c)"

lemma agrees_same: "agrees c x \<Longrightarrow> unread c' = unread c \<Longrightarrow> pending c' = pending c \<Longrightarrow> agrees c' x"
  by (auto simp: agrees_def)

lemma agrees_event:
  assumes "agrees c x" "\<forall>cmd \<in> set cmds. fits cmd" "unread c @ got = concat (requests cmds) @ unread c'"
    and "pending c @ concat (responses outs) = sent @ pending c'"
  shows "agrees c' (add_entry fd x (Served fd got cmds outs sent))"
  using assms by (cases x) (auto simp: agrees_def)

text \<open>The log of a run from \<open>g\<close> to the state \<open>a\<close>.\<close>

definition logged :: "gdata \<Rightarrow> log_entry list \<Rightarrow> net \<Rightarrow> bool" where
  "logged g log a \<longleftrightarrow>
     serial requests_run g log (fst a) \<and>
     (\<forall>e \<in> set log. \<forall>cmd \<in> set (cmds_of e). fits cmd) \<and>
     (\<forall>fd c. snd a fd = Some c \<longrightarrow> conn_ok c \<and> agrees c (session_of fd log))"

section \<open>Events and turns write the log\<close>

lemma run_requests_append:
  "run_requests g xs = Some (g1, os) \<Longrightarrow> run_requests g1 ys = Some (g2, os') \<Longrightarrow>
    run_requests g (xs @ ys) = Some (g2, os @ os')"
  by (induction xs arbitrary: g os) (auto simp: bind_eq_Some_conv)

lemma serial_requests:
  "serial requests_run g log g' \<Longrightarrow>
    run_requests g (concat (map cmds_of log)) = Some (g', concat (map outs_of log))"
proof (induction log arbitrary: g)
  case (Cons e log)
  then show ?case using run_requests_append by (cases e) fastforce+
qed simp

lemma run_requests_length: "run_requests g cmds = Some (g', outs) \<Longrightarrow> length outs = length cmds"
  by (induction cmds arbitrary: g outs) (auto simp: bind_eq_Some_conv)

lemma serves_run_append:
  "serves_run kv (xs @ ys) kv' (os @ os') \<Longrightarrow> length os = length xs \<Longrightarrow>
    \<exists>kv1. serves_run kv xs kv1 os \<and> serves_run kv1 ys kv' os'"
proof (induction xs arbitrary: kv os)
  case Nil
  then show ?case by (auto intro: serves_run.none)
next
  case (Cons x xs)
  then obtain o1 os1 where os: "os = o1 # os1" "length os1 = length xs" by (cases os) auto
  from Cons.prems(1) os(1) obtain kv0 where "serves kv x kv0 o1" "serves_run kv0 (xs @ ys) kv' (os1 @ os')"
    by (auto elim: serves_run_ConsE)
  with Cons.IH [OF _ os(2)] os(1) show ?case by (meson serves_run.more)
qed

lemma serial_serves:
  "serial requests_run g log g' \<Longrightarrow> serves_run kv (concat (map cmds_of log)) kv' (concat (map outs_of log)) \<Longrightarrow>
    serial serves_run kv log kv'"
proof (induction log arbitrary: g kv)
  case Nil
  then show ?case by (auto elim: serves_run_NilE)
next
  case (Cons e log)
  show ?case
  proof (cases e)
    case (Served fd got cmds outs sent)
    with Cons.prems(1) obtain g1 where g1: "run_requests g cmds = Some (g1, outs)" "serial requests_run g1 log g'" by auto
    from Cons.prems(2) Served serves_run_append [OF _ run_requests_length [OF g1(1)]] obtain kv1 where
      "serves_run kv cmds kv1 outs" "serves_run kv1 (concat (map cmds_of log)) kv' (concat (map outs_of log))" by fastforce
    with Cons.IH [OF g1(2)] Served show ?thesis by auto
  qed (use Cons in auto)
qed

lemma idle_start_sel [simp]:
  "unread (c\<lparr>idle_start := now\<rparr>) = unread c" "pending (c\<lparr>idle_start := now\<rparr>) = pending c"
  by (simp_all add: unread_def pending_def)

lemma idle_start_received [simp]: "received rs (c\<lparr>idle_start := now\<rparr>) = received rs c"
  by (cases "fst (next_result rs)") (simp_all add: received_def)

lemma event_logged:
  assumes "logged g log a" "snd a fd = Some c" "spec_event fd now rs a = Some (a', sent)"
  shows "\<exists>cmds outs. logged g (log @ [Served fd (received rs c) cmds outs sent]) a'"
proof -
  obtain g1 cs where a: "a = (g1, cs)" by (cases a)
  from assms(2,3) a obtain g2 c' rs' where e: "conn_dispatch rs g1 (c\<lparr>idle_start := now\<rparr>) = Some (g2, c', sent, rs')"
    "a' = (g2, cs(fd := if cstate c' = STATE_END then None else Some c'))"
    by (auto simp: spec_event_def bind_eq_Some_conv)
  have l: "serial requests_run g log g1"
    "\<forall>e \<in> set log. \<forall>cmd \<in> set (cmds_of e). fits cmd" "conn_ok c" "agrees c (session_of fd log)"
    "\<And>fd c. cs fd = Some c \<Longrightarrow> conn_ok c \<and> agrees c (session_of fd log)"
    using assms(1,2) a by (auto simp: logged_def)
  have ok: "conn_ok (c\<lparr>idle_start := now\<rparr>)" using l(3) by (simp add: conn_ok_def wbuf_ok_def rbuf_ok_def)
  from conn_dispatch_stream [OF ok e(1)] obtain cmds outs where t: "\<forall>cmd \<in> set cmds. fits cmd"
    "run_requests g1 cmds = Some (g2, outs)" "unread c @ received rs c = concat (requests cmds) @ unread c'"
    "pending c @ concat (responses outs) = sent @ pending c'" unfolding transduces_def by auto
  let ?e = "Served fd (received rs c) cmds outs sent"
  have "conn_ok c'" using conn_dispatch_ok [OF ok e(1)] by blast
  moreover have "agrees c' (session_of fd (log @ [?e]))" using agrees_event [OF l(4) t(1,3,4)] by simp
  moreover have "session_of k (log @ [?e]) = session_of k log" if "k \<noteq> fd" for k
    using that by (cases "session_of k log") simp
  ultimately have "\<forall>k c. snd a' k = Some c \<longrightarrow> conn_ok c \<and> agrees c (session_of k (log @ [?e]))"
    using l(5) e(2) by (auto split: if_splits)
  moreover have "serial requests_run g (log @ [?e]) (fst a')" using l(1) t(2) e(2) by (auto simp: serial_append)
  ultimately have "logged g (log @ [?e]) a'" using l(2) t(1) unfolding logged_def by simp
  then show ?thesis by blast
qed

lemma active_logged:
  "logged g log a \<Longrightarrow> spec_active fds evs a = Some (a', out) \<Longrightarrow>
    \<exists>log'. map visible log' = active_log fds evs a \<and> logged g (log @ log') a'"
proof (induction fds evs a arbitrary: log out rule: spec_active.induct)
  case (1 fd fds now rs evs a)
  from 1(3) obtain a1 sent out' where e: "spec_event fd now rs a = Some (a1, sent)"
    "spec_active fds evs a1 = Some (a', out')" by (auto simp: bind_eq_Some_conv)
  from e(1) obtain c where c: "snd a fd = Some c" by (auto simp: spec_event_def bind_eq_Some_conv split: prod.splits)
  from event_logged [OF 1(2) c e(1)] obtain cmds outs where
    l: "logged g (log @ [Served fd (received rs c) cmds outs sent]) a1" by blast
  from 1(1) [OF e(1) refl l e(2)] obtain log' where
    "map visible log' = active_log fds evs a1" "logged g ((log @ [Served fd (received rs c) cmds outs sent]) @ log') a'" by blast
  then show ?case using c e(1) by (intro exI [of _ "Served fd (received rs c) cmds outs sent # log'"]) simp
qed auto

lemma timers_logged: "logged g log a \<Longrightarrow> logged g log (spec_timers now a)"
  by (auto simp: logged_def spec_timers_def split: prod.splits option.splits if_splits)

lemma accept_logged:
  assumes "logged g log a" "spec_incoming_ok a t inc" "spec_incoming inc a = Some a'"
  shows "\<exists>log'. map visible log' = accept_log inc \<and> logged g (log @ log') a'"
  using assms
proof (induction inc a rule: spec_incoming.induct)
  case (4 fd rb wb now g1 cs)
  let ?c = "conn_new fd now rb wb"
  have "conn_ok ?c" "unread ?c = []" "pending ?c = []"
    using conn_new_ok [of rb wb fd now] 4(2) by (simp_all add: conn_new_def pending_def)
  then have "agrees ?c (session_of fd (log @ [Opened fd]))" "conn_ok ?c" by (simp_all add: agrees_def)
  then have "logged g (log @ [Opened fd]) a'" using 4(1,3) by (auto simp: logged_def serial_append split: if_split_asm)
  then show ?case by (intro exI [of _ "[Opened fd]"]) simp
qed auto

lemma turn_logged:
  assumes "logged g log a" "spec_turn tr a = Some (a', out)"
    and "case spec_serve tr a of None \<Rightarrow> True | Some (a1, out) \<Rightarrow> spec_incoming_ok a1 (process_now tr) (incoming tr)"
  shows "\<exists>log'. map visible log' = turn_log tr a \<and> logged g (log @ log') a'"
proof -
  from assms(2) obtain a1 where e: "spec_active (sorted_list_of_set (dom (snd a))) (active tr) a = Some (a1, out)"
    "spec_serve tr a = Some (spec_timers (process_now tr) a1, out)"
    "spec_incoming (incoming tr) (spec_timers (process_now tr) a1) = Some a'"
    by (auto simp: spec_turn_def spec_serve_def bind_eq_Some_conv)
  from active_logged [OF assms(1) e(1)] obtain xs where
    xs: "map visible xs = active_log (sorted_list_of_set (dom (snd a))) (active tr) a" "logged g (log @ xs) a1" by blast
  have "spec_incoming_ok (spec_timers (process_now tr) a1) (process_now tr) (incoming tr)"
    using assms(3) e(2) by simp
  from accept_logged [OF timers_logged [OF xs(2)] this e(3)] obtain ys where
    "map visible ys = accept_log (incoming tr)" "logged g ((log @ xs) @ ys) a'" by blast
  with xs(1) show ?thesis by (intro exI [of _ "xs @ ys"]) (simp add: turn_log_def)
qed

lemma loop_logged:
  "logged g log a \<Longrightarrow> inputs_ok t trs a \<Longrightarrow> spec_loop trs a = Some (a', outs) \<Longrightarrow>
    \<exists>log'. map visible log' = run_log trs a \<and> logged g (log @ log') a'"
proof (induction trs arbitrary: a t outs log)
  case (Cons tr trs)
  from Cons.prems(3) obtain a1 out outs' where e: "spec_turn tr a = Some (a1, out)" "spec_loop trs a1 = Some (a', outs')"
    by (auto simp: bind_eq_Some_conv)
  from turn_logged [OF Cons.prems(1) e(1)] Cons.prems(2) obtain xs where
    xs: "map visible xs = turn_log tr a" "logged g (log @ xs) a1" by auto
  have "inputs_ok (incoming_time (process_now tr) (incoming tr)) trs a1" using Cons.prems(2) e(1) by simp
  from Cons.IH [OF xs(2) this e(2)] obtain ys where
    "map visible ys = run_log trs a1" "logged g ((log @ xs) @ ys) a'" by blast
  with xs(1) e(1) show ?case by (intro exI [of _ "xs @ ys"]) simp
qed auto

lemma fits_short: "fits cmd \<Longrightarrow> \<forall>s \<in> set cmd. length s < 2 ^ 32"
  using length_le_sum [of _ cmd] by (fastforce simp: fits_def length_payload k_max_msg_def)

text \<open>The log of the run with one client.\<close>

lemma one_client_log:
  "run_log [first_turn, second_turn] (gdata0, Map.empty) =
     [Accepted 5, Traffic 5 (frame (payload [])) (frame unknown_reply)]"
proof -
  let ?rs = "[Got (frame (payload [])), Sent 4096]"
  from second_turn_spec obtain a where e: "spec_event 5 4 ?rs one_client = Some (a, frame unknown_reply)" by blast
  have "length (frame (payload [])) \<le> buf_cap" by (simp add: payload_def buf_cap_def k_max_msg_def)
  then have "received ?rs (conn_new 5 3 (replicate buf_cap 0) (replicate buf_cap 0)) = frame (payload [])"
    by (simp add: received_def conn_new_def unread_def)
  moreover have "sorted_list_of_set (dom (snd one_client)) = [5]"
    "snd one_client 5 = Some (conn_new 5 3 (replicate buf_cap 0) (replicate buf_cap 0))" by (simp_all add: one_client_def)
  ultimately have "turn_log second_turn one_client = [Traffic 5 (frame (payload [])) (frame unknown_reply)]"
    using e by (simp add: turn_log_def second_turn_def)
  moreover have "turn_log first_turn (gdata0, Map.empty) = [Accepted 5]" by (simp add: turn_log_def first_turn_def)
  ultimately show ?thesis using first_turn_spec(2) by (simp split: option.split)
qed

section \<open>The property\<close>

text \<open>
  C2. All clients see one keyspace, commands are atomic, and every client gets the replies to its own
  commands.  However the events of the connections are interleaved, split and delayed, there is a log of
  the run, which shows the connections accepted and the bytes received and sent as they were, such that
  its entries are a serial run: the commands of each entry, executed on the keyspace the entries before it
  left, give the replies of this entry, and the last one leaves the server's keyspace.  On every open
  connection the bytes received are the commands of its own entries and the unread rest, and the framed
  replies of its own entries are the bytes sent and the pending rest.  As long as there is room, every
  entry acts and replies as specified (range queries that walk a tree change nothing, and their replies
  are made of members of the set).
\<close>

theorem server_executes_serially:
  assumes "server_main addrs listens trs gdata0 = Some (Inr (s, sent))" "inputs_ok 0 trs (gdata0, Map.empty)"
  shows "\<exists>log. map visible log = run_log trs (gdata0, Map.empty) \<and> serial requests_run gdata0 log (gd s) \<and>
    (\<forall>fd c. conns_of s fd = Some c \<longrightarrow> agrees c (session_of fd log)) \<and>
    (length (concat (map cmds_of log)) < 2 ^ 31 - 1 \<longrightarrow>
      (\<exists>kv. db_rep (gd s) kv \<and> serial serves_run Map.empty log kv))"
proof -
  have ready: "server_setup addrs listens = 0"
    using assms(1) by (auto simp: server_main_def Let_def bind_eq_Some_conv split: if_splits)
  from main_refines [OF ready assms(2)] assms(1) obtain a where
    a: "spec_loop trs (gdata0, Map.empty) = Some (a, sent)" "a = (gd s, conns_of s)"
    by (cases "spec_loop trs (gdata0, Map.empty)") (auto simp: implements_def net_of_def)
  have "logged gdata0 [] (gdata0, Map.empty)" by (simp add: logged_def)
  from loop_logged [OF this assms(2) a(1)] obtain log where
    l: "map visible log = run_log trs (gdata0, Map.empty)" "logged gdata0 log (gd s, conns_of s)" using a(2) by auto
  then have r: "serial requests_run gdata0 log (gd s)"
    and short: "\<forall>cmd \<in> set (concat (map cmds_of log)). \<forall>s \<in> set cmd. length s < 2 ^ 32"
    and own: "\<forall>fd c. conns_of s fd = Some c \<longrightarrow> agrees c (session_of fd log)"
    using fits_short by (auto simp: logged_def)
  have "\<exists>kv. db_rep (gd s) kv \<and> serial serves_run Map.empty log kv"
    if "length (concat (map cmds_of log)) < 2 ^ 31 - 1"
    using run_from_empty [OF that short serial_requests [OF r]] serial_serves [OF r] by blast
  with l(1) r own show ?thesis by blast
qed

theorem server_executes_serially_witness:
  "\<exists>s log. server_main (Some [Bound]) True [first_turn, second_turn] gdata0 =
     Some (Inr (s, [[], [(5, frame unknown_reply)]])) \<and>
     map visible log = [Accepted 5, Traffic 5 (frame (payload [])) (frame unknown_reply)] \<and>
     serial requests_run gdata0 log (gd s)"
proof -
  from one_client_run(2) obtain c where
    r: "spec_loop [first_turn, second_turn] (gdata0, Map.empty) = Some ((gdata0, [5 \<mapsto> c]), [[], [(5, frame unknown_reply)]])" ..
  have "server_setup (Some [Bound]) True = 0" by (simp add: server_setup_def)
  from main_refines [OF this one_client_run(1)] r obtain s where
    s: "server_main (Some [Bound]) True [first_turn, second_turn] gdata0 = Some (Inr (s, [[], [(5, frame unknown_reply)]]))"
    by auto
  from server_executes_serially [OF s one_client_run(1)] obtain log where
    "map visible log = [Accepted 5, Traffic 5 (frame (payload [])) (frame unknown_reply)]"
    "serial requests_run gdata0 log (gd s)"
    unfolding one_client_log by (elim exE conjE)
  with s show ?thesis by (intro exI [of _ s] exI [of _ log] conjI)
qed

end
