(* ===== verification/Server_Live.thy ===== *)
theory Server_Live
  imports Server_Host Server_Log
begin

text \<open>
  The server does not stop for clients that send whole messages and take the replies.  An event of such a
  client brings well-formed requests, without range queries, and behind them perhaps a message that is
  malformed or too long, and its socket takes a response in one call; or the client hangs up.  Then the
  event returns, every request is executed and answered, and the connection waits for the next one or is
  closed.  So \<open>main\<close> goes on for as long as the kernel hands out descriptors and \<open>poll\<close> works.
\<close>

section \<open>Events\<close>

text \<open>An event that brings the requests \<open>cmds\<close> and the rejected bytes \<open>bad\<close>, if there are any.\<close>

definition request_event :: "byte list list list \<Rightarrow> byte list \<Rightarrow> io \<Rightarrow> bool" where
  "request_event cmds bad rs \<longleftrightarrow> concat (requests cmds) @ bad \<noteq> [] \<and> (bad \<noteq> [] \<longrightarrow> rejected bad) \<and>
     (\<forall>cmd \<in> set cmds. fits cmd \<and> no_range_query cmd) \<and> length (concat (requests cmds) @ bad) \<le> buf_cap \<and>
     (\<exists>ks. rs = Got (concat (requests cmds) @ bad) # map Sent ks \<and>
       length cmds \<le> length ks \<and> (\<forall>k \<in> set ks. k_max_msg \<le> k))"

text \<open>The end of the stream, an error of the socket, or nothing to read.\<close>

definition silent_event :: "io \<Rightarrow> bool" where
  "silent_event rs \<longleftrightarrow> fst (next_result rs) \<in> {Eof, Fail, Again}"

definition served_event :: "io \<Rightarrow> bool" where
  "served_event rs \<longleftrightarrow> silent_event rs \<or> (\<exists>cmds bad. request_event cmds bad rs)"

lemma request_event_count:
  assumes "request_event cmds bad rs"
  shows "length cmds \<le> 512"
proof -
  have "8 * length cmds \<le> length (concat (requests cmds))"
    by (induction cmds) (auto simp: length_payload)
  then show ?thesis using assms by (simp add: request_event_def buf_cap_def k_max_msg_def)
qed

lemma flushes_all_prompt:
  "length ns \<le> length ks \<Longrightarrow> \<forall>n \<in> set ns. n \<le> k_max_msg \<Longrightarrow> \<forall>k \<in> set ks. k_max_msg \<le> k \<Longrightarrow>
    \<exists>rs'. flushes_all (map Sent ks) ns rs'"
proof (induction ns arbitrary: ks)
  case Nil
  have "flushes_all (map Sent ks) [] (map Sent ks)" by simp
  then show ?case by blast
next
  case (Cons n ns)
  then obtain k ks' where ks: "ks = k # ks'" by (cases ks) auto
  with Cons obtain rs' where "flushes_all (map Sent ks') ns rs'" by fastforce
  moreover have "flushes (map Sent ks) n (map Sent ks')" using Cons.prems ks by (auto intro!: flushes.last)
  ultimately show ?case by auto
qed

lemma spec_run_small: "spec_run kv cmds kv' rs \<Longrightarrow> kv_small n kv \<Longrightarrow> kv_small (n + length cmds) kv'"
proof (induction arbitrary: n rule: spec_run.induct)
  case (more kv cmd kv1 r cmds kv2 rs)
  from more.IH [OF spec_step_small [OF more(1) more.prems]] show ?case by simp
qed simp

lemma kv_small_le: "kv_small n kv \<Longrightarrow> n \<le> m \<Longrightarrow> kv_small m kv"
  by (fastforce simp: kv_small_def)

section \<open>The net between events\<close>

text \<open>Every connection waits for a request and has nothing in its buffers.\<close>

definition idle_conn :: "conn \<Rightarrow> bool" where
  "idle_conn c \<longleftrightarrow> conn_ok c \<and> cstate c = STATE_REQ \<and> unread c = [] \<and> pending c = []"

definition idle_net :: "net \<Rightarrow> bool" where
  "idle_net a \<longleftrightarrow> (\<forall>fd c. snd a fd = Some c \<longrightarrow> idle_conn c)"

text \<open>
  An event that has executed all the requests it received, up to a rejected message, and has sent all its
  replies.
\<close>

fun answered :: "log_entry \<Rightarrow> bool" where
  "answered (Opened fd) \<longleftrightarrow> True"
| "answered (Served fd got cmds outs sent) \<longleftrightarrow> sent = concat (responses outs) \<and>
     (\<exists>bad. got = concat (requests cmds) @ bad \<and> (bad \<noteq> [] \<longrightarrow> rejected bad))"

text \<open>The replies to the commands of one event, as specified.\<close>

abbreviation spec_replies :: "keyspace \<Rightarrow> byte list list list \<Rightarrow> keyspace \<Rightarrow> byte list list \<Rightarrow> bool" where
  "spec_replies kv cmds kv' outs \<equiv> (\<exists>rps. spec_run kv cmds kv' rps \<and> outs = map reply_bytes rps)"

definition live_log :: "keyspace \<Rightarrow> log_entry list \<Rightarrow> keyspace \<Rightarrow> bool" where
  "live_log kv log kv' \<longleftrightarrow> (\<forall>e \<in> set log. answered e) \<and> serial spec_replies kv log kv'"

lemma live_log_Nil: "live_log kv [] kv"
  by (simp add: live_log_def)

lemma live_log_append: "live_log kv log kv1 \<Longrightarrow> live_log kv1 log' kv2 \<Longrightarrow> live_log kv (log @ log') kv2"
  by (auto simp: live_log_def serial_append)

lemma live_log_Opened: "live_log kv [Opened fd] kv"
  by (simp add: live_log_def)

text \<open>What a served event makes of an idle connection: it is idle again, or closed.\<close>

lemma dispatch_request:
  assumes "db_rep g kv" "kv_small n kv" "n + 512 < 2 ^ 31 - 1" "idle_conn c" "request_event cmds bad rs"
  shows "\<exists>g' c' rps rs' kv'. conn_dispatch rs g c = Some (g', c', concat (responses (map reply_bytes rps)), rs') \<and>
    db_rep g' kv' \<and> spec_run kv cmds kv' rps \<and> (idle_conn c' \<or> cstate c' = STATE_END)"
proof -
  have ok: "conn_ok c" "cstate c = STATE_REQ" "unread c = []" using assms(4) by (simp_all add: idle_conn_def)
  let ?bs = "concat (requests cmds) @ bad"
  from assms(5) obtain ks where k: "rs = Got ?bs # map Sent ks" "length cmds \<le> length ks" "\<forall>k \<in> set ks. k_max_msg \<le> k"
    and cmds: "?bs \<noteq> []" "\<forall>cmd \<in> set cmds. fits cmd" "\<forall>cmd \<in> set cmds. no_range_query cmd" "length ?bs \<le> buf_cap"
      "bad \<noteq> [] \<longrightarrow> rejected bad"
    unfolding request_event_def by blast
  have count: "n + length cmds < 2 ^ 31 - 1" using request_event_count [OF assms(5)] assms(3) by simp
  have short: "\<forall>cmd \<in> set cmds. no_range_query cmd \<and> (\<forall>s \<in> set cmd. length s < 2 ^ 32)"
    using cmds(2,3) fits_short by blast
  from run_requests_repr [OF assms(1,2) count short] obtain g' kv' rps where
    r: "run_requests g cmds = Some (g', map reply_bytes rps)" "db_rep g' kv'" "spec_run kv cmds kv' rps" by auto
  have "length rps = length cmds" using r(3) by (induction rule: spec_run.induct) auto
  moreover have "\<forall>n \<in> set (map length (responses (map reply_bytes rps))). n \<le> k_max_msg"
    using length_limit_response by auto
  ultimately obtain rs' where fl: "flushes_all (map Sent ks) (map length (responses (map reply_bytes rps))) rs'"
    using flushes_all_prompt [of "map length (responses (map reply_bytes rps))" ks] k(2,3) by auto
  have ends: "\<exists>c'. conn_dispatch rs g c = Some (g', c', concat (responses (map reply_bytes rps)), rs') \<and> Q c'"
    if "ends_with bad Q" for Q
    using state_req_ends [OF ok(1,2) _ that cmds(1) _ cmds(2) r(1) fl] ok(3) cmds(4) k(1) by simp
  have "\<exists>c'. conn_dispatch rs g c = Some (g', c', concat (responses (map reply_bytes rps)), rs') \<and>
    (idle_conn c' \<or> cstate c' = STATE_END)"
  proof (cases "bad = []")
    case True
    with ends [OF ends_short] show ?thesis by (force simp: idle_conn_def conn_ok_def pending_def)
  next
    case False
    with ends [OF ends_rejected] cmds(5) show ?thesis by blast
  qed
  with r(2,3) show ?thesis by blast
qed

lemma dispatch_silent:
  assumes "idle_conn c" "silent_event rs"
  shows "\<exists>c' rs'. conn_dispatch rs g c = Some (g, c', [], rs') \<and> (idle_conn c' \<or> cstate c' = STATE_END)"
proof -
  obtain r rs' where nr: "next_result rs = (r, rs')" by fastforce
  have "unat (rbuf_size c) < buf_cap" "cstate c = STATE_REQ"
    using assms(1) by (auto simp: idle_conn_def conn_ok_def)
  then have "rbuf_size c < of_nat buf_cap" by (simp add: word_less_nat_alt buf_cap_def k_max_msg_def)
  then have "\<exists>c'. try_fill_buffer rs g c = Some (False, g, c', [], rs') \<and> (c' = c \<or> cstate c' = STATE_END)"
    using nr assms(2) by (auto simp: try_fill_buffer_def silent_event_def)
  then show ?thesis using assms(1) \<open>cstate c = STATE_REQ\<close>
    by (simp add: conn_dispatch_def) (subst state_req.simps, auto)
qed

lemma dispatch_live:
  assumes "db_rep g kv" "kv_small n kv" "n + 512 < 2 ^ 31 - 1" "idle_conn c" "served_event rs"
  shows "\<exists>g' c' sent rs' kv' cmds outs. conn_dispatch rs g c = Some (g', c', sent, rs') \<and> db_rep g' kv' \<and>
    kv_small (n + 512) kv' \<and> live_log kv [Served fd (received rs c) cmds outs sent] kv' \<and>
    (idle_conn c' \<or> cstate c' = STATE_END)"
  using assms(5) unfolding served_event_def
proof (elim disjE exE)
  assume s: "silent_event rs"
  from dispatch_silent [OF assms(4) s] obtain c' rs' where
    "conn_dispatch rs g c = Some (g, c', [], rs')" "idle_conn c' \<or> cstate c' = STATE_END" by blast
  moreover have "received rs c = []" using s by (auto simp: silent_event_def received_def)
  then have "live_log kv [Served fd (received rs c) [] [] []] kv" by (simp add: live_log_def spec_run.none)
  ultimately show ?thesis using assms(1) kv_small_le [OF assms(2), of "n + 512"] by (meson le_add1)
next
  fix cmds bad
  assume e: "request_event cmds bad rs"
  from dispatch_request [OF assms(1-4) e] obtain g' c' rps rs' kv' where
    d: "conn_dispatch rs g c = Some (g', c', concat (responses (map reply_bytes rps)), rs')" "db_rep g' kv'"
      "spec_run kv cmds kv' rps" "idle_conn c' \<or> cstate c' = STATE_END" by blast
  have "received rs c = concat (requests cmds) @ bad" "bad \<noteq> [] \<longrightarrow> rejected bad"
    using assms(4) e by (auto simp: request_event_def received_def idle_conn_def)
  with d(3) have "live_log kv
      [Served fd (received rs c) cmds (map reply_bytes rps) (concat (responses (map reply_bytes rps)))] kv'"
    by (auto simp: live_log_def)
  moreover have "kv_small (n + 512) kv'"
    using kv_small_le [OF spec_run_small [OF d(3) assms(2)]] request_event_count [OF e] by simp
  ultimately show ?thesis using d(1,2,4) by blast
qed

lemma event_live:
  assumes "db_rep (fst a) kv" "kv_small n kv" "n + 512 < 2 ^ 31 - 1" "idle_net a" "fd \<in> dom (snd a)" "served_event rs"
  shows "\<exists>a' sent c kv' cmds outs. spec_event fd now rs a = Some (a', sent) \<and> db_rep (fst a') kv' \<and> idle_net a' \<and>
    dom (snd a) - {fd} \<subseteq> dom (snd a') \<and> snd a fd = Some c \<and> kv_small (n + 512) kv' \<and>
    live_log kv [Served fd (received rs c) cmds outs sent] kv'"
proof -
  obtain g cs where a: "a = (g, cs)" by (cases a)
  from assms(5) a obtain c where c: "cs fd = Some c" by auto
  with assms(4) a have "idle_conn (c\<lparr>idle_start := now\<rparr>)"
    by (auto simp: idle_net_def idle_conn_def conn_ok_def wbuf_ok_def rbuf_ok_def)
  from dispatch_live [OF assms(1-3) this assms(6), of fd] a obtain g' c' sent rs' kv' cmds outs where
    d: "conn_dispatch rs g (c\<lparr>idle_start := now\<rparr>) = Some (g', c', sent, rs')" "db_rep g' kv'"
      "kv_small (n + 512) kv'" "live_log kv [Served fd (received rs c) cmds outs sent] kv'"
      "idle_conn c' \<or> cstate c' = STATE_END" by auto
  let ?a = "(g', cs(fd := if cstate c' = STATE_END then None else Some c'))"
  have "idle_net ?a" using d(5) assms(4) a by (auto simp: idle_net_def)
  moreover have "spec_event fd now rs a = Some (?a, sent)" using a c d(1) by (simp add: spec_event_def)
  moreover have "dom (snd a) - {fd} \<subseteq> dom (snd ?a)" using a by auto
  ultimately show ?thesis using d(2-4) a c
    by (intro exI [of _ ?a] exI [of _ sent] exI [of _ c] exI [of _ kv'] exI [of _ cmds] exI [of _ outs]) simp
qed

text \<open>What a part of a run makes of the net, with the room it leaves in the keyspace.\<close>

definition live :: "keyspace \<Rightarrow> nat \<Rightarrow> net \<Rightarrow> event list \<Rightarrow> bool" where
  "live kv m a' events \<longleftrightarrow> idle_net a' \<and> (\<exists>log kv'. db_rep (fst a') kv' \<and> kv_small m kv' \<and>
     live_log kv log kv' \<and> map visible log = events)"

lemma live_append:
  assumes "live kv n a1 events" "\<And>kv1. db_rep (fst a1) kv1 \<Longrightarrow> kv_small n kv1 \<Longrightarrow> live kv1 m a2 events'"
  shows "live kv m a2 (events @ events')"
proof -
  from assms(1) obtain log kv1 where l: "db_rep (fst a1) kv1" "kv_small n kv1" "live_log kv log kv1"
    "map visible log = events" by (auto simp: live_def)
  from assms(2) [OF l(1,2)] obtain log' kv2 where m: "idle_net a2" "db_rep (fst a2) kv2" "kv_small m kv2"
    "live_log kv1 log' kv2" "map visible log' = events'" by (auto simp: live_def)
  from live_log_append [OF l(3) m(4)] m(1-3,5) l(4) show ?thesis
    unfolding live_def by (metis map_append)
qed

lemma live_stop: "idle_net a \<Longrightarrow> db_rep (fst a) kv \<Longrightarrow> kv_small n kv \<Longrightarrow> n \<le> m \<Longrightarrow> live kv m a []"
  unfolding live_def using kv_small_le live_log_Nil by blast

lemma active_live:
  assumes "db_rep (fst a) kv" "kv_small n kv" "n + 512 * length evs < 2 ^ 31 - 1" "idle_net a"
    and "distinct fds" "set fds \<subseteq> dom (snd a)" "\<forall>now rs. Some (now, rs) \<in> set evs \<longrightarrow> served_event rs"
  shows "\<exists>a' out. spec_active fds evs a = Some (a', out) \<and> live kv (n + 512 * length evs) a' (active_log fds evs a)"
  using assms
proof (induction fds evs a arbitrary: kv n rule: spec_active.induct)
  case (1 fd fds now rs evs a)
  have served: "served_event rs" using 1(8) by fastforce
  have room: "n + 512 < 2 ^ 31 - 1" "fd \<in> dom (snd a)" using 1(4,7) by simp_all
  from event_live [OF 1(2,3) room(1) 1(5) room(2) served] obtain a1 sent c kv1 cmds outs where
    e: "spec_event fd now rs a = Some (a1, sent)" "db_rep (fst a1) kv1" "idle_net a1" "dom (snd a) - {fd} \<subseteq> dom (snd a1)"
      "snd a fd = Some c" "kv_small (n + 512) kv1" "live_log kv [Served fd (received rs c) cmds outs sent] kv1" by blast
  have "set fds \<subseteq> dom (snd a) - {fd}" using 1(6,7) by (simp add: subset_Diff_insert)
  then have rest: "n + 512 + 512 * length evs < 2 ^ 31 - 1" "distinct fds" "set fds \<subseteq> dom (snd a1)"
    "\<forall>now rs. Some (now, rs) \<in> set evs \<longrightarrow> served_event rs"
    using 1(4,6,8) e(4) by (simp, simp, blast, simp)
  note IH = 1(1) [OF e(1) refl _ _ rest(1) e(3) rest(2-4)]
  from IH [OF e(2,6)] obtain a2 out where i: "spec_active fds evs a1 = Some (a2, out)" by blast
  have "live kv (n + 512) a1 [Traffic fd (received rs c) sent]"
    unfolding live_def using e(2,3,6,7) by (metis visible.simps(2) list.simps(8,9))
  from live_append [OF this, of "n + 512 + 512 * length evs" a2 "active_log fds evs a1"] IH i e(1,5) show ?case
    by (simp add: add.assoc)
next
  case (2 fd fds evs a)
  have small: "kv_small (n + 512) kv" by (rule kv_small_le [OF 2(3)]) simp
  have "n + 512 + 512 * length evs < 2 ^ 31 - 1" "distinct fds" "set fds \<subseteq> dom (snd a)"
    "\<forall>now rs. Some (now, rs) \<in> set evs \<longrightarrow> served_event rs" using 2(4,6,7,8) by auto
  from 2(1) [OF 2(2) small this(1) 2(5) this(2-4)] show ?case by (simp add: add.assoc)
qed (simp_all add: live_stop)

lemma timers_live: "idle_net a \<Longrightarrow> idle_net (spec_timers now a)"
  by (cases a) (auto simp: idle_net_def spec_timers_def split: option.splits if_splits)

lemma fst_timers [simp]: "fst (spec_timers now a) = fst a"
  by (cases a) (simp add: spec_timers_def)

section \<open>Turns\<close>

text \<open>The events of a turn are served, and \<open>accept\<close> does not fail.\<close>

definition polite :: "turn \<Rightarrow> bool" where
  "polite tr \<longleftrightarrow> (\<forall>now rs. Some (now, rs) \<in> set (active tr) \<longrightarrow> served_event rs) \<and>
     (\<forall>malloced now. incoming tr \<noteq> Some (None, malloced, now))"

lemma incoming_live:
  assumes "idle_net a" "fresh_ok a inc" "\<forall>malloced now. inc \<noteq> Some (None, malloced, now)"
    and "db_rep (fst a) kv" "kv_small n kv"
  shows "\<exists>a'. spec_incoming inc a = Some a' \<and> live kv n a' (accept_log inc)"
proof -
  have new: "idle_net (g, cs(fd \<mapsto> conn_new fd now rb wb))"
    if "idle_net (g, cs)" "length rb = buf_cap" "length wb = buf_cap" for g cs fd now rb wb
    using that conn_new_ok [OF that(2,3), of fd now]
    by (auto simp: idle_net_def idle_conn_def pending_def conn_new_def)
  have "live kv n a' [Accepted fd]" if "idle_net a'" "fst a' = fst a" for a' fd
    unfolding live_def using that assms(4,5) live_log_Opened by (metis visible.simps(1) list.simps(8,9))
  with new show ?thesis using assms live_stop [OF assms(1,4,5) order.refl]
    by (cases "(inc, a)" rule: spec_incoming.cases) auto
qed

lemma turn_live:
  assumes "db_rep (fst a) kv" "kv_small n kv" "n + 512 * length (active tr) < 2 ^ 31 - 1" "idle_net a" "polite tr"
    and "case spec_serve tr a of None \<Rightarrow> True | Some (a1, out) \<Rightarrow> fresh_ok a1 (incoming tr)"
  shows "\<exists>a' out. spec_turn tr a = Some (a', out) \<and> live kv (n + 512 * length (active tr)) a' (turn_log tr a)"
proof -
  let ?fds = "sorted_list_of_set (dom (snd a))" and ?m = "n + 512 * length (active tr)"
  have p: "\<forall>now rs. Some (now, rs) \<in> set (active tr) \<longrightarrow> served_event rs"
    "\<forall>malloced now. incoming tr \<noteq> Some (None, malloced, now)" using assms(5) by (auto simp: polite_def)
  have fds: "distinct ?fds" "set ?fds \<subseteq> dom (snd a)" by (cases "finite (dom (snd a))"; simp)+
  from active_live [OF assms(1-4) fds p(1)] obtain a1 out where
    e: "spec_active ?fds (active tr) a = Some (a1, out)" "live kv ?m a1 (active_log ?fds (active tr) a)" by blast
  let ?a2 = "spec_timers (process_now tr) a1"
  have t: "live kv ?m ?a2 (active_log ?fds (active tr) a)" using e(2) timers_live by (auto simp: live_def)
  have serve: "spec_serve tr a = Some (?a2, out)" using e(1) by (simp add: spec_serve_def)
  with assms(6) have "fresh_ok ?a2 (incoming tr)" by simp
  note inc = incoming_live [OF _ this p(2)]
  have "idle_net ?a2" using t by (simp add: live_def)
  moreover from t obtain kv1 where "db_rep (fst ?a2) kv1" "kv_small ?m kv1" unfolding live_def by blast
  ultimately obtain a3 where i: "spec_incoming (incoming tr) ?a2 = Some a3" using inc by blast
  with inc \<open>idle_net ?a2\<close> have "live kv ?m a3 (turn_log tr a)"
    unfolding turn_log_def by (intro live_append [OF t]) fastforce
  with serve i show ?thesis by (simp add: spec_turn_def)
qed

lemma loop_live:
  assumes "db_rep (fst a) kv" "kv_small n kv" "n + 512 * (\<Sum>tr \<leftarrow> trs. length (active tr)) < 2 ^ 31 - 1"
    and "idle_net a" "arrivals_ok trs a" "\<forall>tr \<in> set trs. polite tr"
  shows "\<exists>a' outs. spec_loop trs a = Some (a', outs) \<and>
    live kv (n + 512 * (\<Sum>tr \<leftarrow> trs. length (active tr))) a' (run_log trs a)"
  using assms
proof (induction trs arbitrary: a kv n)
  case Nil
  then show ?case by (simp add: live_stop)
next
  case (Cons tr trs)
  let ?m = "n + 512 * length (active tr)"
  have room: "?m < 2 ^ 31 - 1" "?m + 512 * (\<Sum>tr \<leftarrow> trs. length (active tr)) < 2 ^ 31 - 1" "polite tr"
    "case spec_serve tr a of None \<Rightarrow> True | Some (a1, out) \<Rightarrow> fresh_ok a1 (incoming tr)"
    using Cons.prems(3,5,6) by (simp_all add: algebra_simps)
  from turn_live [OF Cons.prems(1,2) room(1) Cons.prems(4) room(3,4)] obtain a1 out where
    t: "spec_turn tr a = Some (a1, out)" "live kv ?m a1 (turn_log tr a)" by blast
  have rest: "idle_net a1" "arrivals_ok trs a1" "\<forall>tr \<in> set trs. polite tr"
    using Cons.prems(5,6) t by (simp_all add: live_def)
  note IH = Cons.IH [OF _ _ room(2) rest]
  from t(2) obtain kv1 where "db_rep (fst a1) kv1" "kv_small ?m kv1" unfolding live_def by blast
  with IH obtain a2 outs where l: "spec_loop trs a1 = Some (a2, outs)" by blast
  with IH have "live kv (?m + 512 * (\<Sum>tr \<leftarrow> trs. length (active tr))) a2 (turn_log tr a @ run_log trs a1)"
    by (intro live_append [OF t(2)]) fastforce
  with t(1) l show ?case by (simp add: algebra_simps)
qed

section \<open>The property\<close>

text \<open>
  C3. The server serves its clients.  When the listening socket can be set up, \<open>poll\<close> and \<open>accept\<close> do not
  fail, and every event brings whole requests without range queries, with perhaps a malformed or too long
  message behind them, from a client that takes the replies in one call each, or is the end of a client,
  \<open>main\<close> does not stop.  Whatever the interleaving of the clients, every event executes all the requests it
  received before the bad message, on the keyspace the event before it left; the replies of this event are
  those of the specification to these requests, one for each and in their order, and the event sends all
  of them.  At the end the keyspace is the one of this run and every connection that was not closed waits
  for the next request with empty buffers.
\<close>

theorem server_serves_clients:
  assumes "server_setup addrs listens = 0" "fd_set_nb getfl setfl = Some flags"
    and "monotonic (concat (map readings hts))" "turns_of hts = Some trs" "arrivals_ok trs (gdata0, Map.empty)"
    and "\<forall>tr \<in> set trs. polite tr" "512 * (\<Sum>tr \<leftarrow> trs. length (active tr)) < 2 ^ 31 - 1"
  shows "\<exists>s sent log kv. host_main addrs listens getfl setfl hts gdata0 = Some (Inr (s, sent)) \<and>
    map visible log = run_log trs (gdata0, Map.empty) \<and> (\<forall>e \<in> set log. answered e) \<and>
    serial spec_replies Map.empty log kv \<and> db_rep (gd s) kv \<and> idle_net (net_of s)"
proof -
  have "db_rep (fst (gdata0, Map.empty :: nat \<rightharpoonup> conn)) Map.empty" using db_rep_empty by simp
  moreover have "kv_small 0 Map.empty" by (simp add: kv_small_def)
  moreover have "idle_net (gdata0, Map.empty)" by (simp add: idle_net_def)
  ultimately obtain a outs where l: "spec_loop trs (gdata0, Map.empty) = Some (a, outs)"
    "live Map.empty (0 + 512 * (\<Sum>tr \<leftarrow> trs. length (active tr))) a (run_log trs (gdata0, Map.empty))"
    using loop_live [of "(gdata0, Map.empty)" Map.empty 0 trs] assms(5-7) by auto
  from main_refines [OF assms(1) host_inputs_ok [OF assms(3-5)]] l(1) obtain s t where
    s: "server_main addrs listens trs gdata0 = Some (Inr (s, outs))" "implements s t a" by auto
  have "host_main addrs listens getfl setfl hts gdata0 = Some (Inr (s, outs))"
    using host_main_turns [OF assms(1,2)] assms(4) s(1) by simp
  moreover have "net_of s = a" using s(2) by (simp add: implements_def)
  moreover from this have "gd s = fst a" by (auto simp: net_of_def)
  moreover from l(2) obtain log kv where "db_rep (fst a) kv" "idle_net a" "\<forall>e \<in> set log. answered e"
    "serial spec_replies Map.empty log kv" "map visible log = run_log trs (gdata0, Map.empty)"
    unfolding live_def live_log_def by blast
  ultimately show ?thesis
    by (intro exI [of _ s] exI [of _ outs] exI [of _ log] exI [of _ kv]) simp
qed

theorem server_serves_clients_witness:
  "\<exists>s sent log kv. host_main (Some [Bound]) True (Some 2) True host_turns gdata0 = Some (Inr (s, sent)) \<and>
     map visible log = [Accepted 5, Traffic 5 (frame (payload [])) (frame unknown_reply)] \<and>
     (\<forall>e \<in> set log. answered e) \<and> serial spec_replies Map.empty log kv \<and> db_rep (gd s) kv \<and> idle_net (net_of s)"
proof -
  have "fits []" "no_range_query []" by (simp_all add: fits_def payload_def k_max_msg_def no_range_query_def is_cmd_def)
  moreover have "[Got (frame (payload [])), Sent 4096] = Got (concat (requests [[]]) @ []) # map Sent [4096]" by simp
  moreover have "length (concat (requests [[]]) @ []) \<le> buf_cap" "concat (requests [[]]) @ [] \<noteq> []"
    by (simp_all add: payload_def buf_cap_def k_max_msg_def flip: length_greater_0_conv)
  ultimately have "request_event [[]] [] [Got (frame (payload [])), Sent 4096]"
    unfolding request_event_def by (intro conjI exI [of _ "[4096]"]) (simp_all add: k_max_msg_def)
  then have "served_event [Got (frame (payload [])), Sent 4096]" unfolding served_event_def by blast
  then have p: "\<forall>tr \<in> set [first_turn, second_turn]. polite tr"
    by (auto simp: polite_def first_turn_def second_turn_def)
  have n: "512 * (\<Sum>tr \<leftarrow> [first_turn, second_turn]. length (active tr)) < 2 ^ 31 - 1"
    by (simp add: first_turn_def second_turn_def)
  have "server_setup (Some [Bound]) True = 0" "fd_set_nb (Some 2) True = Some 0x802"
    by (simp_all add: server_setup_def fd_set_nb_def O_NONBLOCK_def)
  from server_serves_clients [OF this host_turns_ok(2,1) inputs_arrivals [OF one_client_run(1)] p n]
  show ?thesis unfolding one_client_log
    by (elim exE conjE) (intro exI conjI; assumption)
qed

end
