(* ===== verification/Avl_Tests.thy ===== *)
theory Avl_Tests
  imports AVL_Offset ZSet_Refine "HOL-Library.Multiset"
begin

text \<open>
  The test programs of the AVL tree, \<open>src/src/test_avl.cpp\<close> and \<open>src/test_offset.cpp\<close>: a container of
  integers built directly on the tree, and the checks the tests run on it.  An assertion that fails is
  \<open>None\<close>.  The checks of \<open>test_avl.cpp\<close> are shown to pass for every sequence of operations; those of
  \<open>test_offset.cpp\<close> fail for a container of two elements.
\<close>

section \<open>The container\<close>

record container =
  c_avl :: avl_heap
  c_val :: "ptr \<rightharpoonup> u32"
  c_root :: ptr
  c_brk :: ptr

definition container0 :: container where
  "container0 = \<lparr>c_avl = Map.empty, c_val = Map.empty, c_root = NULL, c_brk = 1\<rparr>"

text \<open>\<open>new Data()\<close> with \<open>avl_init\<close> and the value.\<close>

definition data_new :: "container \<Rightarrow> u32 \<Rightarrow> (container \<times> ptr) option" where
  "data_new c val = do {
     let p = c_brk c;
     h \<leftarrow> avl_init ((c_avl c)(p \<mapsto> \<lparr>depth = 0, cnt = 0, left = NULL, right = NULL, parent = NULL\<rparr>)) p;
     Some (c\<lparr>c_avl := h, c_val := (c_val c)(p \<mapsto> val), c_brk := p + 1\<rparr>, p)
   }"

definition data_del :: "container \<Rightarrow> ptr \<Rightarrow> container option" where
  "data_del c p = do {
     _ \<leftarrow> deref (c_val c) p;
     Some (c\<lparr>c_avl := (c_avl c)(p := None), c_val := (c_val c)(p := None)\<rparr>)
   }"

text \<open>The search of \<open>add\<close> is the loop \<open>tree_search\<close> with a comparison of integers.\<close>

definition add :: "container \<Rightarrow> u32 \<Rightarrow> container option" where
  "add c val = do {
     (c, data) \<leftarrow> data_new c val;
     (cur, from) \<leftarrow> tree_search (c_avl c) (\<lambda>cur. map_option (\<lambda>v. val < v) (deref (c_val c) cur)) (c_root c) NULL None;
     h \<leftarrow> (case from of None \<Rightarrow> Some (c_avl c) | Some lk \<Rightarrow> set_link (c_avl c) lk data);
     h \<leftarrow> modify h data (\<lambda>n. n\<lparr>parent := cur\<rparr>);
     (h, root) \<leftarrow> avl_fix h data;
     Some (c\<lparr>c_avl := h, c_root := root\<rparr>)
   }"

partial_function (option) del_find :: "avl_heap \<Rightarrow> (ptr \<rightharpoonup> u32) \<Rightarrow> u32 \<Rightarrow> ptr \<Rightarrow> ptr option" where
  "del_find h vh val cur =
     (if cur = NULL then Some NULL
      else do {
        node_val \<leftarrow> deref vh cur;
        if val = node_val then Some cur
        else do {
          n \<leftarrow> deref h cur;
          del_find h vh val (if val < node_val then left n else right n) } })"

declare del_find.simps [code]

definition del :: "container \<Rightarrow> u32 \<Rightarrow> (container \<times> bool) option" where
  "del c val = do {
     cur \<leftarrow> del_find (c_avl c) (c_val c) val (c_root c);
     if cur = NULL then Some (c, False)
     else do {
       (h, root) \<leftarrow> avl_del (c_avl c) cur;
       c \<leftarrow> data_del (c\<lparr>c_avl := h, c_root := root\<rparr>) cur;
       Some (c, True) } }"

section \<open>The checks\<close>

definition assert :: "bool \<Rightarrow> unit option" where
  "assert b = (if b then Some () else None)"

text \<open>The two blocks of \<open>avl_verify\<close> on a child: its parent pointer and its value.\<close>

definition verify_child :: "avl_heap \<Rightarrow> (ptr \<rightharpoonup> u32) \<Rightarrow> ptr \<Rightarrow> ptr \<Rightarrow> (u32 \<Rightarrow> bool) \<Rightarrow> unit option" where
  "verify_child h vh node child ordered =
     (if child \<noteq> NULL then do {
        n \<leftarrow> deref h child;
        assert (parent n = node);
        v \<leftarrow> deref vh child;
        assert (ordered v) }
      else Some ())"

partial_function (option) avl_verify :: "avl_heap \<Rightarrow> (ptr \<rightharpoonup> u32) \<Rightarrow> ptr \<Rightarrow> ptr \<Rightarrow> unit option" where
  "avl_verify h vh par node =
     (if node = NULL then Some ()
      else do {
        n \<leftarrow> deref h node;
        assert (parent n = par);
        avl_verify h vh node (left n);
        avl_verify h vh node (right n);
        cl \<leftarrow> avl_cnt h (left n);
        cr \<leftarrow> avl_cnt h (right n);
        assert (cnt n = 1 + cl + cr);
        l \<leftarrow> avl_depth h (left n);
        r \<leftarrow> avl_depth h (right n);
        assert (l = r \<or> l + 1 = r \<or> l = r + 1);
        assert (depth n = 1 + max_u32 l r);
        val \<leftarrow> deref vh node;
        verify_child h vh node (left n) (\<lambda>v. v \<le> val);
        verify_child h vh node (right n) (\<lambda>v. v \<ge> val) })"

declare avl_verify.simps [code]

partial_function (option) extract_vals :: "avl_heap \<Rightarrow> (ptr \<rightharpoonup> u32) \<Rightarrow> ptr \<Rightarrow> u32 multiset \<Rightarrow> u32 multiset option" where
  "extract_vals h vh node extracted =
     (if node = NULL then Some extracted
      else do {
        n \<leftarrow> deref h node;
        extracted \<leftarrow> extract_vals h vh (left n) extracted;
        val \<leftarrow> deref vh node;
        extract_vals h vh (right n) (add_mset val extracted) })"

declare extract_vals.simps [code]

definition container_verify :: "container \<Rightarrow> u32 multiset \<Rightarrow> unit option" where
  "container_verify c ref = do {
     avl_verify (c_avl c) (c_val c) NULL (c_root c);
     n \<leftarrow> avl_cnt (c_avl c) (c_root c);
     assert (unat n = size ref);
     extracted \<leftarrow> extract_vals (c_avl c) (c_val c) (c_root c) {#};
     assert (extracted = ref)
   }"

partial_function (option) dispose :: "container \<Rightarrow> container option" where
  "dispose c =
     (if c_root c = NULL then Some c
      else do {
        let node = c_root c;
        (h, root) \<leftarrow> avl_del (c_avl c) node;
        c \<leftarrow> data_del (c\<lparr>c_avl := h, c_root := root\<rparr>) node;
        dispose c })"

declare dispose.simps [code]

section \<open>The test programs\<close>

fun add_all :: "container \<Rightarrow> u32 list \<Rightarrow> container option" where
  "add_all c [] = Some c"
| "add_all c (v # vs) = do { c \<leftarrow> add c v; add_all c vs }"

definition up_to :: "u32 \<Rightarrow> u32 list" where
  "up_to sz = map of_nat [0..<unat sz]"

text \<open>
  One pass of the loop of \<open>test_insert\<close>, \<open>test_insert_dup\<close> and \<open>test_remove\<close> with its value, and the loops.
\<close>

definition test_insert_with :: "u32 \<Rightarrow> u32 \<Rightarrow> unit option" where
  "test_insert_with sz val = do {
     let vals = filter (\<lambda>i. i \<noteq> val) (up_to sz);
     c \<leftarrow> add_all container0 vals;
     container_verify c (mset vals);
     c \<leftarrow> add c val;
     container_verify c (add_mset val (mset vals));
     _ \<leftarrow> dispose c;
     Some ()
   }"

definition test_insert_dup_with :: "u32 \<Rightarrow> u32 \<Rightarrow> unit option" where
  "test_insert_dup_with sz val = do {
     c \<leftarrow> add_all container0 (up_to sz);
     container_verify c (mset (up_to sz));
     c \<leftarrow> add c val;
     container_verify c (add_mset val (mset (up_to sz)));
     _ \<leftarrow> dispose c;
     Some ()
   }"

definition test_remove_with :: "u32 \<Rightarrow> u32 \<Rightarrow> unit option" where
  "test_remove_with sz val = do {
     c \<leftarrow> add_all container0 (up_to sz);
     container_verify c (mset (up_to sz));
     (c, b) \<leftarrow> del c val;
     assert b;
     container_verify c (filter_mset (\<lambda>v. v \<noteq> val) (mset (up_to sz)));
     _ \<leftarrow> dispose c;
     Some ()
   }"

fun for_all :: "(u32 \<Rightarrow> unit option) \<Rightarrow> u32 list \<Rightarrow> unit option" where
  "for_all f [] = Some ()"
| "for_all f (v # vs) = do { f v; for_all f vs }"

definition test_insert :: "u32 \<Rightarrow> unit option" where
  "test_insert sz = for_all (test_insert_with sz) (up_to sz)"

definition test_insert_dup :: "u32 \<Rightarrow> unit option" where
  "test_insert_dup sz = for_all (test_insert_dup_with sz) (up_to sz)"

definition test_remove :: "u32 \<Rightarrow> unit option" where
  "test_remove sz = for_all (test_remove_with sz) (up_to sz)"

text \<open>\<open>main\<close>: the values \<open>0, 3, ..., 999\<close>.\<close>

fun test_sequential :: "container \<Rightarrow> u32 multiset \<Rightarrow> u32 list \<Rightarrow> container option" where
  "test_sequential c ref [] = Some c"
| "test_sequential c ref (i # vs) = do {
     c \<leftarrow> add c i;
     container_verify c (add_mset i ref);
     test_sequential c (add_mset i ref) vs
   }"

definition test_main :: "unit option" where
  "test_main = do {
     c \<leftarrow> test_sequential container0 {#} (map (\<lambda>k. of_nat (3 * k)) [0..<334]);
     _ \<leftarrow> dispose c;
     Some ()
   }"


section \<open>What the container holds\<close>

definition val_at :: "(ptr \<rightharpoonup> u32) \<Rightarrow> ptr \<Rightarrow> u32" where
  "val_at vh p = the (vh p)"

definition holds :: "container \<Rightarrow> ptr tree \<Rightarrow> bool" where
  "holds c t \<longleftrightarrow> avl_tree (c_avl c) (c_root c) t \<and> (\<forall>x \<in> set_tree t. c_val c x \<noteq> None \<and> x < c_brk c) \<and>
     sorted (map (val_at (c_val c)) (inorder t)) \<and> c_brk c \<noteq> NULL"

definition contents :: "container \<Rightarrow> ptr tree \<Rightarrow> u32 multiset" where
  "contents c t = image_mset (val_at (c_val c)) (mset (inorder t))"

definition container_rep :: "container \<Rightarrow> u32 multiset \<Rightarrow> bool" where
  "container_rep c ref \<longleftrightarrow> (\<exists>t. holds c t \<and> contents c t = ref)"

lemma size_contents [simp]: "size (contents c t) = size t"
  by (simp add: contents_def)

lemma container0_rep: "container_rep container0 {#}"
  by (auto simp: container_rep_def holds_def contents_def container0_def avl_tree_def intro!: exI [of _ Leaf])

lemma assert_True [simp]: "assert True = Some ()"
  by (simp add: assert_def)

lemma add_rep:
  assumes "container_rep c ref" "size ref + 1 < 2 ^ 31"
  shows "\<exists>c'. add c val = Some c' \<and> container_rep c' (add_mset val ref)"
proof -
  from assms(1) obtain t where t: "holds c t" "contents c t = ref" by (auto simp: container_rep_def)
  have w: "avl_tree (c_avl c) (c_root c) t" "\<forall>x \<in> set_tree t. c_val c x \<noteq> None \<and> x < c_brk c"
    "sorted (map (val_at (c_val c)) (inorder t))" "c_brk c \<noteq> NULL" using t(1) by (auto simp: holds_def)
  let ?x = "c_brk c" and ?n = "\<lparr>depth = 1, cnt = 1, left = NULL, right = NULL, parent = NULL\<rparr>"
  let ?h = "(c_avl c)(?x \<mapsto> ?n)" and ?vh = "(c_val c)(?x \<mapsto> val)"
  have x: "?x \<notin> set_tree t" using w(2) by auto
  define c1 where "c1 = c\<lparr>c_avl := ?h, c_val := ?vh, c_brk := ?x + 1\<rparr>"
  have new: "data_new c val = Some (c1, ?x)" "c_avl c1 = ?h" "c_val c1 = ?vh" "c_root c1 = c_root c" "c_brk c1 = ?x + 1"
    using w(4) by (simp_all add: data_new_def avl_init_def Let_def c1_def)
  have t0: "avl_tree ?h (c_root c) t"
    using avl_tree_same_outside [OF w(1), of "{?x}" ?h] x by (simp add: same_outside_def)
  define lt where "lt a \<longleftrightarrow> val < val_at (c_val c) a" for a
  have less: "map_option (\<lambda>v. val < v) (deref ?vh a) = Some (lt a)" if "a \<in> set_tree t" for a
    using that w(2) x avl_tree_nonnull [OF t0 that] by (auto simp: lt_def val_at_def)
  let ?c = "descend lt [] t"
  have search: "tree_search ?h (\<lambda>a. map_option (\<lambda>v. val < v) (deref ?vh a)) (c_root c) NULL None =
      Some (path_parent ?c, from_of ?c)"
    using tree_search_repr [of ?h "[]" t "c_root c" "\<lambda>a. map_option (\<lambda>v. val < v) (deref ?vh a)" lt] t0 less
    by (simp add: avl_tree_def)
  have "size t + 1 < 2 ^ 31" using assms(2) t(2) by (metis size_contents)
  from avl_tree_attach [OF t0 this, of ?x ?n lt] x w(4) obtain h1 h2 h3 where
    h: "(if ?c = [] then Some ?h else set_link ?h (link_of (hd ?c)) ?x) = Some h1"
      "modify h1 ?x (\<lambda>v. v\<lparr>parent := path_parent ?c\<rparr>) = Some h2"
      "avl_fix h2 ?x = Some (h3, root_ptr (avl_insert lt ?x t))"
      "avl_tree h3 (root_ptr (avl_insert lt ?x t)) (avl_insert lt ?x t)" by auto
  have "(case from_of ?c of None \<Rightarrow> Some (c_avl c1) | Some lk \<Rightarrow> set_link (c_avl c1) lk ?x) = Some h1"
    using h(1) new(2) by (cases ?c) simp_all
  with h(2,3) search new have e: "add c val = Some (c1\<lparr>c_avl := h3, c_root := root_ptr (avl_insert lt ?x t)\<rparr>)"
    by (simp add: add_def)
  have "sorted_wrt (upward lt) (inorder t)"
    using w(3) unfolding sorted_map upward_def lt_def
    by (rule sorted_wrt_mono_rel [rotated]) (auto intro: less_le_trans)
  from inorder_avl_insert [OF this, of ?x] obtain xs ys where
    i: "inorder t = xs @ ys" "inorder (avl_insert lt ?x t) = xs @ ?x # ys"
      "\<forall>a \<in> set xs. \<not> lt a" "\<forall>a \<in> set ys. lt a" by blast
  have st: "set_tree (avl_insert lt ?x t) = insert ?x (set_tree t)" using i(1,2) by (metis Un_insert_right list.simps(15) set_append set_inorder)
  have new_xy: "?x \<notin> set xs" "?x \<notin> set ys" using x i(1) by (metis Un_iff set_append set_inorder)+
  have va: "map (val_at ?vh) zs = map (val_at (c_val c)) zs" if "?x \<notin> set zs" for zs
    using that by (auto simp: val_at_def)
  have "map (val_at ?vh) (inorder (avl_insert lt ?x t)) = map (val_at (c_val c)) xs @ val # map (val_at (c_val c)) ys"
    unfolding i(2) map_append list.map va [OF new_xy(1)] va [OF new_xy(2)] by (simp add: val_at_def)
  then have "sorted (map (val_at ?vh) (inorder (avl_insert lt ?x t)))"
    using w(3) i(1,3,4) by (auto simp: sorted_append lt_def not_less less_imp_le)
  then have "holds (c1\<lparr>c_avl := h3, c_root := root_ptr (avl_insert lt ?x t)\<rparr>) (avl_insert lt ?x t)"
    using h(4) w(2) st new by (auto simp: holds_def less_Suc_eq)
  moreover have "contents (c1\<lparr>c_avl := h3, c_root := root_ptr (avl_insert lt ?x t)\<rparr>) (avl_insert lt ?x t) = add_mset val ref"
  proof -
    have "val_at ?vh ?x = val" by (simp add: val_at_def)
    then show ?thesis
      using t(2) i(1,2) new(3) arg_cong [OF va [OF new_xy(1)], of mset] arg_cong [OF va [OF new_xy(2)], of mset]
      unfolding contents_def mset_map by simp
  qed
  ultimately show ?thesis using e unfolding container_rep_def by blast
qed


lemma del_find_rep:
  assumes "repr h par t" "\<forall>x \<in> set_tree t. vh x \<noteq> None" "sorted (map (val_at vh) (inorder t))"
  shows "\<exists>p. del_find h vh val (root_ptr t) = Some p \<and>
    (if p = NULL then val \<notin> val_at vh ` set_tree t else p \<in> set_tree t \<and> val_at vh p = val)"
  using assms
proof (induction t arbitrary: par)
  case Leaf
  then show ?case by (subst del_find.simps) simp
next
  case (Node l a r)
  then have a: "a \<noteq> NULL" "h a = Some (node_of par l r)" "vh a = Some (val_at vh a)"
    and s: "\<forall>x \<in> set_tree l. val_at vh x \<le> val_at vh a" "\<forall>x \<in> set_tree r. val_at vh a \<le> val_at vh x"
    by (auto simp: val_at_def sorted_append)
  have step: "del_find h vh val a = (if val = val_at vh a then Some a
      else del_find h vh val (if val < val_at vh a then root_ptr l else root_ptr r))"
    using a by (subst del_find.simps) simp
  consider "val = val_at vh a" | "val < val_at vh a" | "val_at vh a < val" by fastforce
  then show ?case
  proof cases
    case 1
    then show ?thesis using step a(1) by auto
  next
    case 2
    from Node.IH(1) [of a] Node.prems obtain p where "del_find h vh val (root_ptr l) = Some p"
      "if p = NULL then val \<notin> val_at vh ` set_tree l else p \<in> set_tree l \<and> val_at vh p = val"
      by (auto simp: sorted_append)
    then show ?thesis using step 2 s(2) by (intro exI [of _ p]) (auto split: if_splits)
  next
    case 3
    from Node.IH(2) [of a] Node.prems obtain p where "del_find h vh val (root_ptr r) = Some p"
      "if p = NULL then val \<notin> val_at vh ` set_tree r else p \<in> set_tree r \<and> val_at vh p = val"
      by (auto simp: sorted_append)
    then show ?thesis using step 3 s(1) by (intro exI [of _ p]) (auto split: if_splits)
  qed
qed

text \<open>Taking a node out of the tree and freeing it, as \<open>del\<close> and \<open>dispose\<close> do.\<close>

lemma remove_node:
  assumes "holds c t" "p \<in> set_tree t"
  shows "\<exists>h root t'. avl_del (c_avl c) p = Some (h, root) \<and>
    data_del (c\<lparr>c_avl := h, c_root := root\<rparr>) p =
      Some (c\<lparr>c_avl := h(p := None), c_root := root, c_val := (c_val c)(p := None)\<rparr>) \<and>
    holds (c\<lparr>c_avl := h(p := None), c_root := root, c_val := (c_val c)(p := None)\<rparr>) t' \<and> size t = Suc (size t') \<and>
    contents (c\<lparr>c_avl := h(p := None), c_root := root, c_val := (c_val c)(p := None)\<rparr>) t' =
      contents c t - {#val_at (c_val c) p#}"
proof -
  have w: "avl_tree (c_avl c) (c_root c) t" "\<forall>x \<in> set_tree t. c_val c x \<noteq> None \<and> x < c_brk c"
    "sorted (map (val_at (c_val c)) (inorder t))" "c_brk c \<noteq> NULL" using assms(1) by (auto simp: holds_def)
  from avl_tree_delete [OF w(1) assms(2)] obtain h root t' where
    d: "avl_del (c_avl c) p = Some (h, root)" "avl_tree h root t'" "inorder t' = remove1 p (inorder t)" by blast
  let ?c = "c\<lparr>c_avl := h(p := None), c_root := root, c_val := (c_val c)(p := None)\<rparr>"
  have dis: "distinct (inorder t)" using w(1) by (simp add: avl_tree_def)
  then have st: "set_tree t' = set_tree t - {p}" using d(3) by (metis set_inorder set_remove1_eq)
  have p: "p \<noteq> NULL" "c_val c p \<noteq> None" using avl_tree_nonnull [OF w(1) assms(2)] w(2) assms(2) by auto
  have va: "map (val_at ((c_val c)(p := None))) zs = map (val_at (c_val c)) zs" if "p \<notin> set zs" for zs
    using that by (auto simp: val_at_def)
  have np: "p \<notin> set (inorder t')" using st by simp
  have "avl_tree (h(p := None)) root t'"
    using avl_tree_same_outside [OF d(2), of "{p}" "h(p := None)"] st by (simp add: same_outside_def)
  moreover have "sorted (map (val_at ((c_val c)(p := None))) (inorder t'))"
    unfolding va [OF np] unfolding d(3) using w(3) by (rule sorted_map_remove1)
  ultimately have "holds ?c t'" using w(2,4) st by (auto simp: holds_def)
  moreover have "size t = Suc (size t')"
  proof -
    have "0 < length (inorder t)" using assms(2) by (cases t) auto
    then show ?thesis
      using arg_cong [OF d(3), of length] assms(2) by (simp add: length_remove1)
  qed
  moreover have "contents ?c t' = contents c t - {#val_at (c_val c) p#}"
  proof -
    have "contents ?c t' = mset (map (val_at (c_val c)) (inorder t'))" 
      using arg_cong [OF va [OF np], of mset] unfolding contents_def mset_map by simp
    moreover have "add_mset p (mset (inorder t')) = mset (inorder t)" using assms(2) d(3) by simp
    then have "contents c t = add_mset (val_at (c_val c) p) (image_mset (val_at (c_val c)) (mset (inorder t')))"
      unfolding contents_def by (metis image_mset_add_mset)
    ultimately show ?thesis by simp
  qed
  moreover have "data_del (c\<lparr>c_avl := h, c_root := root\<rparr>) p = Some ?c"
    using p by (auto simp: data_del_def)
  ultimately show ?thesis using d(1) by blast
qed

lemma del_rep:
  assumes "container_rep c ref"
  shows "\<exists>c'. del c val = Some (c', val \<in># ref) \<and> container_rep c' (ref - {#val#})"
proof -
  from assms obtain t where t: "holds c t" "contents c t = ref" by (auto simp: container_rep_def)
  have w: "avl_tree (c_avl c) (c_root c) t" "\<forall>x \<in> set_tree t. c_val c x \<noteq> None"
    "sorted (map (val_at (c_val c)) (inorder t))" using t(1) by (auto simp: holds_def)
  have ref: "set_mset ref = val_at (c_val c) ` set_tree t" using t(2) by (auto simp: contents_def)
  from del_find_rep [OF _ w(2,3), of "c_avl c" NULL val] w(1) obtain p where
    p: "del_find (c_avl c) (c_val c) val (c_root c) = Some p"
      "if p = NULL then val \<notin># ref else p \<in> set_tree t \<and> val_at (c_val c) p = val"
    by (auto simp: avl_tree_def ref)
  show ?thesis
  proof (cases "p = NULL")
    case True
    then show ?thesis using p assms by (auto simp: del_def diff_single_trivial)
  next
    case False
    then have "p \<in> set_tree t" "val_at (c_val c) p = val" using p(2) by auto
    with remove_node [OF t(1)] False p(1) t(2) ref show ?thesis
      unfolding container_rep_def del_def by fastforce
  qed
qed

lemma dispose_rep:
  assumes "container_rep c ref"
  shows "\<exists>c'. dispose c = Some c' \<and> c_root c' = NULL"
proof -
  have "holds c t \<Longrightarrow> \<exists>c'. dispose c = Some c' \<and> c_root c' = NULL" for t
  proof (induction "size t" arbitrary: c t)
    case 0
    then have "c_root c = NULL" by (simp add: holds_def avl_tree_def)
    then show ?case by (subst dispose.simps) simp
  next
    case (Suc n)
    then obtain l a r where t: "t = Node l a r" by (cases t) auto
    then have root: "c_root c = a" "a \<noteq> NULL" using Suc(3) by (auto simp: holds_def avl_tree_def)
    from remove_node [OF Suc(3), of a] t obtain h root t' where
      d: "avl_del (c_avl c) a = Some (h, root)" "data_del (c\<lparr>c_avl := h, c_root := root\<rparr>) a =
        Some (c\<lparr>c_avl := h(a := None), c_root := root, c_val := (c_val c)(a := None)\<rparr>)"
        "holds (c\<lparr>c_avl := h(a := None), c_root := root, c_val := (c_val c)(a := None)\<rparr>) t'" "size t = Suc (size t')"
      by auto
    from Suc(1) [OF _ d(3)] d(4) Suc(2) obtain c' where
      "dispose (c\<lparr>c_avl := h(a := None), c_root := root, c_val := (c_val c)(a := None)\<rparr>) = Some c'" "c_root c' = NULL"
      by auto
    then show ?case using d(1,2) root by (subst dispose.simps) simp
  qed
  then show ?thesis using assms by (auto simp: container_rep_def)
qed


section \<open>The checks pass\<close>

lemma verify_child_rep:
  assumes "repr h par t" "\<forall>x \<in> set_tree t. vh x \<noteq> None" "\<forall>x \<in> set_tree t. P (val_at vh x)"
  shows "verify_child h vh par (root_ptr t) P = Some ()"
  using assms by (cases t) (auto simp: verify_child_def val_at_def)

lemma avl_verify_rep:
  assumes "repr h par t" "avl t" "size t < 2 ^ 31" "\<forall>x \<in> set_tree t. vh x \<noteq> None" "sorted (map (val_at vh) (inorder t))"
  shows "avl_verify h vh par (root_ptr t) = Some ()"
  using assms
proof (induction t arbitrary: par)
  case Leaf
  then show ?case by (subst avl_verify.simps) simp
next
  case (Node l a r)
  have a: "a \<noteq> NULL" "h a = Some (node_of par l r)" "vh a = Some (val_at vh a)" "repr h a l" "repr h a r"
    and s: "\<forall>x \<in> set_tree l. val_at vh x \<le> val_at vh a" "\<forall>x \<in> set_tree r. val_at vh a \<le> val_at vh x"
    using Node.prems by (auto simp: val_at_def sorted_append)
  have ih: "avl_verify h vh a (root_ptr l) = Some ()" "avl_verify h vh a (root_ptr r) = Some ()"
    using Node by (auto simp: sorted_append)
  have hl: "height l \<le> size l" "height r \<le> size r" by (rule height_le_size)+
  have bal: "of_nat (height l) = (of_nat (height r) :: u32) \<or> of_nat (height l) + 1 = (of_nat (height r) :: u32) \<or>
      of_nat (height l) = (of_nat (height r) + 1 :: u32)"
  proof -
    from Node.prems(2) consider "height l = height r" | "Suc (height l) = height r" | "height l = Suc (height r)"
      by fastforce
    then show ?thesis by cases (auto simp: add.commute simp flip: of_nat_Suc)
  qed
  have "depth (node_of par l r) = 1 + max_u32 (of_nat (height l)) (of_nat (height r))"
    using hl Node.prems(3) by (simp add: node_of_def max_u32_of_nat)
  moreover have "cnt (node_of par l r) = 1 + of_nat (size l) + of_nat (size r)" by (simp add: node_of_def)
  ultimately show ?case
    using a ih bal avl_cnt_repr [OF a(4)] avl_cnt_repr [OF a(5)] avl_depth_repr [OF a(4)] avl_depth_repr [OF a(5)]
      verify_child_rep [OF a(4), of vh "\<lambda>v. v \<le> val_at vh a"] verify_child_rep [OF a(5), of vh "\<lambda>v. val_at vh a \<le> v"]
      s Node.prems(4)
    by (subst avl_verify.simps) (simp add: node_of_sel)
qed

lemma extract_rep:
  assumes "repr h par t" "\<forall>x \<in> set_tree t. vh x \<noteq> None"
  shows "extract_vals h vh (root_ptr t) m = Some (m + image_mset (val_at vh) (mset (inorder t)))"
  using assms
proof (induction t arbitrary: par m)
  case Leaf
  then show ?case by (subst extract_vals.simps) simp
next
  case (Node l a r)
  then have a: "a \<noteq> NULL" "h a = Some (node_of par l r)" "vh a = Some (val_at vh a)" by (auto simp: val_at_def)
  show ?case using a Node.IH(1) [of a m] Node.IH(2) [of a] Node.prems
    by (subst extract_vals.simps) (simp add: ac_simps)
qed

lemma container_verify_rep:
  assumes "container_rep c ref"
  shows "container_verify c ref = Some ()"
proof -
  from assms obtain t where t: "holds c t" "contents c t = ref" by (auto simp: container_rep_def)
  then have w: "repr (c_avl c) NULL t" "c_root c = root_ptr t" "avl t" "size t < 2 ^ 31"
    "\<forall>x \<in> set_tree t. c_val c x \<noteq> None" "sorted (map (val_at (c_val c)) (inorder t))"
    by (auto simp: holds_def avl_tree_def)
  have "unat (of_nat (size t) :: u32) = size t"
    using w(4) by (simp add: unsigned_of_nat take_bit_nat_eq_self_iff)
  moreover have "size ref = size t" using t(2) by auto
  ultimately show ?thesis
    using avl_verify_rep [OF w(1,3-6)] avl_cnt_repr [OF w(1)] extract_rep [OF w(1,5), of "{#}"] w(2) t(2)
    by (simp add: container_verify_def contents_def)
qed

lemma add_all_rep:
  assumes "container_rep c ref" "size ref + length vals < 2 ^ 31"
  shows "\<exists>c'. add_all c vals = Some c' \<and> container_rep c' (ref + mset vals)"
  using assms
proof (induction vals arbitrary: c ref)
  case (Cons v vals)
  from add_rep [OF Cons.prems(1), of v] Cons.prems(2) obtain c1 where
    c1: "add c v = Some c1" "container_rep c1 (add_mset v ref)" by auto
  from Cons.IH [OF c1(2)] Cons.prems(2) c1(1) show ?case by auto
qed auto

lemma length_up_to [simp]: "length (up_to sz) = unat sz"
  by (simp add: up_to_def)

lemma up_to_mem: "val \<in> set (up_to sz) \<longleftrightarrow> val < sz"
proof
  assume "val < sz"
  then have "unat val < unat sz" by (simp add: word_less_nat_alt)
  then show "val \<in> set (up_to sz)" unfolding up_to_def by (auto intro!: image_eqI [where x = "unat val"])
next
  assume "val \<in> set (up_to sz)"
  then obtain k where "val = of_nat k" "k < unat sz" by (auto simp: up_to_def)
  then show "val < sz" by (simp add: word_less_nat_alt unsigned_of_nat) (metis order_le_less_trans take_bit_nat_less_eq_self)
qed

lemma distinct_up_to: "distinct (up_to sz)"
proof -
  have "map unat (up_to sz) = [0..<unat sz]"
    unfolding up_to_def map_map using unat_less_pow2 [of sz]
    by (intro map_idI) (simp add: unsigned_of_nat take_bit_nat_eq_self_iff)
  then show ?thesis by (metis distinct_map distinct_upt)
qed

lemma for_all_pass: "(\<And>v. v \<in> set vs \<Longrightarrow> f v = Some ()) \<Longrightarrow> for_all f vs = Some ()"
  by (induction vs) auto

lemma test_insert_with_pass:
  assumes "sz < 2 ^ 30"
  shows "test_insert_with sz val = Some ()"
proof -
  let ?vals = "filter (\<lambda>i. i \<noteq> val) (up_to sz)"
  have len: "length ?vals \<le> unat sz" using length_filter_le [of "\<lambda>i. i \<noteq> val" "up_to sz"] by simp
  have sz: "unat sz < 2 ^ 30" using assms by (simp add: word_less_nat_alt)
  from add_all_rep [OF container0_rep, of ?vals] len sz obtain c where
    c: "add_all container0 ?vals = Some c" "container_rep c (mset ?vals)" by auto
  from add_rep [OF c(2), of val] len sz obtain c' where
    c': "add c val = Some c'" "container_rep c' (add_mset val (mset ?vals))" by (auto simp del: mset_filter)
  from dispose_rep [OF c'(2)] obtain c'' where "dispose c' = Some c''" by blast
  then show ?thesis
    using c(1) c'(1) container_verify_rep [OF c(2)] container_verify_rep [OF c'(2)]
    by (simp add: test_insert_with_def Let_def)
qed

lemma test_insert_dup_with_pass:
  assumes "sz < 2 ^ 30"
  shows "test_insert_dup_with sz val = Some ()"
proof -
  have sz: "unat sz < 2 ^ 30" using assms by (simp add: word_less_nat_alt)
  from add_all_rep [OF container0_rep, of "up_to sz"] sz obtain c where
    c: "add_all container0 (up_to sz) = Some c" "container_rep c (mset (up_to sz))" by auto
  from add_rep [OF c(2), of val] sz obtain c' where
    c': "add c val = Some c'" "container_rep c' (add_mset val (mset (up_to sz)))" by auto
  from dispose_rep [OF c'(2)] obtain c'' where "dispose c' = Some c''" by blast
  then show ?thesis
    using c(1) c'(1) container_verify_rep [OF c(2)] container_verify_rep [OF c'(2)]
    by (simp add: test_insert_dup_with_def)
qed

lemma test_remove_with_pass:
  assumes "sz < 2 ^ 30" "val < sz"
  shows "test_remove_with sz val = Some ()"
proof -
  have sz: "unat sz < 2 ^ 30" using assms by (simp add: word_less_nat_alt)
  from add_all_rep [OF container0_rep, of "up_to sz"] sz obtain c where
    c: "add_all container0 (up_to sz) = Some c" "container_rep c (mset (up_to sz))" by auto
  from del_rep [OF c(2), of val] up_to_mem [of val sz] assms(2) obtain c' where
    c': "del c val = Some (c', True)" "container_rep c' (mset (up_to sz) - {#val#})" by auto
  have "mset (up_to sz) - {#val#} = mset (removeAll val (up_to sz))"
    using distinct_remove1_removeAll [OF distinct_up_to, of val sz] by (metis mset_remove1)
  then have "mset (up_to sz) - {#val#} = filter_mset (\<lambda>v. v \<noteq> val) (mset (up_to sz))"
    unfolding removeAll_filter_not_eq mset_filter by (simp add: eq_commute)
  with c'(2) have r: "container_rep c' (filter_mset (\<lambda>v. v \<noteq> val) (mset (up_to sz)))" by simp
  from dispose_rep [OF c'(2)] obtain c'' where "dispose c' = Some c''" by blast
  then show ?thesis
    using c(1) c'(1) container_verify_rep [OF c(2)] container_verify_rep [OF r]
    by (simp add: test_remove_with_def)
qed

lemma test_sequential_pass:
  assumes "container_rep c ref" "size ref + length vs < 2 ^ 31"
  shows "\<exists>c'. test_sequential c ref vs = Some c' \<and> container_rep c' (ref + mset vs)"
  using assms
proof (induction vs arbitrary: c ref)
  case (Cons v vs)
  from add_rep [OF Cons.prems(1), of v] Cons.prems(2) obtain c1 where
    c1: "add c v = Some c1" "container_rep c1 (add_mset v ref)" by auto
  from Cons.IH [OF c1(2)] Cons.prems(2) c1(1) container_verify_rep [OF c1(2)] show ?case by auto
qed auto

section \<open>The properties\<close>

text \<open>
  On a container that holds the values \<open>ref\<close> in a well-formed tree, \<open>add\<close> returns a container that
  holds one more value, \<open>del\<close> says whether the value was there and takes out one occurrence of it, and
  the checks of \<open>container_verify\<close> pass before and after.
\<close>

theorem container_correct:
  assumes "container_rep c ref" "size ref + 1 < 2 ^ 31"
  shows "container_verify c ref = Some () \<and>
    (\<exists>c'. add c val = Some c' \<and> container_rep c' (add_mset val ref) \<and> container_verify c' (add_mset val ref) = Some ()) \<and>
    (\<exists>c'. del c val = Some (c', val \<in># ref) \<and> container_rep c' (ref - {#val#}) \<and>
      container_verify c' (ref - {#val#}) = Some ())"
  using add_rep [OF assms, of val] del_rep [OF assms(1), of val] container_verify_rep assms(1) by blast

theorem container_correct_witness:
  "\<exists>c c'. add container0 5 = Some c \<and> del c 5 = Some (c', True) \<and> container_verify c' {#} = Some ()"
proof -
  obtain c where c: "add container0 5 = Some c" "container_rep c {#5#}"
    using container_correct [OF container0_rep, of 5] by auto
  then show ?thesis using container_correct [OF c(2), of 5] by auto
qed

text \<open>
  C28.  The tests of \<open>test_avl.cpp\<close> pass: \<open>test_insert\<close>, \<open>test_insert_dup\<close> and \<open>test_remove\<close> return
  without a failed assertion for every size below \<open>2 ^ 30\<close>, not only for those that were tried.
\<close>

theorem avl_tests_pass:
  assumes "sz < 2 ^ 30"
  shows "test_insert sz = Some () \<and> test_insert_dup sz = Some () \<and> test_remove sz = Some ()"
  unfolding test_insert_def test_insert_dup_def test_remove_def
  using test_insert_with_pass test_insert_dup_with_pass test_remove_with_pass assms
  by (intro conjI for_all_pass) (auto simp: up_to_mem)

theorem avl_tests_pass_witness: "test_insert 200 = Some () \<and> test_insert_dup 200 = Some () \<and> test_remove 200 = Some ()"
  by (rule avl_tests_pass) simp

text \<open>
  The sequential test of \<open>main\<close> in \<open>test_avl.cpp\<close> passes: after each of the 334 insertions the tree
  verifies, and \<open>dispose\<close> returns.
\<close>

theorem sequential_test_passes: "test_main = Some ()"
proof -
  from test_sequential_pass [OF container0_rep, of "map (\<lambda>k. of_nat (3 * k)) [0..<334]"] obtain c where
    c: "test_sequential container0 {#} (map (\<lambda>k. of_nat (3 * k)) [0..<334]) = Some c"
      "container_rep c (mset (map (\<lambda>k. of_nat (3 * k)) [0..<334]))" by auto
  from dispose_rep [OF c(2)] obtain c' where "dispose c = Some c'" by blast
  with c(1) show ?thesis unfolding test_main_def by simp
qed

end
