(* ===== verification/Offset_Tests.thy ===== *)
theory Offset_Tests
  imports Avl_Tests "HOL-Library.Code_Target_Numeral"
begin

text \<open>
  The test program of \<open>avl_offset\<close>, \<open>src/test_offset.cpp\<close>, on the container of \<open>Avl_Tests\<close> (the two
  programs declare the same \<open>Data\<close> and \<open>Container\<close>).  A failed assertion or a dereference of NULL is
  \<open>None\<close>.  The program passes for one element and stops at two.
\<close>

partial_function (option) offset_add_loop ::
    "avl_heap \<Rightarrow> (ptr \<rightharpoonup> u32) \<Rightarrow> ptr \<Rightarrow> u32 \<Rightarrow> ptr \<Rightarrow> (avl_heap \<times> ptr) option" where
  "offset_add_loop h vh data val cur = do {
     v \<leftarrow> deref vh cur;
     n \<leftarrow> deref h cur;
     let from = (if val < v then left n else right n);
     if from = NULL then do {
       h \<leftarrow> modify h cur (\<lambda>n. if val < v then n\<lparr>left := data\<rparr> else n\<lparr>right := data\<rparr>);
       h \<leftarrow> modify h data (\<lambda>n. n\<lparr>parent := cur\<rparr>);
       avl_fix h data }
     else offset_add_loop h vh data val from }"

declare offset_add_loop.simps [code]

definition offset_add :: "container \<Rightarrow> u32 \<Rightarrow> container option" where
  "offset_add c val = do {
     (c, data) \<leftarrow> data_new c val;
     if c_root c = NULL then Some (c\<lparr>c_root := data\<rparr>)
     else do {
       (h, root) \<leftarrow> offset_add_loop (c_avl c) (c_val c) data val (c_root c);
       Some (c\<lparr>c_avl := h, c_root := root\<rparr>) } }"

partial_function (option) offset_dispose :: "container \<Rightarrow> ptr \<Rightarrow> container option" where
  "offset_dispose c node =
     (if node \<noteq> NULL then do {
        n \<leftarrow> deref (c_avl c) node;
        c \<leftarrow> offset_dispose c (left n);
        n \<leftarrow> deref (c_avl c) node;
        c \<leftarrow> offset_dispose c (right n);
        data_del c node }
      else Some c)"

declare offset_dispose.simps [code]

fun offset_add_all :: "container \<Rightarrow> u32 list \<Rightarrow> container option" where
  "offset_add_all c [] = Some c"
| "offset_add_all c (v # vs) = do { c \<leftarrow> offset_add c v; offset_add_all c vs }"

text \<open>The inner and the outer loop of \<open>test_case\<close>.  Their counters are below \<open>sz\<close>, so the 64-bit
  differences do not overflow and \<open>sz - i\<close> does not wrap.\<close>

definition test_case_inner :: "container \<Rightarrow> ptr \<Rightarrow> u32 \<Rightarrow> u32 \<Rightarrow> unit option" where
  "test_case_inner c node i j = do {
     n2 \<leftarrow> avl_offset (c_avl c) node (int (unat j) - int (unat i));
     v \<leftarrow> deref (c_val c) n2;
     assert (v = j)
   }"

definition test_case_outer :: "container \<Rightarrow> ptr \<Rightarrow> u32 \<Rightarrow> u32 \<Rightarrow> unit option" where
  "test_case_outer c lo sz i = do {
     node \<leftarrow> avl_offset (c_avl c) lo (int (unat i));
     v \<leftarrow> deref (c_val c) node;
     assert (v = i);
     for_all (test_case_inner c node i) (up_to sz);
     p \<leftarrow> avl_offset (c_avl c) node (- int (unat i) - 1);
     assert (p = NULL);
     p \<leftarrow> avl_offset (c_avl c) node (int (unat (sz - i)));
     assert (p = NULL)
   }"

definition test_case :: "u32 \<Rightarrow> unit option" where
  "test_case sz = do {
     c \<leftarrow> offset_add_all container0 (up_to sz);
     lo \<leftarrow> leftmost (c_avl c) (c_root c);
     for_all (test_case_outer c lo sz) (up_to sz);
     _ \<leftarrow> offset_dispose c (c_root c);
     Some ()
   }"

definition offset_main :: "unit option" where
  "offset_main = for_all test_case (map of_nat [1..<500])"

section \<open>What the program reports\<close>

text \<open>With one element every assertion of the program holds.\<close>

lemma up_to_values: "up_to 1 = [0]" "up_to 2 = [0, 1]"
  by (simp_all add: up_to_def upt_conv_Cons)

lemmas eval_container = test_case_def up_to_values test_case_inner_def test_case_outer_def container0_def data_new_def
  data_del_def offset_add_def offset_add_loop.simps offset_dispose.simps deref_def modify_def Let_def assert_def

lemmas eval_tree = avl_init_def avl_fix.simps avl_update_def avl_depth_def avl_cnt_def avl_fix_node_def
  parent_link_def max_u32_def leftmost.simps avl_offset_def avl_offset_loop.simps avl_offset_step_def widen_def

lemma uint_minus_one: "uint (- 1 :: u32) = 4294967295"
  by (simp add: unsigned_minus_1_eq_mask mask_eq_exp_minus_1)

lemma offset_test_one: "test_case 1 = Some ()"
  by (simp add: eval_container eval_tree cong: bind_cong_weak)

text \<open>With two elements the second one is the right child of the first.\<close>

abbreviation node_of_0 :: avlnode where
  "node_of_0 \<equiv> \<lparr>depth = 2, cnt = 2, left = NULL, right = 2, parent = NULL\<rparr>"

abbreviation node_of_1 :: avlnode where
  "node_of_1 \<equiv> \<lparr>depth = 1, cnt = 1, left = NULL, right = NULL, parent = 1\<rparr>"

lemma two_elements:
  "\<exists>c. offset_add_all container0 (up_to 2) = Some c \<and> c_root c = 1 \<and>
     c_avl c 1 = Some node_of_0 \<and> c_avl c 2 = Some node_of_1 \<and> c_val c 1 = Some 0"
  by (simp add: eval_container eval_tree cong: bind_cong_weak)

lemma successor_missed:
  assumes "h 1 = Some node_of_0" "h 2 = Some node_of_1"
  shows "leftmost h 1 = Some 1" "avl_offset h 1 0 = Some 1" "avl_offset h 1 1 = Some NULL"
  using assms by (simp_all add: eval_tree deref_def uint_minus_one)

lemma offset_test_two: "test_case 2 = None"
proof -
  from two_elements obtain c where c: "offset_add_all container0 (up_to 2) = Some c" "c_root c = 1"
    "c_avl c 1 = Some node_of_0" "c_avl c 2 = Some node_of_1" "c_val c 1 = Some 0" by blast
  have "test_case_outer c 1 2 0 = None"
    using successor_missed [OF c(3,4)] c(5)
    by (simp add: test_case_outer_def test_case_inner_def up_to_values assert_def)
  then show ?thesis
    using c(1,2) successor_missed [OF c(3,4)] by (simp add: test_case_def up_to_values)
qed

lemma first_two_rounds: "2 < n \<Longrightarrow> map of_nat [1..<n] = (1::u32) # 2 # map of_nat [3..<n]"
  by (simp add: upt_conv_Cons eval_nat_numeral)

text \<open>
  C40.  \<open>test_offset\<close> does not pass.  The first round of \<open>main\<close>, with the element 0, ends with all assertions
  true.  In the second round, with the elements 0 and 1, the tree is built and the node of 0 is found
  with its value; the inner loop passes for 0; for 1 \<open>avl_offset\<close> returns, with NULL, and the assertion
  reads the value of this \<open>NULL\<close>.  So the round, and with it the program, does not pass.
\<close>

theorem offset_test_fails:
  "test_case 1 = Some () \<and>
   (\<exists>c. offset_add_all container0 (up_to 2) = Some c \<and> leftmost (c_avl c) (c_root c) = Some 1 \<and>
      avl_offset (c_avl c) 1 (int (unat (0 :: u32))) = Some 1 \<and> c_val c 1 = Some 0 \<and>
      test_case_inner c 1 0 0 = Some () \<and>
      avl_offset (c_avl c) 1 (int (unat (1 :: u32)) - int (unat (0 :: u32))) = Some NULL \<and> deref (c_val c) NULL = None \<and>
      test_case_inner c 1 0 1 = None \<and> test_case_outer c 1 2 0 = None) \<and>
   test_case 2 = None \<and> offset_main = None"
proof -
  have "map of_nat [1..<500] = (1::u32) # 2 # map of_nat [3..<500]" by (rule first_two_rounds) simp
  then have "offset_main = None"
    by (simp only: offset_main_def for_all.simps offset_test_one offset_test_two bind.simps)
  moreover from two_elements obtain c where c: "offset_add_all container0 (up_to 2) = Some c" "c_root c = 1"
    "c_avl c 1 = Some node_of_0" "c_avl c 2 = Some node_of_1" "c_val c 1 = Some 0" by blast
  note m = successor_missed [OF c(3,4)]
  have inner: "test_case_inner c 1 0 0 = Some ()" "test_case_inner c 1 0 1 = None"
    using m(2,3) c(5) by (simp_all add: test_case_inner_def assert_def)
  then have "test_case_outer c 1 2 0 = None"
    using m(2) c(5) by (simp add: test_case_outer_def up_to_values assert_def)
  ultimately show ?thesis using offset_test_one offset_test_two c(1,2,5) m inner by auto
qed

end
