(* ===== verification/Demos.thy ===== *)
theory Demos
  imports Client Server
begin

text \<open>
  The network demos under \<open>src/demos\<close>: \<open>server.c\<close>, which greets every connection from a forked process,
  \<open>client.c\<close>, which prints what one \<open>recv\<close> gives it, and \<open>showip.c\<close>, \<open>poll.c\<close> and \<open>select.c\<close>.  A program is
  a function of the results of its system calls; its result is its exit code with the lines it prints, or
  the calls it makes.  The loops over addresses are the ones of \<open>src/src/server.cpp\<close> and \<open>client.cpp\<close>.
\<close>

section \<open>Addresses\<close>

definition AF_INET :: int where
  "AF_INET = 2"

text \<open>A \<open>struct sockaddr\<close>, with the bytes of the address as \<open>sockaddr_in\<close> and as \<open>sockaddr_in6\<close>.\<close>

record sockaddr =
  sa_family :: int
  sin_addr :: "byte list"
  sin6_addr :: "byte list"

definition get_in_addr :: "sockaddr \<Rightarrow> byte list" where
  "get_in_addr sa = (if sa_family sa = AF_INET then sin_addr sa else sin6_addr sa)"

text \<open>
  \<open>showip.c\<close>: the lines for the addresses of a host.  \<open>inet_ntop\<close> is a parameter; when it fails it leaves
  the buffer \<open>ipstr\<close> as it is, which is printed all the same.
\<close>

datatype ip_line = Addresses_for "byte list" | Address string "byte list"

fun show_addrs :: "(int \<Rightarrow> byte list \<Rightarrow> byte list option) \<Rightarrow> byte list \<Rightarrow> sockaddr list \<Rightarrow> ip_line list" where
  "show_addrs ntop ipstr [] = []"
| "show_addrs ntop ipstr (p # ps) =
     (let (addr, ipver) = (if sa_family p = AF_INET then (sin_addr p, ''IPv4'') else (sin6_addr p, ''IPv6''));
          ipstr = (case ntop (sa_family p) addr of Some s \<Rightarrow> s | None \<Rightarrow> ipstr)
      in Address ipver ipstr # show_addrs ntop ipstr ps)"

definition showip_main ::
  "(int \<Rightarrow> byte list \<Rightarrow> byte list option) \<Rightarrow> byte list \<Rightarrow> byte list list \<Rightarrow> sockaddr list option \<Rightarrow> int \<times> ip_line list" where
  "showip_main ntop junk argv res =
     (if length argv \<noteq> 2 then (1, [])
      else case res of
        None \<Rightarrow> (2, [])
      | Some addrs \<Rightarrow> (0, Addresses_for (argv ! 1) # show_addrs ntop junk addrs))"

text \<open>One line for every address; where \<open>inet_ntop\<close> knows the family, it is the text of this address.\<close>

lemma show_addrs_lines:
  assumes "\<forall>p \<in> set ps. ntop (sa_family p) (get_in_addr p) \<noteq> None"
  shows "show_addrs ntop ipstr ps = map (\<lambda>p. Address (if sa_family p = AF_INET then ''IPv4'' else ''IPv6'')
    (the (ntop (sa_family p) (get_in_addr p)))) ps"
  using assms by (induction ps arbitrary: ipstr) (auto simp: get_in_addr_def)

section \<open>Waiting for input\<close>

text \<open>\<open>poll.c\<close>: the result of \<open>poll\<close> and the \<open>revents\<close> it leaves.\<close>

datatype poll_line = Poll_timed_out | Ready_to_read int | Unexpected_event "16 word"

definition POLLIN :: "16 word" where
  "POLLIN = 1"

definition poll_main :: "int \<Rightarrow> 16 word \<Rightarrow> int \<times> poll_line" where
  "poll_main num_events revents =
     (0, if num_events = 0 then Poll_timed_out
         else if and revents POLLIN \<noteq> 0 then Ready_to_read 0
         else Unexpected_event revents)"

text \<open>\<open>select.c\<close>: whether descriptor 0 is in the set after \<open>select\<close>.\<close>

datatype select_line = Key_pressed | Timed_out

definition select_main :: "bool \<Rightarrow> int \<times> select_line" where
  "select_main isset = (0, if isset then Key_pressed else Timed_out)"

text \<open>
  \<open>poll.c\<close> tells the three outcomes of a \<open>poll\<close> that works apart.  The failure of \<open>poll\<close> is not one of
  them: with \<open>-1\<close> the program reports an event, from a field that was not written.
\<close>

lemma poll_outcomes:
  "snd (poll_main 0 revents) = Poll_timed_out"
  "0 < n \<Longrightarrow> bit revents 0 \<Longrightarrow> snd (poll_main n revents) = Ready_to_read 0"
  "0 < n \<Longrightarrow> \<not> bit revents 0 \<Longrightarrow> snd (poll_main n revents) = Unexpected_event revents"
  by (auto simp: poll_main_def POLLIN_def and_one_eq odd_iff_mod_2_eq_one bit_0)

lemma poll_failure_reported_as_event: "snd (poll_main (- 1) revents) \<noteq> Poll_timed_out"
  by (simp add: poll_main_def)

section \<open>The greeting server\<close>

text \<open>
  \<open>sigchld_handler\<close>: the results of the calls of \<open>waitpid\<close>, each with the \<open>errno\<close> it leaves.  The result
  is the number of reaped children and \<open>errno\<close>; \<open>None\<close> when the results run out in the loop.
\<close>

fun reap :: "(int \<times> int) list \<Rightarrow> nat \<Rightarrow> int \<Rightarrow> (nat \<times> int) option" where
  "reap [] n errno = None"
| "reap ((pid, errno') # rs) n errno = (if pid > 0 then reap rs (n + 1) errno' else Some (n, errno'))"

definition sigchld_handler :: "(int \<times> int) list \<Rightarrow> int \<Rightarrow> (nat \<times> int) option" where
  "sigchld_handler waits errno = do {
     let saved_errno = errno;
     (n, errno) \<leftarrow> reap waits 0 errno;
     Some (n, saved_errno) }"

lemma reap_all:
  "\<forall>(pid, e) \<in> set zs. pid > 0 \<Longrightarrow> pid \<le> 0 \<Longrightarrow> reap (zs @ (pid, e) # rs) n errno = Some (n + length zs, e)"
  by (induction zs arbitrary: n errno) auto

text \<open>One signal for any number of dead children reaps them all, and the interrupted code keeps its \<open>errno\<close>.\<close>

lemma sigchld_reaps_all:
  "\<forall>(pid, e) \<in> set zs. pid > 0 \<Longrightarrow> pid \<le> 0 \<Longrightarrow>
    sigchld_handler (zs @ (pid, e) # rs) errno = Some (length zs, errno)"
  by (simp add: sigchld_handler_def reap_all)

text \<open>The calls of a process, with their results: accepted descriptors, bytes sent.\<close>

datatype syscall = Accept int | Close int | Send int "byte list" | Exit int

text \<open>
  The accept loop of \<open>server.c\<close>: for each call of \<open>accept\<close> its result and the one of \<open>fork\<close>.  The child,
  where \<open>fork\<close> gives 0, sends and exits, whether or not \<open>send\<close> works.
\<close>

definition demo_child :: "int \<Rightarrow> int \<Rightarrow> syscall list" where
  "demo_child sockfd new_fd = [Close sockfd, Send new_fd (ascii ''Hello, world!''), Close new_fd, Exit 0]"

fun accept_loop :: "int \<Rightarrow> (int \<times> int) list \<Rightarrow> syscall list" where
  "accept_loop sockfd [] = []"
| "accept_loop sockfd ((new_fd, pid) # rest) =
     (if new_fd = - 1 then accept_loop sockfd rest
      else Accept new_fd #
        (if pid = 0 then demo_child sockfd new_fd
         else Close new_fd # accept_loop sockfd rest))"

definition demo_server_main ::
  "bind_attempt list option \<Rightarrow> bool \<Rightarrow> bool \<Rightarrow> int \<Rightarrow> (int \<times> int) list \<Rightarrow> int + syscall list" where
  "demo_server_main addrs listens sigaction_ok sockfd conns = (case addrs of
     None \<Rightarrow> Inl 1
   | Some attempts \<Rightarrow>
       (case bind_first attempts of
          None \<Rightarrow> Inl 1
        | Some bound \<Rightarrow>
            if \<not> bound then Inl 1 else if \<not> listens then Inl 1 else if \<not> sigaction_ok then Inl 1
            else Inr (accept_loop sockfd conns)))"

text \<open>The descriptors that are open after some calls, and what was sent.\<close>

fun open_fds :: "int set \<Rightarrow> syscall list \<Rightarrow> int set" where
  "open_fds F [] = F"
| "open_fds F (Accept fd # cs) = open_fds (insert fd F) cs"
| "open_fds F (Close fd # cs) = open_fds (F - {fd}) cs"
| "open_fds F (_ # cs) = open_fds F cs"

definition sends :: "syscall list \<Rightarrow> (int \<times> byte list) list" where
  "sends cs = concat (map (\<lambda>c. case c of Send fd bs \<Rightarrow> [(fd, bs)] | _ \<Rightarrow> []) cs)"

lemma fd_closed: "fd \<noteq> sockfd \<Longrightarrow> insert fd {sockfd} - {fd} = {sockfd}"
  by auto

lemma sends_simps [simp]:
  "sends [] = []" "sends (Accept fd # cs) = sends cs" "sends (Close fd # cs) = sends cs"
  "sends (Send fd bs # cs) = (fd, bs) # sends cs" "sends (Exit n # cs) = sends cs"
  by (simp_all add: sends_def)

text \<open>
  The parent leaks no descriptor, however many connections it accepts, and leaves the sending to its
  children; a failing \<open>fork\<close> closes the connection without a greeting.
\<close>

lemma demo_parent_no_leak:
  assumes "\<forall>(fd, pid) \<in> set conns. pid \<noteq> 0 \<and> fd \<noteq> sockfd"
  shows "open_fds {sockfd} (accept_loop sockfd conns) = {sockfd}" "sends (accept_loop sockfd conns) = []"
  using assms by (induction sockfd conns rule: accept_loop.induct) (simp_all add: fd_closed)

lemma demo_child_acts: "fd \<noteq> - 1 \<Longrightarrow> accept_loop sockfd (conns @ (fd, 0) # rest) \<noteq> []"
  by (induction sockfd conns rule: accept_loop.induct) simp_all

text \<open>A child greets the connection it was forked for, and no other, and ends with no descriptor open.\<close>

lemma demo_child_greets:
  assumes "\<forall>(fd, pid) \<in> set conns. pid \<noteq> 0 \<and> fd \<noteq> sockfd" "fd \<noteq> - 1" "fd \<noteq> sockfd"
  shows "open_fds {sockfd} (accept_loop sockfd (conns @ (fd, 0) # rest)) = {}"
    "sends (accept_loop sockfd (conns @ (fd, 0) # rest)) = [(fd, ascii ''Hello, world!'')]"
    "last (accept_loop sockfd (conns @ (fd, 0) # rest)) = Exit 0"
  using assms demo_child_acts [of fd sockfd _ rest] by (induction sockfd conns rule: accept_loop.induct) (auto simp: fd_closed demo_child_def)

section \<open>The client of the greeting server\<close>

definition MAXDATASIZE :: nat where
  "MAXDATASIZE = 100"

text \<open>
  \<open>client.c\<close>: the exit code and the text printed.  \<open>buf\<close> is the uninitialised buffer, \<open>r\<close> the result of
  the one call of \<open>recv\<close>.
\<close>

definition demo_client_main ::
  "byte list list \<Rightarrow> attempt list option \<Rightarrow> io_result \<Rightarrow> byte list \<Rightarrow> (int \<times> byte list option) option" where
  "demo_client_main argv addrs r buf =
     (if length argv \<noteq> 2 then Some (1, None)
      else case addrs of
        None \<Rightarrow> Some (1, None)
      | Some attempts \<Rightarrow>
          if \<not> connect_first attempts then Some (2, None)
          else case (case r of Got bs \<Rightarrow> Some (take (MAXDATASIZE - 1) bs) | Eof \<Rightarrow> Some [] | _ \<Rightarrow> None) of
            None \<Rightarrow> Some (1, None)
          | Some bs \<Rightarrow> do {
              buf \<leftarrow> put_at buf 0 bs;
              buf \<leftarrow> put_at buf (length bs) [0];
              Some (0, Some (c_str buf)) })"

text \<open>Whatever is received, the terminating zero is written inside the buffer.\<close>

lemma demo_client_prints:
  assumes "length buf = MAXDATASIZE" "length argv = 2" "connect_first attempts"
  shows "demo_client_main argv (Some attempts) (Got bs) buf = Some (0, Some (c_str (take (MAXDATASIZE - 1) bs)))"
proof -
  let ?bs = "take (MAXDATASIZE - 1) bs"
  have l: "length ?bs < length buf" using assms(1) by (simp add: MAXDATASIZE_def)
  have "put_at buf 0 ?bs = Some (?bs @ drop (length ?bs) buf)" using l by (simp add: put_at_def)
  moreover have "put_at (?bs @ drop (length ?bs) buf) (length ?bs) [0] = Some ((?bs @ [0]) @ drop 1 (drop (length ?bs) buf))"
    using l put_at_full [of "[0]" "drop (length ?bs) buf" ?bs] by simp
  moreover have "c_str ((xs @ [0]) @ tl) = c_str xs" for xs tl
    by (induction xs) (simp_all add: c_str_def)
  ultimately show ?thesis using assms(2,3) by (simp add: demo_client_main_def)
qed

lemma demo_client_returns:
  assumes "length buf = MAXDATASIZE"
  shows "\<exists>code line. demo_client_main argv addrs r buf = Some (code, line) \<and> code \<in> {0, 1, 2}"
proof (cases "length argv = 2 \<and> (\<exists>attempts. addrs = Some attempts \<and> connect_first attempts)")
  case True
  then obtain attempts where a: "length argv = 2" "addrs = Some attempts" "connect_first attempts" by blast
  have eof: "demo_client_main argv addrs Eof buf = demo_client_main argv addrs (Got []) buf"
    using a by (simp add: demo_client_main_def)
  show ?thesis
  proof (cases "r = Eof \<or> (\<exists>bs. r = Got bs)")
    case True
    then show ?thesis using eof demo_client_prints [OF assms a(1,3)] a(2) by auto
  next
    case False
    then show ?thesis using a by (cases r) (simp_all add: demo_client_main_def)
  qed
next
  case False
  then show ?thesis by (cases addrs) (auto simp: demo_client_main_def)
qed

text \<open>
  The client prints the whole greeting of the server when it arrives in one segment, and otherwise only
  the first one: it does not read on.
\<close>

lemma demo_greeting_printed:
  assumes "length buf = MAXDATASIZE" "length argv = 2" "connect_first attempts"
    and "ascii ''Hello, world!'' = bs @ later"
  shows "demo_client_main argv (Some attempts) (Got bs) buf = Some (0, Some bs)"
proof -
  have "length bs \<le> 13" using arg_cong [OF assms(4), of length] by (simp add: ascii_def)
  then have short: "take (MAXDATASIZE - 1) bs = bs" by (simp add: MAXDATASIZE_def)
  have "0 \<notin> set (ascii ''Hello, world!'')" by (simp add: ascii_def)
  moreover have "set bs \<subseteq> set (ascii ''Hello, world!'')" unfolding assms(4) by simp
  ultimately have "c_str bs = bs" by (auto simp: c_str_def takeWhile_eq_all_conv)
  with short show ?thesis using demo_client_prints [OF assms(1-3)] by simp
qed

end
