(* ===== verification/Spec2Isabelle.thy ===== *)
theory Spec2Isabelle
  imports AVL_Offset Node_Index ZSet_Refine ZSet_Balance Client Protocol Client_Safe Commands_Refine Range_Query
    Range_Reply Keyspace_Run Conn_Refine Conn_Stream Server_Refine Server_Spec Server_Host Server_Log Server_Live Avl_Tests Offset_Tests Demos
begin

text \<open>
  A verification library for a Redis-like key-value server in C++: a poll-driven TCP server
  (\<open>src/src/server.cpp\<close>) over a hash map with progressive resizing (\<open>src/src/hashtable.cpp\<close>) and
  sorted sets (\<open>src/src/zset.cpp\<close>) built from it and an intrusive AVL tree (\<open>src/src/avl.cpp\<close>), and
  its client (\<open>src/src/client.cpp\<close>).

  The parts and the theories that model them, each with the names of the source:

    \<^item> \<open>Prelude\<close>: addresses, heaps with one map per struct, checked access.  An operation of the model
      returns \<open>None\<close> exactly where the C++ code has undefined behaviour, fails an assertion or does not
      return; so \<open>f x = Some y\<close> says that the code returns and touches only memory it owns.
    \<^item> \<open>AVL\<close> (\<open>avl.h\<close>, \<open>avl.cpp\<close>): the pointer code.  \<open>AVL_Spec\<close> has the functional trees, paths and
      balancing, \<open>AVL_Refine\<close> shows that the pointer code computes them, \<open>AVL_Offset\<close> follows the walk
      of \<open>avl_offset\<close> and holds the properties of the tree.
    \<^item> \<open>Hashtable\<close> (\<open>hashtable.h\<close>, \<open>hashtable.cpp\<close>): chains, tables, the pair of tables during a resize.
      \<open>Hashtable_Refine\<close> represents it by a set of nodes; \<open>Node_Index\<close> states the contract with the
      clients as the locale \<open>node_index\<close>, interprets it on the model and holds the properties.
    \<^item> \<open>CLib\<close> (\<open>common.h\<close> and the C library): little-endian integers, \<open>memcmp\<close>, \<open>strcasecmp\<close>, \<open>strtoll\<close>,
      \<open>strtod\<close>, comparison of doubles by their bit patterns, \<open>str_hash\<close>, \<open>str2dbl\<close>, \<open>str2int\<close>.
    \<^item> \<open>ZSet\<close> (\<open>zset.h\<close>, \<open>zset.cpp\<close>): the sorted set; \<open>ZSet_Refine\<close> represents it by a list of members in
      the order of (score, name), and proves the operations against \<open>spec_add\<close>, \<open>spec_remove\<close> and
      \<open>spec_query\<close>; \<open>ZSet_Balance\<close> is about the tree after any sequence of these operations.
    \<^item> \<open>Wire\<close> (\<open>server.cpp\<close>): serialisation of replies, the parser of requests.  \<open>Client\<close>: the client's
      encoder, I/O loops and decoder.  \<open>Protocol\<close>: the two sides together.  \<open>Client_Safe\<close>: the decoder on replies
      that no server of this program sends; it stays inside the frame, except for a length that wraps.
    \<^item> \<open>Commands\<close> (\<open>server.cpp\<close>): \<open>do_get\<close> ... \<open>do_zquery\<close>, \<open>do_request\<close> over \<open>g_data\<close>.
      \<open>Commands_Refine\<close> represents the keyspace by a map from keys to strings or member lists, with one
      specification per command, the step relation \<open>spec_step\<close> and its runs \<open>spec_run\<close>.
      \<open>Range_Query\<close> evaluates one range query through all layers.  \<open>Range_Reply\<close> is about all range queries:
      \<open>spec_range\<close> is the intended answer, \<open>range_reply\<close> what holds of every answer that is given.
      \<open>Keyspace_Run\<close> is about runs of any commands: a range query may fail to return, but it never changes
      the keyspace and replies with members of the set.
    \<^item> \<open>DList\<close> (\<open>list.h\<close>): the intrusive doubly linked list as pointer code, represented by rings; the
      locale \<open>timer_queue\<close> states what the event loop needs of it and is interpreted on it.
    \<^item> \<open>Socket\<close>: the results a non-blocking socket call can give; a run of the program is given the list
      of results of its calls.
    \<^item> \<open>Conn\<close> (\<open>server.cpp\<close>, \<open>Conn\<close> to \<open>state_req\<close>): the buffers of a connection and its state machine,
      with the commands executed on the real keyspace.  \<open>Conn_Refine\<close> reads the buffers as two byte
      queues (\<open>unread\<close>, \<open>pending\<close>), has the invariant \<open>conn_ok\<close> and shows what an event does to them,
      also when it brings a message that is rejected;
      \<open>Conn_Stream\<close> shows that every event that returns executes exactly the requests it received.
    \<^item> \<open>Server\<close> (\<open>server.cpp\<close>, \<open>connection_io\<close> to \<open>main\<close>): the table of connections, the timers and one
      turn of the poll loop, and \<open>main\<close> as \<open>server_main\<close>.  \<open>Server_Refine\<close> has the invariant \<open>server_inv\<close> (the list holds exactly the
      connections of the table, in the order of their last activity), the reachable states and the
      exactness of the timers.  \<open>Server_Spec\<close> is the loop on a plain map from descriptors to connections,
      which \<open>main\<close> is shown to implement; \<open>Server_Log\<close> shows that the events of all clients are one serial
      run, each with the replies to its own commands.  \<open>Server_Host\<close> puts \<open>main\<close> on the results of the
      system calls as the kernel gives them: \<open>get_monotonic_usec\<close>, \<open>fd_set_nb\<close>, and the calls whose failure
      ends the process.  \<open>Server_Live\<close> shows that the server does not stop for clients that send whole
      messages, good or bad, or hang up, and answers every request.
    \<^item> \<open>Avl_Tests\<close>, \<open>Offset_Tests\<close> (\<open>test_avl.cpp\<close>, \<open>test_offset.cpp\<close>): the test programs over the model
      of the tree, with an assertion that fails as \<open>None\<close>.
    \<^item> \<open>Demos\<close> (\<open>src/demos\<close>): the stand-alone network programs, as functions of the results of their system
      calls.
    \<^item> this theory: a command from the client's buffer to the keyspace and back to the client's screen.

  How they interact.  \<open>main_turn\<close> polls, calls \<open>connection_io\<close> for the descriptors that are ready, which
  moves the connection to the end of the list and calls \<open>conn_dispatch\<close>; that reads, cuts the bytes into
  requests, hands them to \<open>do_request\<close> and sends the replies.  \<open>do_request\<close> works on \<open>g_data\<close>: a hash map of
  entries, whose sorted sets are a hash map and a tree over the same nodes.

  Bounds.  A tree has less than \<open>2 ^ 31\<close> nodes (\<open>cnt\<close> is 32 bits wide and is read into signed numbers),
  a map at most \<open>hm_capacity\<close> nodes, names and arguments are shorter than \<open>2 ^ 32\<close> bytes; the message
  limit of 4096 bytes keeps requests far below.  The clock reads less than \<open>2 ^ 43\<close> seconds since boot, so
  that its microseconds are below \<open>2 ^ 63\<close>.  Loops that follow pointers are partial functions, and the properties state
  that they return; no fuel is used.

  Not modelled: \<open>malloc\<close> failing, the addresses of a machine (the model's addresses are unbounded, and
  freed ones are not reused), the effect of socket options (of \<open>getaddrinfo\<close>, \<open>socket\<close>, \<open>setsockopt\<close>,
  \<open>bind\<close>, \<open>listen\<close>, \<open>connect\<close>, \<open>poll\<close>, \<open>accept\<close> and \<open>fcntl\<close> the model has the outcomes), the unused
  \<open>get_in_addr\<close> of the server, the messages of the servers and on standard error, the \<open>errno\<close> that the
  client's \<open>write_all\<close> prints when \<open>send\<close> fails, \<open>SIGPIPE\<close> (a server or client that sends to a peer which
  has gone away is ended by it; in the model such a \<open>send\<close> does not occur), and the third-party sources of
  the CMake tutorial.  A moved-from \<open>std::string\<close> is empty, as in libstdc++ and libc++.  The position in
  \<open>avl_offset\<close> is an integer; at 64 bits it could overflow only after more than \<open>2 ^ 30\<close> turns of the loop.
\<close>

section \<open>From the client to the keyspace and back\<close>

text \<open>The reply that leaves the server: the one of the command, or an error in its place when it is too long.\<close>

definition reply_sent :: "reply \<Rightarrow> reply" where
  "reply_sent r = (if 4 + length (reply_bytes r) > k_max_msg
     then err_reply ERR_2BIG ''response is too big'' else r)"

lemma limit_response_reply: "limit_response (reply_bytes r) = reply_bytes (reply_sent r)"
  by (simp add: limit_response_def reply_sent_def err_reply_def out_err_def ascii_def)

lemma request_served:
  assumes "conn_ok c" "cstate c = STATE_REQ" "unread c = []" "fits cmd"
    and "do_request g cmd [] = Some (g', out)" "flushes rs (length (frame (limit_response out))) rs'"
  shows "\<exists>c'. conn_dispatch (Got (frame (payload cmd)) # rs) g c =
      Some (g', c', frame (limit_response out), rs') \<and> conn_ok c' \<and> cstate c' = STATE_REQ \<and> unread c' = []"
proof -
  have "length (frame (payload cmd)) \<le> buf_cap" using assms(4) by (simp add: fits_def buf_cap_def)
  moreover have "frame (payload cmd) \<noteq> []" by (metis length_frame list.size(3) add_is_0 zero_neq_numeral)
  ultimately show ?thesis
    using state_req_serves [OF assms(1,2), of "frame (payload cmd)" "[cmd]" "[]" g g' "[out]" rs rs'] assms(3-6)
    by simp
qed

lemma reply_shown:
  assumes "delivers ds (frame (limit_response (reply_bytes r)))"
  shows "read_res ds junk = Some (shown_of (reply_sent r), 0)"
proof -
  have "length (reply_bytes (reply_sent r)) \<le> k_max_msg"
    using length_limit_response [of "reply_bytes r"] by (simp add: limit_response_reply)
  then show ?thesis
    using read_res_reply [of ds "reply_sent r" "[]"] assms by (simp add: frame_def limit_response_reply)
qed

text \<open>
  C1. A command from one end to the other.  The client is started with a command that fits in a message
  and is no range query on an existing set, on a network where an address can be connected to.  It sends one framed request, in whatever pieces the
  socket takes.  An idle connection of a server whose keyspace represents \<open>kv\<close> that receives these bytes
  executes the command as its specification says and sends one framed reply.  The client, reading the
  reply in any pieces, shows it (or the error that stands for a reply that is too long) and exits with 0.
\<close>

theorem command_end_to_end:
  assumes "length wb = 4 + k_max_msg" "fits cmd" "connect_first addrs" "accepts ws (4 + length (payload cmd))"
    and "conn_ok c" "cstate c = STATE_REQ" "unread c = []"
    and "db_rep g kv" "roomy kv" "card (dom kv) < 2 ^ 32" "\<not> walks kv cmd"
  shows "\<exists>bytes g' kv' r sent. spec_step kv cmd kv' r \<and> db_rep g' kv' \<and> sent = frame (reply_bytes (reply_sent r)) \<and>
    (\<forall>rs rs'. flushes rs (length sent) rs' \<longrightarrow>
      (\<exists>c'. conn_dispatch (Got bytes # rs) g c = Some (g', c', sent, rs') \<and>
        conn_ok c' \<and> cstate c' = STATE_REQ \<and> unread c' = [])) \<and>
    (\<forall>ds junk. delivers ds sent \<longrightarrow>
      client_main (Some addrs) (prog # cmd) ws wb ds junk = Some (0, bytes, shown_of (reply_sent r)))"
proof -
  from do_request_repr [OF assms(8-10) fits_short [OF assms(2)] assms(11)] obtain g' kv' r where
    r: "do_request g cmd [] = Some (g', reply_bytes r)" "db_rep g' kv'" "spec_step kv cmd kv' r" by blast
  have "send_req_buf wb cmd = Some (Inr (frame (payload cmd)))"
    using send_req_buf_payload [OF assms(1), of cmd] assms(2) by (simp add: fits_def frame_def k_max_msg_def)
  then have "send_req ws wb cmd = Some (frame (payload cmd), 0)"
    using write_all_accepts [of ws "frame (payload cmd)"] assms(4) by (simp add: send_req_def)
  then have "client_main (Some addrs) (prog # cmd) ws wb ds junk = Some (0, frame (payload cmd), shown_of (reply_sent r))"
    if "delivers ds (frame (limit_response (reply_bytes r)))" for ds junk
    using reply_shown [OF that] assms(3) by (simp add: client_main_def)
  with r request_served [OF assms(5-7,2) r(1)] show ?thesis
    unfolding limit_response_reply by blast
qed

theorem command_end_to_end_witness:
  "\<exists>bytes g' c'. client_main (Some [No_connect, Connected]) [[], ascii ''get'', [107]] [Sent 10, Sent 100]
       (replicate (4 + k_max_msg) 0) [Got [1, 0], Got [0, 0, SER_NIL]] [] = Some (0, bytes, [Nil_line]) \<and>
     conn_dispatch [Got bytes, Sent 3, Intr, Sent 4096] gdata0 conn0 = Some (g', c', [1, 0, 0, 0, SER_NIL], [])"
proof -
  let ?cmd = "[ascii ''get'', [107]]" and ?ws = "[Sent 10, Sent 100]"
  have "bytes32 1 = [1, 0, 0, 0]" by code_simp
  then have f: "frame [SER_NIL] = [1, 0, 0, 0, SER_NIL]" by (simp add: frame_def)
  have n: "reply_sent R_nil = R_nil" by (simp add: reply_sent_def k_max_msg_def)
  have p: "fits ?cmd" by (simp add: fits_def length_payload ascii_def k_max_msg_def)
  have ac: "accepts ?ws (4 + length (payload ?cmd))" by (simp add: length_payload ascii_def numeral_eq_Suc)
  have w: "\<not> walks Map.empty ?cmd" "roomy Map.empty" by (simp_all add: walks_def is_cmd_def roomy_def hm_capacity_def)
  have nil: "r = R_nil" if "spec_step Map.empty ?cmd kv' r" for kv' r
    using spec_step_get [OF that] by (simp add: spec_get_def)
  have fl: "flushes [Sent 3, Intr, Sent 4096] 5 []"
    by (rule flushes.part, simp, rule flushes.intr, rule flushes.last) simp
  from command_end_to_end [of "replicate (4 + k_max_msg) 0", OF _ p _ ac conn0_ok db_rep_empty w(2) _ w(1), of "[No_connect, Connected]" "[]"]
  obtain bytes g' kv' r sent where a: "spec_step Map.empty ?cmd kv' r" "sent = frame (reply_bytes (reply_sent r))" and
    b: "\<forall>rs rs'. flushes rs (length sent) rs' \<longrightarrow> (\<exists>c'. conn_dispatch (Got bytes # rs) gdata0 conn0 =
        Some (g', c', sent, rs') \<and> conn_ok c' \<and> cstate c' = STATE_REQ \<and> unread c' = [])" and
    d: "\<forall>ds junk. delivers ds sent \<longrightarrow> client_main (Some [No_connect, Connected]) ([] # ?cmd) ?ws
        (replicate (4 + k_max_msg) 0) ds junk = Some (0, bytes, shown_of (reply_sent r))"
    by (auto simp del: length_frame)
  have r: "r = R_nil" "sent = [1, 0, 0, 0, SER_NIL]" using nil [OF a(1)] a(2) by (simp_all add: n f)
  have "flushes [Sent 3, Intr, Sent 4096] (length sent) []" "delivers [Got [1, 0], Got [0, 0, SER_NIL]] sent"
    using fl r(2) by (simp_all add: numeral_eq_Suc)
  with b d have "\<exists>c'. conn_dispatch [Got bytes, Sent 3, Intr, Sent 4096] gdata0 conn0 = Some (g', c', sent, [])"
    "client_main (Some [No_connect, Connected]) ([] # ?cmd) ?ws (replicate (4 + k_max_msg) 0)
      [Got [1, 0], Got [0, 0, SER_NIL]] [] = Some (0, bytes, shown_of (reply_sent r))" by blast+
  then show ?thesis unfolding r n by auto
qed

end
